(* ===== verification/Pud_Prelude.thy ===== *)
theory Pud_Prelude
  imports Main "HOL-Library.Word" "HOL-Library.Monad_Syntax"
begin

text \<open>
  Shared vocabulary of the development: counted loops in the shape the sources write them, the
  unsigned value of a column of bits, ripple-carry and comparison facts about such values, and the
  theorem collections the component theories fill.
\<close>

named_theorems row_simps \<open>symbolic execution of row operations on one lane\<close>
named_theorems dram_defs \<open>definitions of the DRAM controller that step lemmas unfold\<close>

section \<open>Counted loops\<close>

text \<open>\<open>for (i = lo; i < hi; i += Suc st) body\<close>; the step is given minus one, so it is never zero.\<close>

function for_loop :: "nat \<Rightarrow> nat \<Rightarrow> nat \<Rightarrow> (nat \<Rightarrow> 's \<Rightarrow> 's) \<Rightarrow> 's \<Rightarrow> 's" where
  "for_loop lo hi st body s =
     (if lo < hi then for_loop (lo + Suc st) hi st body (body lo s) else s)"
  by pat_completeness auto
termination
  by (relation "measure (\<lambda>(lo, hi, st, body, s). hi - lo)") auto

declare for_loop.simps [simp del]

lemma for_loop_stop [simp]: "hi \<le> lo \<Longrightarrow> for_loop lo hi st body s = s"
  by (subst for_loop.simps) simp

lemma for_loop_step:
  "lo < hi \<Longrightarrow> for_loop lo hi st body s = for_loop (lo + Suc st) hi st body (body lo s)"
  by (subst for_loop.simps) simp

text \<open>A unit-step loop is a fold over the interval it runs through.\<close>

lemma for_loop_fold: "for_loop lo hi 0 body s = fold body [lo..<hi] s"
proof (induction "hi - lo" arbitrary: lo s)
  case 0
  then show ?case by simp
next
  case (Suc n)
  then have "lo < hi" by simp
  moreover have "for_loop (Suc lo) hi 0 body (body lo s) = fold body [Suc lo..<hi] (body lo s)"
    using Suc by simp
  ultimately show ?case by (simp add: for_loop_step upt_conv_Cons)
qed

text \<open>The indices a stepped loop visits, in order.\<close>

function range_step :: "nat \<Rightarrow> nat \<Rightarrow> nat \<Rightarrow> nat list" where
  "range_step lo hi st = (if lo < hi then lo # range_step (lo + Suc st) hi st else [])"
  by pat_completeness auto
termination
  by (relation "measure (\<lambda>(lo, hi, st). hi - lo)") auto

declare range_step.simps [simp del]

lemma range_step_stop [simp]: "hi \<le> lo \<Longrightarrow> range_step lo hi st = []"
  by (subst range_step.simps) simp

lemma range_step_Cons:
  "lo < hi \<Longrightarrow> range_step lo hi st = lo # range_step (lo + Suc st) hi st"
  by (subst range_step.simps) simp

lemma for_loop_range_step: "for_loop lo hi st body s = fold body (range_step lo hi st) s"
  by (induction lo hi st body s rule: for_loop.induct)
     (simp add: for_loop.simps range_step.simps)

lemma range_step_unit: "range_step lo hi 0 = [lo..<hi]"
proof (induction "hi - lo" arbitrary: lo)
  case 0
  then show ?case by simp
next
  case (Suc n)
  then have "lo < hi" by simp
  with Suc show ?case by (simp add: range_step_Cons upt_conv_Cons)
qed

lemma set_range_step:
  "set (range_step lo hi st) = {i. \<exists>k. i = lo + k * Suc st \<and> i < hi}"
proof (induction lo hi st rule: range_step.induct)
  case (1 lo hi st)
  show ?case
  proof (cases "lo < hi")
    case True
    have split: "{i. \<exists>k. i = lo + k * Suc st \<and> i < hi} =
        insert lo {i. \<exists>k. i = lo + Suc st + k * Suc st \<and> i < hi}" (is "?A = insert lo ?B")
    proof
      show "?A \<subseteq> insert lo ?B"
      proof
        fix i assume "i \<in> ?A"
        then obtain k where k: "i = lo + k * Suc st" "i < hi" by blast
        show "i \<in> insert lo ?B"
        proof (cases k)
          case 0
          with k show ?thesis by simp
        next
          case (Suc k')
          then have "i = lo + Suc st + k' * Suc st" using k(1) by simp
          with k(2) show ?thesis by blast
        qed
      qed
      show "insert lo ?B \<subseteq> ?A"
      proof
        fix i assume "i \<in> insert lo ?B"
        then consider "i = lo" | k where "i = lo + Suc st + k * Suc st" "i < hi" by blast
        then show "i \<in> ?A"
        proof cases
          case 1
          with True have "i = lo + 0 * Suc st \<and> i < hi" by simp
          then show ?thesis by blast
        next
          case (2 k)
          then have "i = lo + Suc k * Suc st \<and> i < hi" by simp
          then show ?thesis by blast
        qed
      qed
    qed
    have "set (range_step lo hi st) = insert lo (set (range_step (lo + Suc st) hi st))"
      by (simp add: range_step_Cons [OF True])
    also have "\<dots> = insert lo {i. \<exists>k. i = lo + Suc st + k * Suc st \<and> i < hi}"
      by (simp only: 1 [OF True])
    finally show ?thesis by (simp only: split)
  next
    case False
    then show ?thesis by auto
  qed
qed

lemma distinct_range_step: "distinct (range_step lo hi st)"
  by (induction lo hi st rule: range_step.induct)
     (subst range_step.simps, auto simp: set_range_step)

lemma range_step_two: "range_step lo hi 1 = map (\<lambda>i. lo + 2 * i) [0..<(hi - lo + 1) div 2]"
proof (induction lo hi "1::nat" rule: range_step.induct)
  case (1 lo hi)
  show ?case
  proof (cases "lo < hi")
    case True
    then have "(hi - lo + 1) div 2 = Suc ((hi - (lo + 2) + 1) div 2)" by presburger
    moreover have "map (\<lambda>i. lo + 2 * i) [0..<Suc n] = lo # map (\<lambda>i. lo + 2 + 2 * i) [0..<n]" for n
      by (simp add: upt_conv_Cons map_Suc_upt [symmetric] del: upt_Suc)
    ultimately show ?thesis using 1 [OF True] by (simp add: range_step_Cons [OF True])
  qed simp
qed

text \<open>The value of the loop variable when such a loop exits.\<close>

definition range_end :: "nat \<Rightarrow> nat \<Rightarrow> nat \<Rightarrow> nat" where
  "range_end lo hi st = lo + Suc st * length (range_step lo hi st)"

lemma range_end_two: "range_end lo hi 1 = lo + 2 * ((hi - lo + 1) div 2)"
  by (simp add: range_end_def range_step_two del: One_nat_def)

lemmas range_step_pairs = range_step_two [unfolded One_nat_def]

section \<open>The unsigned value of a column of bits\<close>

definition bits_val :: "nat \<Rightarrow> (nat \<Rightarrow> bool) \<Rightarrow> nat" where
  "bits_val n f = (\<Sum>j<n. of_bool (f j) * 2 ^ j)"

lemma bits_val_0 [simp]: "bits_val 0 f = 0"
  by (simp add: bits_val_def)

lemma bits_val_Suc: "bits_val (Suc n) f = bits_val n f + of_bool (f n) * 2 ^ n"
  by (simp add: bits_val_def)

lemma bits_val_cong: "n = m \<Longrightarrow> (\<And>j. j < m \<Longrightarrow> f j = g j) \<Longrightarrow> bits_val n f = bits_val m g"
  by (simp add: bits_val_def)

lemma bits_val_less: "bits_val n f < 2 ^ n"
  by (induction n) (auto simp: bits_val_Suc)

lemma bits_val_False [simp]: "bits_val n (\<lambda>j. False) = 0"
  by (simp add: bits_val_def)

lemma bits_val_compl: "bits_val n (\<lambda>j. \<not> f j) = 2 ^ n - 1 - bits_val n f"
proof (induction n)
  case (Suc n)
  have "bits_val n f \<le> 2 ^ n - 1"
    using bits_val_less [of n f] by simp
  with Suc show ?case by (auto simp: bits_val_Suc)
qed simp

lemma bits_val_True: "bits_val n (\<lambda>j. True) = 2 ^ n - 1"
  using bits_val_compl [of n "\<lambda>j. False"] by simp

text \<open>Splitting off the lowest bit instead of the highest.\<close>

lemma bits_val_Suc_shift: "bits_val (Suc n) f = of_bool (f 0) + 2 * bits_val n (\<lambda>j. f (Suc j))"
  by (induction n) (simp_all add: bits_val_Suc)

lemma bits_val_bit: "bits_val n (\<lambda>j. bit x j) = x mod 2 ^ n"
proof (induction n arbitrary: x)
  case (Suc n)
  have "x mod 2 ^ Suc n = x mod 2 + 2 * (x div 2 mod 2 ^ n)"
    using mod_mult2_eq [of x 2 "2 ^ n"] by simp
  then show ?case
    by (simp add: bits_val_Suc_shift bit_0 bit_Suc Suc mod_2_eq_odd)
qed simp

lemma bits_val_add: "bits_val (m + n) f = bits_val m f + 2 ^ m * bits_val n (\<lambda>j. f (m + j))"
  by (induction n) (simp_all add: bits_val_Suc power_add algebra_simps)

lemma bits_val_eq_iff: "bits_val n f = bits_val n g \<longleftrightarrow> (\<forall>j<n. f j = g j)"
proof (induction n arbitrary: f g)
  case (Suc n)
  have "bits_val (Suc n) f = bits_val (Suc n) g \<longleftrightarrow>
      f 0 = g 0 \<and> bits_val n (\<lambda>j. f (Suc j)) = bits_val n (\<lambda>j. g (Suc j))"
    by (cases "f 0"; cases "g 0") (simp_all add: bits_val_Suc_shift, presburger+)
  also have "\<dots> \<longleftrightarrow> (\<forall>j<Suc n. f j = g j)"
    by (simp add: Suc All_less_Suc2)
  finally show ?case .
qed simp

lemma bits_val_div: "j \<le> n \<Longrightarrow> bits_val n f div 2 ^ j = bits_val (n - j) (\<lambda>k. f (j + k))"
  using bits_val_add [of j "n - j" f] bits_val_less [of j f] by simp

lemma bits_val_eq_0: "bits_val n f = 0 \<longleftrightarrow> (\<forall>j<n. \<not> f j)"
  using bits_val_eq_iff [of n f "\<lambda>j. False"] by simp

lemma bits_val_word: "bits_val n (bit (w :: 'a::len word)) = take_bit n (unat w)"
proof -
  have "bit w = bit (unat w)" by (simp add: fun_eq_iff bit_unsigned_iff)
  then show ?thesis by (simp add: bits_val_bit take_bit_eq_mod)
qed

lemma bit_bits_val: "bit (bits_val n f) k \<longleftrightarrow> k < n \<and> f k"
proof (induction n arbitrary: f k)
  case (Suc n)
  show ?case
    by (cases k) (simp_all add: bits_val_Suc_shift bit_Suc bit_0 Suc)
qed simp

lemma bit_of_bits_val:
  "bit (of_nat (bits_val n f) :: 'a::len word) k \<longleftrightarrow> k < LENGTH('a) \<and> k < n \<and> f k"
  by (auto simp: bit_of_nat_iff bit_bits_val)

section \<open>Majority, ripple carry and comparison\<close>

definition maj :: "bool \<Rightarrow> bool \<Rightarrow> bool \<Rightarrow> bool" where
  "maj a b c \<longleftrightarrow> (a \<and> b) \<or> (b \<and> c) \<or> (a \<and> c)"

definition xor3 :: "bool \<Rightarrow> bool \<Rightarrow> bool \<Rightarrow> bool" where
  "xor3 a b c \<longleftrightarrow> (a \<noteq> (b \<noteq> c))"

fun carry :: "(nat \<Rightarrow> bool) \<Rightarrow> (nat \<Rightarrow> bool) \<Rightarrow> bool \<Rightarrow> nat \<Rightarrow> bool" where
  "carry a b cin 0 = cin"
| "carry a b cin (Suc j) = maj (a j) (b j) (carry a b cin j)"

text \<open>Ripple-carry addition: the sum bits and the carry out encode the exact sum.\<close>

lemma ripple_add:
  "bits_val n (\<lambda>j. xor3 (a j) (b j) (carry a b cin j)) + of_bool (carry a b cin n) * 2 ^ n
     = bits_val n a + bits_val n b + of_bool cin"
proof (induction n)
  case (Suc n)
  then show ?case
    by (cases "a n"; cases "b n"; cases "carry a b cin n") (simp_all add: bits_val_Suc maj_def xor3_def)
qed simp

lemma ripple_add_mod:
  "bits_val n (\<lambda>j. xor3 (a j) (b j) (carry a b cin j)) = (bits_val n a + bits_val n b + of_bool cin) mod 2 ^ n"
proof -
  let ?s = "bits_val n (\<lambda>j. xor3 (a j) (b j) (carry a b cin j))"
  have "(bits_val n a + bits_val n b + of_bool cin) mod 2 ^ n = ?s mod 2 ^ n"
    using ripple_add [of n a b cin] by (metis mod_mult_self2 mult.commute)
  then show ?thesis
    using bits_val_less [of n] by simp
qed

lemma ripple_carry_out:
  "carry a b cin n \<longleftrightarrow> 2 ^ n \<le> bits_val n a + bits_val n b + of_bool cin"
  using ripple_add [of n a b cin] bits_val_less [of n "\<lambda>j. xor3 (a j) (b j) (carry a b cin j)"]
  by (cases "carry a b cin n") auto

text \<open>Subtraction is addition of the complement with carry in; the carry out is \<open>\<ge>\<close>.\<close>

lemma ripple_sub_mod:
  "bits_val n (\<lambda>j. xor3 (a j) (\<not> b j) (carry a (\<lambda>j. \<not> b j) True j))
     = (2 ^ n + bits_val n a - bits_val n b) mod 2 ^ n"
proof -
  have "bits_val n a + bits_val n (\<lambda>j. \<not> b j) + of_bool True = 2 ^ n + bits_val n a - bits_val n b"
    using bits_val_less [of n b] by (simp add: bits_val_compl)
  then show ?thesis
    using ripple_add_mod [of n a "\<lambda>j. \<not> b j" True] by simp
qed

lemma carry_compl_ge: "carry a (\<lambda>j. \<not> b j) True n \<longleftrightarrow> bits_val n b \<le> bits_val n a"
  using bits_val_less [of n b] by (auto simp: ripple_carry_out bits_val_compl)

lemma carry_compl_gt: "carry a (\<lambda>j. \<not> b j) False n \<longleftrightarrow> bits_val n b < bits_val n a"
  using bits_val_less [of n b] by (auto simp: ripple_carry_out bits_val_compl)

end
