(* ===== verification/Row_Ops.thy ===== *)
theory Row_Ops
  imports Pud_Prelude
begin

text \<open>
  The row-operation layer of the workloads (\<open>microworkloads/mimdram.h\<close>): the pointers to the
  bit-wise group of rows, vector allocation, and the \<open>AAP_VECTORS\<close> and \<open>AP_VECTOR\<close> macros
  that issue one row operation per bank. The two instructions themselves are external
  (\<open>extern void rowop_ap\<close>, \<open>rowop_aap\<close>): they are fields of the record \<open>hw\<close>, and the
  locale \<open>ambit_substrate\<close> states the documented behaviour of the DRAM substrate they run on.
  The lane machine is the abstraction every workload proof works in: one bit position of one row
  of every vector, on which an AAP or AP acts as an update of a handful of booleans.
\<close>

section \<open>Pointers\<close>

definition ROW_SIZE :: nat where "ROW_SIZE = 8192"
definition BANK_COUNT :: nat where "BANK_COUNT = 16"
definition RANK_COUNT :: nat where "RANK_COUNT = 2"
definition ROWS_PER_VECTOR :: nat where "ROWS_PER_VECTOR = BANK_COUNT * RANK_COUNT"
definition ALIGNMENT :: nat where "ALIGNMENT = ROW_SIZE * ROWS_PER_VECTOR"

lemma ROWS_PER_VECTOR_32 [simp]: "ROWS_PER_VECTOR = 32"
  by (simp add: ROWS_PER_VECTOR_def BANK_COUNT_def RANK_COUNT_def)

text \<open>The arrays of vectors the workloads allocate.\<close>

datatype arr =
  Vals | Vals1 | Vals2 | Selection | Output | Tmp_s | Carries | Tmp_sign | Rest | Tmp | Tmp_m

text \<open>
  The pointer variables of the header, and the vectors a program allocates: \<open>Vec a j\<close> is the
  vector \<open>a[j]\<close>. Distinct allocations are distinct pointers.
\<close>

datatype ptr =
  B_T0 | B_T1 | B_T2 | B_T3 | B_DCC0 | B_DCC0N | B_DCC1 | B_DCC1N
  | B_DCC0N_T0 | B_DCC1N_T1 | B_T2_T3 | B_T0_T3
  | B_T0_T1_T2 | B_T1_T2_T3 | B_DCC0_T1_T2 | B_DCC1_T0_T3
  | C_0 | C_1
  | Vec arr nat

text \<open>A pointer value: an allocation and an offset into it, counted in rows.\<close>

type_synonym addr = "ptr \<times> nat"

definition VECTOR :: "nat \<Rightarrow> addr \<Rightarrow> addr" where
  "VECTOR base_row p = (fst p, snd p + base_row)"

definition ROW :: "nat \<Rightarrow> addr \<Rightarrow> addr" where
  "ROW row p = (fst p, snd p + row)"

section \<open>The substrate\<close>

text \<open>
  Row operations act on cells of DRAM: per bank, the four designated rows T0..T3 and the two
  dual-contact rows, and the rows of the allocated vectors.
\<close>

datatype cell = T0 | T1 | T2 | T3 | DCC0 | DCC1

datatype loc = Cell cell nat | Data arr nat nat

fun loc_off :: "loc \<Rightarrow> nat" where
  "loc_off (Cell x r) = r"
| "loc_off (Data a j r) = r"

fun loc_shift :: "nat \<Rightarrow> loc \<Rightarrow> loc" where
  "loc_shift k (Cell x r) = Cell x (r + k)"
| "loc_shift k (Data a j r) = Data a j (r + k)"

text \<open>
  The word lines an address raises, with the polarity of the connection: \<open>False\<close> is the negated
  word line of a dual-contact cell. The names of the header say which rows each address opens.
\<close>

fun wordlines :: "addr \<Rightarrow> (loc \<times> bool) list" where
  "wordlines (B_T0, r) = [(Cell T0 r, True)]"
| "wordlines (B_T1, r) = [(Cell T1 r, True)]"
| "wordlines (B_T2, r) = [(Cell T2 r, True)]"
| "wordlines (B_T3, r) = [(Cell T3 r, True)]"
| "wordlines (B_DCC0, r) = [(Cell DCC0 r, True)]"
| "wordlines (B_DCC0N, r) = [(Cell DCC0 r, False)]"
| "wordlines (B_DCC1, r) = [(Cell DCC1 r, True)]"
| "wordlines (B_DCC1N, r) = [(Cell DCC1 r, False)]"
| "wordlines (B_DCC0N_T0, r) = [(Cell DCC0 r, False), (Cell T0 r, True)]"
| "wordlines (B_DCC1N_T1, r) = [(Cell DCC1 r, False), (Cell T1 r, True)]"
| "wordlines (B_T2_T3, r) = [(Cell T2 r, True), (Cell T3 r, True)]"
| "wordlines (B_T0_T3, r) = [(Cell T0 r, True), (Cell T3 r, True)]"
| "wordlines (B_T0_T1_T2, r) = [(Cell T0 r, True), (Cell T1 r, True), (Cell T2 r, True)]"
| "wordlines (B_T1_T2_T3, r) = [(Cell T1 r, True), (Cell T2 r, True), (Cell T3 r, True)]"
| "wordlines (B_DCC0_T1_T2, r) = [(Cell DCC0 r, True), (Cell T1 r, True), (Cell T2 r, True)]"
| "wordlines (B_DCC1_T0_T3, r) = [(Cell DCC1 r, True), (Cell T0 r, True), (Cell T3 r, True)]"
| "wordlines (C_0, r) = []"
| "wordlines (C_1, r) = []"
| "wordlines (Vec a j, r) = [(Data a j r, True)]"

text \<open>One bit line: the value of every cell it connects.\<close>

type_synonym bitline = "loc \<Rightarrow> bool"

text \<open>
  The value the sense amplifier settles on when an address is activated: the majority of three
  open cells, the value of a single one, the constant of a control row. Charge sharing between
  exactly two cells has no defined outcome, so a two-row address is never a source
  (\<open>sensable\<close>).
\<close>

fun sense :: "addr \<Rightarrow> bitline \<Rightarrow> bool" where
  "sense (p, r) B =
     (if p = C_0 then False else if p = C_1 then True
      else case wordlines (p, r) of
        [(l, b)] \<Rightarrow> B l = b
      | [(l1, b1), (l2, b2), (l3, b3)] \<Rightarrow> maj (B l1 = b1) (B l2 = b2) (B l3 = b3)
      | _ \<Rightarrow> False)"

definition sensable :: "addr \<Rightarrow> bool" where
  "sensable a \<longleftrightarrow> fst a = C_0 \<or> fst a = C_1 \<or> length (wordlines a) \<in> {1, 3}"

definition writable :: "addr \<Rightarrow> bool" where
  "writable a \<longleftrightarrow> wordlines a \<noteq> []"

definition drive :: "addr \<Rightarrow> bool \<Rightarrow> bitline \<Rightarrow> bitline" where
  "drive a v B = fold (\<lambda>(l, b) B. B(l := (v = b))) (wordlines a) B"

definition act_ap :: "addr \<Rightarrow> bitline \<Rightarrow> bitline" where
  "act_ap a B = drive a (sense a B) B"

definition act_aap :: "addr \<Rightarrow> addr \<Rightarrow> bitline \<Rightarrow> bitline" where
  "act_aap d s B = drive d (sense s B) (drive s (sense s B) B)"

text \<open>
  What a workload calls and this repository does not define: the two row instructions, the stores
  and loads of the CPU in a vector, \<open>posix_memalign\<close> (the return code for an allocation of a
  pointer with a size), whether \<open>malloc\<close> returns \<open>NULL\<close> for a size, and the sequence of values
  \<open>rand()\<close> yields.
\<close>

record 'm hw =
  rowop_ap :: "addr \<Rightarrow> 'm \<Rightarrow> 'm"
  rowop_aap :: "addr \<Rightarrow> addr \<Rightarrow> 'm \<Rightarrow> 'm"
  store32 :: "arr \<Rightarrow> nat \<Rightarrow> nat \<Rightarrow> 32 word \<Rightarrow> 'm \<Rightarrow> 'm"
  load32 :: "arr \<Rightarrow> nat \<Rightarrow> nat \<Rightarrow> 'm \<Rightarrow> 32 word"
  posix_memalign :: "ptr \<Rightarrow> nat \<Rightarrow> nat"
  malloc_fails :: "nat \<Rightarrow> bool"
  rand_val :: "nat \<Rightarrow> 32 word"

text \<open>
  The documented behaviour of the substrate. \<open>peek m l c\<close> is bit \<open>c\<close> of the row at \<open>l\<close>. Every
  bit line executes the two commands independently of the others; a CPU store writes 32
  consecutive bits of a row and a load reads them.
\<close>

locale ambit_substrate =
  fixes hw :: "'m hw"
    and peek :: "'m \<Rightarrow> loc \<Rightarrow> nat \<Rightarrow> bool"
  assumes peek_ap: "sensable a \<Longrightarrow> writable a \<Longrightarrow>
      peek (rowop_ap hw a m) l c = act_ap a (\<lambda>l. peek m l c) l"
    and peek_aap: "sensable s \<Longrightarrow> writable d \<Longrightarrow>
      peek (rowop_aap hw d s m) l c = act_aap d s (\<lambda>l. peek m l c) l"
    and peek_store: "peek (store32 hw ar j i w m) l c =
      (if l = Data ar j (i div 2048) \<and> c div 32 = i mod 2048 then bit w (c mod 32) else peek m l c)"
    and peek_load: "bit (load32 hw ar j i m) k \<longleftrightarrow>
      k < 32 \<and> peek m (Data ar j (i div 2048)) (32 * (i mod 2048) + k)"

section \<open>Issuing row operations\<close>

text \<open>One use of a macro: \<open>AAP_VECTORS (dst, src)\<close> or \<open>AP_VECTOR (dst)\<close>.\<close>

datatype vop = AAPV addr addr | APV addr

definition FOR_ALL_ROWS_IN_VECTOR :: "nat \<Rightarrow> nat \<Rightarrow> (nat \<Rightarrow> 'm \<Rightarrow> 'm) \<Rightarrow> 'm \<Rightarrow> 'm" where
  "FOR_ALL_ROWS_IN_VECTOR per_col_rows base_row body m =
     for_loop 0 (min (per_col_rows - base_row) ROWS_PER_VECTOR) 0 body m"

definition AAP_VECTORS :: "'m hw \<Rightarrow> nat \<Rightarrow> nat \<Rightarrow> addr \<Rightarrow> addr \<Rightarrow> 'm \<Rightarrow> 'm" where
  "AAP_VECTORS hw per_col_rows base_row dst src m =
     FOR_ALL_ROWS_IN_VECTOR per_col_rows base_row
       (\<lambda>row. rowop_aap hw (ROW row dst) (ROW row src)) m"

definition AP_VECTOR :: "'m hw \<Rightarrow> nat \<Rightarrow> nat \<Rightarrow> addr \<Rightarrow> 'm \<Rightarrow> 'm" where
  "AP_VECTOR hw per_col_rows base_row dst m =
     FOR_ALL_ROWS_IN_VECTOR per_col_rows base_row (\<lambda>row. rowop_ap hw (ROW row dst)) m"

fun run_vop :: "'m hw \<Rightarrow> nat \<Rightarrow> nat \<Rightarrow> vop \<Rightarrow> 'm \<Rightarrow> 'm" where
  "run_vop hw pcr base_row (AAPV d s) m = AAP_VECTORS hw pcr base_row d s m"
| "run_vop hw pcr base_row (APV d) m = AP_VECTOR hw pcr base_row d m"

definition run_vops :: "'m hw \<Rightarrow> nat \<Rightarrow> nat \<Rightarrow> vop list \<Rightarrow> 'm \<Rightarrow> 'm" where
  "run_vops hw pcr base_row vs m = fold (run_vop hw pcr base_row) vs m"

text \<open>
  \<open>FOR_ALL_VECTORS\<close>. The control flow of a workload body depends on the arguments only, never on
  the contents of memory, so a body is the sequence of macro uses it performs for a \<open>base_row\<close>.
\<close>

definition FOR_ALL_VECTORS :: "'m hw \<Rightarrow> nat \<Rightarrow> (nat \<Rightarrow> vop list) \<Rightarrow> 'm \<Rightarrow> 'm" where
  "FOR_ALL_VECTORS hw per_col_rows body m =
     for_loop 0 per_col_rows (ROWS_PER_VECTOR - 1)
       (\<lambda>base_row. run_vops hw per_col_rows base_row (body base_row)) m"

section \<open>Allocation and initialisation\<close>

text \<open>The state of a workload: the memory, and how many random numbers were drawn.\<close>

record 'm prog =
  dram :: 'm
  drawn :: nat

definition b_group :: "ptr list" where
  "b_group = [B_T0, B_T1, B_T2, B_T3, B_DCC0, B_DCC0N, B_DCC1, B_DCC1N, B_DCC0N_T0, B_DCC1N_T1,
     B_T2_T3, B_T0_T3, B_T0_T1_T2, B_T1_T2_T3, B_DCC0_T1_T2, B_DCC1_T0_T3, C_0, C_1]"

text \<open>\<open>None\<close> is \<open>exit(-1)\<close>.\<close>

definition init_ambit :: "'m hw \<Rightarrow> 'm prog \<Rightarrow> 'm prog option" where
  "init_ambit hw s =
     (let dummy = sum_list (map (\<lambda>p. posix_memalign hw p ALIGNMENT) b_group)
      in if dummy \<noteq> 0 then None else Some s)"

definition allocate_vector :: "'m hw \<Rightarrow> arr \<Rightarrow> nat \<Rightarrow> nat \<Rightarrow> 'm prog \<Rightarrow> 'm prog option" where
  "allocate_vector hw a i width s =
     (if posix_memalign hw (Vec a i) width \<noteq> 0 then None else Some s)"

fun allocate_vector_array_from ::
    "'m hw \<Rightarrow> arr \<Rightarrow> nat \<Rightarrow> nat list \<Rightarrow> 'm prog \<Rightarrow> 'm prog option" where
  "allocate_vector_array_from hw a width [] s = Some s"
| "allocate_vector_array_from hw a width (i # is) s =
     do { s \<leftarrow> allocate_vector hw a i width s; allocate_vector_array_from hw a width is s }"

definition allocate_vector_array ::
    "'m hw \<Rightarrow> arr \<Rightarrow> nat \<Rightarrow> nat \<Rightarrow> 'm prog \<Rightarrow> 'm prog option" where
  "allocate_vector_array hw a width height s =
     (if malloc_fails hw (height * 8) then None
      else allocate_vector_array_from hw a width [0..<height] s)"

definition fill_random :: "'m hw \<Rightarrow> arr \<Rightarrow> nat \<Rightarrow> nat \<Rightarrow> 'm prog \<Rightarrow> 'm prog" where
  "fill_random hw a i width s =
     for_loop 0 (width div 4) 0
       (\<lambda>j s. s\<lparr>dram := store32 hw a i j (rand_val hw (drawn s)) (dram s),
                drawn := Suc (drawn s)\<rparr>) s"

definition random_vector :: "'m hw \<Rightarrow> arr \<Rightarrow> nat \<Rightarrow> 'm prog \<Rightarrow> 'm prog option" where
  "random_vector hw a width s =
     do { s \<leftarrow> allocate_vector hw a 0 width s; Some (fill_random hw a 0 width s) }"

definition random_vector_array ::
    "'m hw \<Rightarrow> arr \<Rightarrow> nat \<Rightarrow> nat \<Rightarrow> 'm prog \<Rightarrow> 'm prog option" where
  "random_vector_array hw a width height s =
     do { s \<leftarrow> allocate_vector_array hw a width height s;
          Some (for_loop 0 height 0 (\<lambda>i. fill_random hw a i width) s) }"

text \<open>The quantities every \<open>main\<close> derives from \<open>argv[2]\<close>.\<close>

definition num_vals :: "nat \<Rightarrow> nat" where
  "num_vals arg2 = 1024 * 2 ^ arg2"

definition per_col_bytes :: "nat \<Rightarrow> nat" where
  "per_col_bytes arg2 = num_vals arg2 div 8"

definition per_col_rows :: "nat \<Rightarrow> nat" where
  "per_col_rows arg2 = (per_col_bytes arg2 + ROW_SIZE - 1) div ROW_SIZE"

text \<open>The measured loop: \<open>for (iter = 0; iter < 2; iter ++)\<close> around the vector loop.\<close>

definition two_iterations ::
    "'m hw \<Rightarrow> nat \<Rightarrow> (nat \<Rightarrow> vop list) \<Rightarrow> 'm prog \<Rightarrow> 'm prog" where
  "two_iterations hw pcr body s =
     for_loop 0 2 0 (\<lambda>iter s. s\<lparr>dram := FOR_ALL_VECTORS hw pcr body (dram s)\<rparr>) s"

section \<open>The lane machine\<close>

text \<open>
  Lane \<open>r\<close> of a bit line: the cells of bank slot \<open>r\<close> and the rows \<open>r\<close> past each vector
  boundary. A macro with aligned operands acts on every lane it covers as one AAP or AP, and on no
  other lane.
\<close>

definition aligned :: "loc \<Rightarrow> bool" where
  "aligned l \<longleftrightarrow> loc_off l mod 32 = 0"

definition lane :: "nat \<Rightarrow> bitline \<Rightarrow> bitline" where
  "lane r B = (\<lambda>l. aligned l \<and> B (loc_shift r l))"

fun lane_vop :: "vop \<Rightarrow> bitline \<Rightarrow> bitline" where
  "lane_vop (AAPV d s) B = act_aap d s B"
| "lane_vop (APV d) B = act_ap d B"

definition lane_run :: "vop list \<Rightarrow> bitline \<Rightarrow> bitline" where
  "lane_run vs B = fold lane_vop vs B"

fun vop_ok :: "vop \<Rightarrow> bool" where
  "vop_ok (AAPV d s) \<longleftrightarrow> sensable s \<and> writable d \<and> snd d mod 32 = 0 \<and> snd s mod 32 = 0"
| "vop_ok (APV d) \<longleftrightarrow> sensable d \<and> writable d \<and> snd d mod 32 = 0"

lemma lane_run_Nil [simp]: "lane_run [] B = B"
  by (simp add: lane_run_def)

lemma lane_run_Cons [simp]: "lane_run (v # vs) B = lane_run vs (lane_vop v B)"
  by (simp add: lane_run_def)

lemma lane_run_append [simp]: "lane_run (vs @ ws) B = lane_run ws (lane_run vs B)"
  by (simp add: lane_run_def)

lemma wordlines_ROW:
  "wordlines (ROW k a) = map (\<lambda>(l, b). (loc_shift k l, b)) (wordlines a)"
  by (cases a; cases "fst a") (auto simp: ROW_def)

lemma wordlines_off: "(l, b) \<in> set (wordlines a) \<Longrightarrow> loc_off l = snd a"
  by (cases a; cases "fst a") auto

lemma sensable_ROW [simp]: "sensable (ROW k a) = sensable a"
  by (simp add: sensable_def wordlines_ROW) (simp add: ROW_def)

lemma writable_ROW [simp]: "writable (ROW k a) = writable a"
  by (simp add: writable_def wordlines_ROW)

lemma drive_other: "l \<notin> fst ` set (wordlines a) \<Longrightarrow> drive a v B l = B l"
proof -
  have "l \<notin> fst ` set wl \<Longrightarrow> fold (\<lambda>(l, b) B. B(l := (v = b))) wl B l = B l" for wl
    by (induction wl arbitrary: B) auto
  then show "l \<notin> fst ` set (wordlines a) \<Longrightarrow> ?thesis" by (simp add: drive_def)
qed

lemma loc_shift_eq_aligned:
  assumes "aligned l" "aligned l'" "k < 32" "r < 32"
  shows "loc_shift r l' = loc_shift k l \<longleftrightarrow> r = k \<and> l' = l"
proof -
  have "x + r = y + k \<longleftrightarrow> r = k \<and> x = y" if "x mod 32 = 0" "y mod 32 = 0" for x y :: nat
  proof -
    from that obtain a b where "x = 32 * a" "y = 32 * b"
      by (meson mod_eq_0_iff_dvd dvdE)
    moreover have "(32 * a + r) mod 32 = r" "(32 * b + k) mod 32 = k"
      using assms(3,4) by simp_all
    ultimately show ?thesis by (metis add_right_cancel)
  qed
  then show ?thesis
    using assms(1,2) by (cases l; cases l') (auto simp: aligned_def)
qed

lemma lane_upd:
  assumes "aligned l" "k < 32" "r < 32"
  shows "lane r (B(loc_shift k l := x)) = (if k = r then (lane r B)(l := x) else lane r B)"
  using assms by (auto simp: lane_def fun_eq_iff loc_shift_eq_aligned)

lemma lane_drive:
  assumes "snd a mod 32 = 0" "k < 32" "r < 32"
  shows "lane r (drive (ROW k a) v B) = (if k = r then drive a v (lane r B) else lane r B)"
proof -
  have "lane r (fold (\<lambda>(l, b) B. B(l := (v = b))) (map (\<lambda>(l, b). (loc_shift k l, b)) wl) B) =
      (if k = r then fold (\<lambda>(l, b) B. B(l := (v = b))) wl (lane r B) else lane r B)"
    if "\<forall>(l, b) \<in> set wl. aligned l" for wl
    using that assms(2,3) by (induction wl arbitrary: B) (auto simp: lane_upd)
  moreover have "\<forall>(l, b) \<in> set (wordlines a). aligned l"
    using assms(1) by (auto simp: aligned_def dest: wordlines_off)
  ultimately show ?thesis by (simp add: drive_def wordlines_ROW)
qed

lemma sense_lane:
  assumes "snd a mod 32 = 0"
  shows "sense (ROW r a) B = sense a (lane r B)"
  using assms by (cases a; cases "fst a") (auto simp: ROW_def lane_def aligned_def)

lemma lane_act_aap:
  assumes "snd d mod 32 = 0" "snd s mod 32 = 0" "k < 32" "r < 32"
  shows "lane r (act_aap (ROW k d) (ROW k s) B) = (if k = r then act_aap d s (lane r B) else lane r B)"
  using assms by (simp add: act_aap_def lane_drive sense_lane)

lemma lane_act_ap:
  assumes "snd a mod 32 = 0" "k < 32" "r < 32"
  shows "lane r (act_ap (ROW k a) B) = (if k = r then act_ap a (lane r B) else lane r B)"
  using assms by (simp add: act_ap_def lane_drive sense_lane)

text \<open>A body that acts on lane \<open>k\<close> only, run over all lanes below \<open>n\<close>.\<close>

lemma fold_lanes:
  assumes "\<And>k m. k < n \<Longrightarrow> view (f k m) = (if k = r then g (view m) else view m)"
  shows "view (fold f [0..<n] m) = (if r < n then g (view m) else view m)"
  using assms by (induction n) auto

context ambit_substrate
begin

definition view :: "'m \<Rightarrow> nat \<Rightarrow> nat \<Rightarrow> bitline" where
  "view m r c = lane r (\<lambda>l. peek m l c)"

lemma view_AAP_VECTORS:
  assumes "vop_ok (AAPV d s)" "r < 32"
  shows "view (AAP_VECTORS hw pcr base d s m) r c =
      (if base + r < pcr then act_aap d s (view m r c) else view m r c)"
proof -
  let ?n = "min (pcr - base) 32"
  have "view (fold (\<lambda>k. rowop_aap hw (ROW k d) (ROW k s)) [0..<?n] m) r c =
      (if r < ?n then act_aap d s (view m r c) else view m r c)"
  proof (rule fold_lanes [where view = "\<lambda>m. view m r c"])
    fix k m assume "k < ?n"
    moreover have "peek (rowop_aap hw (ROW k d) (ROW k s) m) = (\<lambda>l c. act_aap (ROW k d) (ROW k s) (\<lambda>l. peek m l c) l)"
      using assms(1) by (intro ext) (simp add: peek_aap)
    ultimately show "view (rowop_aap hw (ROW k d) (ROW k s) m) r c =
        (if k = r then act_aap d s (view m r c) else view m r c)"
      using assms by (simp add: view_def lane_act_aap)
  qed
  moreover have "r < ?n \<longleftrightarrow> base + r < pcr"
    using assms(2) by auto
  ultimately show ?thesis
    by (simp add: AAP_VECTORS_def FOR_ALL_ROWS_IN_VECTOR_def for_loop_fold)
qed

lemma view_AP_VECTOR:
  assumes "vop_ok (APV d)" "r < 32"
  shows "view (AP_VECTOR hw pcr base d m) r c =
      (if base + r < pcr then act_ap d (view m r c) else view m r c)"
proof -
  let ?n = "min (pcr - base) 32"
  have "view (fold (\<lambda>k. rowop_ap hw (ROW k d)) [0..<?n] m) r c =
      (if r < ?n then act_ap d (view m r c) else view m r c)"
  proof (rule fold_lanes [where view = "\<lambda>m. view m r c"])
    fix k m assume "k < ?n"
    moreover have "peek (rowop_ap hw (ROW k d) m) = (\<lambda>l c. act_ap (ROW k d) (\<lambda>l. peek m l c) l)"
      using assms(1) by (intro ext) (simp add: peek_ap)
    ultimately show "view (rowop_ap hw (ROW k d) m) r c =
        (if k = r then act_ap d (view m r c) else view m r c)"
      using assms by (simp add: view_def lane_act_ap)
  qed
  moreover have "r < ?n \<longleftrightarrow> base + r < pcr"
    using assms(2) by auto
  ultimately show ?thesis
    by (simp add: AP_VECTOR_def FOR_ALL_ROWS_IN_VECTOR_def for_loop_fold)
qed

lemma view_run_vops:
  assumes "list_all vop_ok vs" "r < 32"
  shows "view (run_vops hw pcr base vs m) r c =
      (if base + r < pcr then lane_run vs (view m r c) else view m r c)"
  using assms(1)
proof (induction vs arbitrary: m)
  case Nil
  then show ?case by (simp add: run_vops_def)
next
  case (Cons v vs)
  have "view (run_vop hw pcr base v m) r c =
      (if base + r < pcr then lane_vop v (view m r c) else view m r c)"
    using Cons.prems assms(2) by (cases v) (simp_all add: view_AAP_VECTORS view_AP_VECTOR)
  moreover have "run_vops hw pcr base (v # vs) m = run_vops hw pcr base vs (run_vop hw pcr base v m)"
    by (simp add: run_vops_def)
  ultimately show ?case
    using Cons.IH [of "run_vop hw pcr base v m"] Cons.prems by simp
qed

end

text \<open>
  Symbolic execution of a macro on one lane. A single-row source is unchanged by being sensed; a
  triple-row source leaves the majority in its three cells.
\<close>

lemma drive_simps [row_simps]:
  "drive (B_T0, r) v B = B(Cell T0 r := v)"
  "drive (B_T1, r) v B = B(Cell T1 r := v)"
  "drive (B_T2, r) v B = B(Cell T2 r := v)"
  "drive (B_T3, r) v B = B(Cell T3 r := v)"
  "drive (B_DCC0, r) v B = B(Cell DCC0 r := v)"
  "drive (B_DCC0N, r) v B = B(Cell DCC0 r := (\<not> v))"
  "drive (B_DCC1, r) v B = B(Cell DCC1 r := v)"
  "drive (B_DCC1N, r) v B = B(Cell DCC1 r := (\<not> v))"
  "drive (Vec a j, r) v B = B(Data a j r := v)"
  "drive (B_DCC0N_T0, r) v B = B(Cell DCC0 r := (\<not> v), Cell T0 r := v)"
  "drive (B_DCC1N_T1, r) v B = B(Cell DCC1 r := (\<not> v), Cell T1 r := v)"
  "drive (B_T2_T3, r) v B = B(Cell T2 r := v, Cell T3 r := v)"
  "drive (B_T0_T3, r) v B = B(Cell T0 r := v, Cell T3 r := v)"
  "drive (B_T0_T1_T2, r) v B = B(Cell T0 r := v, Cell T1 r := v, Cell T2 r := v)"
  "drive (B_T1_T2_T3, r) v B = B(Cell T1 r := v, Cell T2 r := v, Cell T3 r := v)"
  "drive (B_DCC0_T1_T2, r) v B = B(Cell DCC0 r := v, Cell T1 r := v, Cell T2 r := v)"
  "drive (B_DCC1_T0_T3, r) v B = B(Cell DCC1 r := v, Cell T0 r := v, Cell T3 r := v)"
  by (simp_all add: drive_def)

lemma aap_single_simps [row_simps]:
  "act_aap d (B_T0, r) B = drive d (B (Cell T0 r)) B"
  "act_aap d (B_T1, r) B = drive d (B (Cell T1 r)) B"
  "act_aap d (B_T2, r) B = drive d (B (Cell T2 r)) B"
  "act_aap d (B_T3, r) B = drive d (B (Cell T3 r)) B"
  "act_aap d (B_DCC0, r) B = drive d (B (Cell DCC0 r)) B"
  "act_aap d (B_DCC0N, r) B = drive d (\<not> B (Cell DCC0 r)) B"
  "act_aap d (B_DCC1, r) B = drive d (B (Cell DCC1 r)) B"
  "act_aap d (B_DCC1N, r) B = drive d (\<not> B (Cell DCC1 r)) B"
  "act_aap d (Vec a j, r) B = drive d (B (Data a j r)) B"
  "act_aap d (C_0, r) B = drive d False B"
  "act_aap d (C_1, r) B = drive d True B"
  by (auto simp: act_aap_def drive_def intro!: arg_cong2 [where f = "fold _"] arg_cong [where f = "fold _ _"])

lemma aap_triple_simps [row_simps]:
  "act_aap d (B_T0_T1_T2, r) B =
     (let v = maj (B (Cell T0 r)) (B (Cell T1 r)) (B (Cell T2 r)) in drive d v (B(Cell T0 r := v, Cell T1 r := v, Cell T2 r := v)))"
  "act_aap d (B_T1_T2_T3, r) B =
     (let v = maj (B (Cell T1 r)) (B (Cell T2 r)) (B (Cell T3 r)) in drive d v (B(Cell T1 r := v, Cell T2 r := v, Cell T3 r := v)))"
  "act_aap d (B_DCC0_T1_T2, r) B =
     (let v = maj (B (Cell DCC0 r)) (B (Cell T1 r)) (B (Cell T2 r)) in drive d v (B(Cell DCC0 r := v, Cell T1 r := v, Cell T2 r := v)))"
  "act_aap d (B_DCC1_T0_T3, r) B =
     (let v = maj (B (Cell DCC1 r)) (B (Cell T0 r)) (B (Cell T3 r)) in drive d v (B(Cell DCC1 r := v, Cell T0 r := v, Cell T3 r := v)))"
  by (simp_all add: act_aap_def drive_simps Let_def)

lemma ap_triple_simps [row_simps]:
  "act_ap (B_T0_T1_T2, r) B = (let v = maj (B (Cell T0 r)) (B (Cell T1 r)) (B (Cell T2 r)) in B(Cell T0 r := v, Cell T1 r := v, Cell T2 r := v))"
  "act_ap (B_T1_T2_T3, r) B = (let v = maj (B (Cell T1 r)) (B (Cell T2 r)) (B (Cell T3 r)) in B(Cell T1 r := v, Cell T2 r := v, Cell T3 r := v))"
  "act_ap (B_DCC0_T1_T2, r) B = (let v = maj (B (Cell DCC0 r)) (B (Cell T1 r)) (B (Cell T2 r)) in B(Cell DCC0 r := v, Cell T1 r := v, Cell T2 r := v))"
  "act_ap (B_DCC1_T0_T3, r) B = (let v = maj (B (Cell DCC1 r)) (B (Cell T0 r)) (B (Cell T3 r)) in B(Cell DCC1 r := v, Cell T0 r := v, Cell T3 r := v))"
  by (simp_all add: act_ap_def drive_simps Let_def)

section \<open>From one lane to a whole program\<close>

text \<open>The data rows a body stores to.\<close>

fun vop_dst :: "vop \<Rightarrow> addr" where
  "vop_dst (AAPV d s) = d"
| "vop_dst (APV d) = d"

lemma drive_Data: "fst d \<noteq> Vec a j \<or> snd d \<noteq> b \<Longrightarrow> drive d v B (Data a j b) = B (Data a j b)"
  by (rule drive_other, cases d; cases "fst d") auto

lemma drive_sense_self [simp]: "drive s (sense s B) B (Data a j b) = B (Data a j b)"
  by (cases s; cases "fst s") (auto simp: drive_def)

lemma lane_vop_frame: "vop_dst v \<noteq> (Vec a j, b) \<Longrightarrow> lane_vop v B (Data a j b) = B (Data a j b)"
proof (cases v)
  case (AAPV d s)
  assume "vop_dst v \<noteq> (Vec a j, b)"
  with AAPV have "fst d \<noteq> Vec a j \<or> snd d \<noteq> b" by (cases d) auto
  with AAPV show ?thesis by (simp add: act_aap_def drive_Data)
next
  case (APV d)
  assume "vop_dst v \<noteq> (Vec a j, b)"
  with APV have "fst d \<noteq> Vec a j \<or> snd d \<noteq> b" by (cases d) auto
  with APV show ?thesis by (simp add: act_ap_def drive_Data)
qed

lemma lane_run_frame:
  "(Vec a j, b) \<notin> vop_dst ` set vs \<Longrightarrow> lane_run vs B (Data a j b) = B (Data a j b)"
  by (induction vs arbitrary: B) (auto simp: lane_vop_frame)

lemma lane_run_frameI:
  "list_all (\<lambda>v. vop_dst v \<noteq> (Vec a j, b)) vs \<Longrightarrow> lane_run vs B (Data a j b) = B (Data a j b)"
  by (rule lane_run_frame) (auto simp: list_all_iff)

text \<open>A body is well formed for a set of arrays when it stores to their rows at its own base only.\<close>

fun vop_fits :: "arr set \<Rightarrow> nat \<Rightarrow> vop \<Rightarrow> bool" where
  "vop_fits A b v \<longleftrightarrow> vop_ok v \<and>
     (case vop_dst v of (Vec a j, b') \<Rightarrow> a \<in> A \<longrightarrow> b' = b | _ \<Rightarrow> True)"

definition body_ok :: "arr set \<Rightarrow> (nat \<Rightarrow> vop list) \<Rightarrow> bool" where
  "body_ok A body \<longleftrightarrow> (\<forall>b. b mod 32 = 0 \<longrightarrow> list_all (vop_fits A b) (body b))"

lemma list_all_True [simp]: "list_all (\<lambda>x. True) xs"
  by (simp add: list_all_iff)

lemma list_all_concat_map [simp]:
  "list_all P (concat (map f xs)) \<longleftrightarrow> (\<forall>x\<in>set xs. list_all P (f x))"
  by (auto simp: list_all_iff)

lemma body_ok_vops: "body_ok A body \<Longrightarrow> b mod 32 = 0 \<Longrightarrow> list_all vop_ok (body b)"
  by (auto simp: body_ok_def list_all_iff)

lemma body_ok_dst:
  assumes "body_ok A body" "b mod 32 = 0" "a \<in> A" "b' \<noteq> b"
  shows "(Vec a j, b') \<notin> vop_dst ` set (body b)"
proof
  assume "(Vec a j, b') \<in> vop_dst ` set (body b)"
  then obtain v where "v \<in> set (body b)" "vop_dst v = (Vec a j, b')" by (metis imageE)
  moreover have "vop_fits A b v" if "v \<in> set (body b)" for v
    using that assms(1,2) by (simp add: body_ok_def list_all_iff)
  ultimately show False using assms(3,4) by fastforce
qed

text \<open>A property of the rows at one base that does not look anywhere else.\<close>

definition local_to :: "arr set \<Rightarrow> nat \<Rightarrow> (bitline \<Rightarrow> bool) \<Rightarrow> bool" where
  "local_to A b Q \<longleftrightarrow> (\<forall>B B'. (\<forall>a\<in>A. \<forall>j. B (Data a j b) = B' (Data a j b)) \<longrightarrow> Q B \<longrightarrow> Q B')"

lemma local_toD:
  "local_to A b Q \<Longrightarrow> (\<And>a j. a \<in> A \<Longrightarrow> B' (Data a j b) = B (Data a j b)) \<Longrightarrow> Q B \<Longrightarrow> Q B'"
  unfolding local_to_def by metis

lemma local_frame:
  assumes "body_ok A body" "local_to A b Q" "b' mod 32 = 0" "b' \<noteq> b" "Q B"
  shows "Q (lane_run (body b') B)"
proof (rule local_toD [OF assms(2) _ assms(5)])
  fix a j assume "a \<in> A"
  then show "lane_run (body b') B (Data a j b) = B (Data a j b)"
    using body_ok_dst [OF assms(1,3)] assms(4) by (simp add: lane_run_frame)
qed

lemma vector_base_mod: "x \<in> set (range_step 0 pcr 31) \<Longrightarrow> x mod 32 = 0"
  by (auto simp: set_range_step)

lemma vector_base_in: "R < pcr \<Longrightarrow> 32 * (R div 32) \<in> set (range_step 0 pcr 31)"
proof -
  assume "R < pcr"
  then have "32 * (R div 32) < pcr" by (metis div_mult_mod_eq le_add1 le_less_trans mult.commute)
  moreover have "32 * (R div 32) = 0 + R div 32 * Suc 31" by simp
  ultimately show ?thesis unfolding set_range_step by blast
qed

context ambit_substrate
begin

lemma view_vectors_preserve:
  assumes "body_ok A body" "local_to A b Q" "r < 32" "\<forall>x\<in>set bs. x mod 32 = 0 \<and> x \<noteq> b"
    and "Q (view m r c)"
  shows "Q (view (fold (\<lambda>b. run_vops hw pcr b (body b)) bs m) r c)"
  using assms(4,5)
proof (induction bs arbitrary: m)
  case Nil
  then show ?case by simp
next
  case (Cons x bs)
  then have ok: "list_all vop_ok (body x)"
    using assms(1) by (simp add: body_ok_vops)
  have "Q (view (run_vops hw pcr x (body x) m) r c)"
    using Cons.prems local_frame [OF assms(1,2), of x "view m r c"]
    by (simp add: view_run_vops [OF ok assms(3)])
  with Cons show ?case by simp
qed

text \<open>
  Whatever one run of the body establishes in a lane holds of every row of the vectors after the
  whole vector loop.
\<close>

lemma FOR_ALL_VECTORS_establishes:
  assumes "body_ok A body" "\<And>b. local_to A b (Q b)"
    and "\<And>b B. b mod 32 = 0 \<Longrightarrow> Q b (lane_run (body b) B)"
    and "R < pcr"
  shows "Q (32 * (R div 32)) (view (FOR_ALL_VECTORS hw pcr body m) (R mod 32) c)"
proof -
  let ?b = "32 * (R div 32)" and ?r = "R mod 32" and ?bs = "range_step 0 pcr 31"
  let ?f = "\<lambda>b. run_vops hw pcr b (body b)"
  have R: "?b + ?r = R" by simp
  obtain xs ys where bs: "?bs = xs @ ?b # ys" using split_list [OF vector_base_in [OF assms(4)]] by blast
  then have ys: "\<forall>x\<in>set ys. x mod 32 = 0 \<and> x \<noteq> ?b"
    using distinct_range_step [of 0 pcr 31] vector_base_mod [of _ pcr] by auto
  have ok: "list_all vop_ok (body ?b)" using assms(1) by (simp add: body_ok_vops)
  have "Q ?b (view (?f ?b (fold ?f xs m)) ?r c)"
    using assms(3,4) R by (simp add: view_run_vops [OF ok])
  then have "Q ?b (view (fold ?f ys (?f ?b (fold ?f xs m))) ?r c)"
    using view_vectors_preserve [OF assms(1,2) _ ys] by simp
  then show ?thesis
    by (simp add: FOR_ALL_VECTORS_def for_loop_range_step bs)
qed

text \<open>
  One pass over all vectors, as a relation between the rows of a vector before and after: whatever
  the body relates in a lane, the pass relates.
\<close>

lemma FOR_ALL_VECTORS_relates:
  assumes "body_ok A body" "R < pcr"
    and "\<And>B. Q (\<lambda>a j. B (Data a j (32 * (R div 32)))) (\<lambda>a j. lane_run (body (32 * (R div 32))) B (Data a j (32 * (R div 32))))"
    and "\<And>f f' g g'. (\<And>a j. a \<in> A \<Longrightarrow> f' a j = f a j \<and> g' a j = g a j) \<Longrightarrow> Q f g \<Longrightarrow> Q f' g'"
  shows "Q (\<lambda>a j. view m (R mod 32) c (Data a j (32 * (R div 32))))
      (\<lambda>a j. view (FOR_ALL_VECTORS hw pcr body m) (R mod 32) c (Data a j (32 * (R div 32))))"
proof -
  let ?b = "32 * (R div 32)" and ?r = "R mod 32" and ?bs = "range_step 0 pcr 31"
  let ?f = "\<lambda>b. run_vops hw pcr b (body b)"
  let ?same = "\<lambda>B0 B. \<forall>a\<in>A. \<forall>j. B (Data a j ?b) = B0 (Data a j ?b)"
  obtain xs ys where bs: "?bs = xs @ ?b # ys" using split_list [OF vector_base_in [OF assms(2)]] by blast
  have others: "\<forall>x\<in>set xs. x mod 32 = 0 \<and> x \<noteq> ?b" "\<forall>x\<in>set ys. x mod 32 = 0 \<and> x \<noteq> ?b"
    using distinct_range_step [of 0 pcr 31] vector_base_mod [of _ pcr] bs by auto
  have keep: "?same (view m ?r c) (view (fold ?f zs m) ?r c)" if "\<forall>x\<in>set zs. x mod 32 = 0 \<and> x \<noteq> ?b" for zs m
    by (rule view_vectors_preserve [OF assms(1) _ _ that]) (auto simp: local_to_def)
  have ok: "list_all vop_ok (body ?b)" using assms(1) by (simp add: body_ok_vops)
  let ?m1 = "fold ?f xs m"
  have mid: "view (?f ?b ?m1) ?r c = lane_run (body ?b) (view ?m1 ?r c)"
    using assms(2) by (simp add: view_run_vops [OF ok])
  have "Q (\<lambda>a j. view ?m1 ?r c (Data a j ?b)) (\<lambda>a j. view (?f ?b ?m1) ?r c (Data a j ?b))"
    unfolding mid by (rule assms(3))
  then show ?thesis
    by (rule assms(4) [rotated]) (use keep [OF others(1), of m] keep [OF others(2), of "?f ?b ?m1"] in
      \<open>auto simp: FOR_ALL_VECTORS_def for_loop_range_step bs\<close>)
qed

lemma view_Data: "b mod 32 = 0 \<Longrightarrow> view m r c (Data a j b) = peek m (Data a j (b + r)) c"
  by (simp add: view_def lane_def aligned_def)

end

section \<open>Programs\<close>

text \<open>The number stored in column \<open>c\<close> of row \<open>R\<close> of the first \<open>n\<close> vectors of an array.\<close>

definition column_val :: "('m \<Rightarrow> loc \<Rightarrow> nat \<Rightarrow> bool) \<Rightarrow> 'm \<Rightarrow> arr \<Rightarrow> nat \<Rightarrow> nat \<Rightarrow> nat \<Rightarrow> nat" where
  "column_val peek m a n R c = bits_val n (\<lambda>j. peek m (Data a j R) c)"

text \<open>Every allocation succeeds.\<close>

definition alloc_ok :: "'m hw \<Rightarrow> bool" where
  "alloc_ok hw \<longleftrightarrow> (\<forall>p n. posix_memalign hw p n = 0) \<and> (\<forall>n. \<not> malloc_fails hw n)"

lemma init_ambit_ok: "alloc_ok hw \<Longrightarrow> init_ambit hw s = Some s"
  by (simp add: alloc_ok_def init_ambit_def b_group_def)

lemma allocate_vector_ok: "alloc_ok hw \<Longrightarrow> allocate_vector hw a i w s = Some s"
  by (simp add: alloc_ok_def allocate_vector_def)

lemma allocate_vector_array_ok: "alloc_ok hw \<Longrightarrow> allocate_vector_array hw a w h s = Some s"
proof -
  assume ok: "alloc_ok hw"
  then have "allocate_vector_array_from hw a w is s = Some s" for "is"
    by (induction "is") (simp_all add: allocate_vector_ok)
  with ok show ?thesis by (simp add: allocate_vector_array_def alloc_ok_def)
qed

lemma random_vector_ok: "alloc_ok hw \<Longrightarrow> random_vector hw a w s = Some (fill_random hw a 0 w s)"
  by (simp add: random_vector_def allocate_vector_ok)

lemma random_vector_array_ok:
  "alloc_ok hw \<Longrightarrow> random_vector_array hw a w h s = Some (for_loop 0 h 0 (\<lambda>i. fill_random hw a i w) s)"
  by (simp add: random_vector_array_def allocate_vector_array_ok)

lemmas alloc_simps =
  init_ambit_ok allocate_vector_ok allocate_vector_array_ok random_vector_ok random_vector_array_ok

lemma dram_two_iterations:
  "dram (two_iterations hw pcr body s) =
     FOR_ALL_VECTORS hw pcr body (FOR_ALL_VECTORS hw pcr body (dram s))"
  by (simp add: two_iterations_def for_loop_step)

lemma VECTOR_at [simp]: "VECTOR b (p, 0) = (p, b)"
  by (simp add: VECTOR_def)

lemma usable_simps [simp]:
  "sensable (p, r) \<longleftrightarrow> p \<notin> {B_DCC0N_T0, B_DCC1N_T1, B_T2_T3, B_T0_T3}"
  "writable (p, r) \<longleftrightarrow> p \<notin> {C_0, C_1}"
  by (cases p; simp add: sensable_def writable_def)+

text \<open>
  A program of several passes over the vectors: the rows of a vector go through the bodies one
  after the other, each started with whatever the designated rows hold at that point.
\<close>

fun passes_rel :: "nat \<Rightarrow> (nat \<Rightarrow> vop list) list \<Rightarrow> (arr \<Rightarrow> nat \<Rightarrow> bool) \<Rightarrow> (arr \<Rightarrow> nat \<Rightarrow> bool) \<Rightarrow> bool" where
  "passes_rel b [] f g \<longleftrightarrow> g = f"
| "passes_rel b (p # ps) f g \<longleftrightarrow>
     (\<exists>B. (\<forall>a j. B (Data a j b) = f a j) \<and> passes_rel b ps (\<lambda>a j. lane_run (p b) B (Data a j b)) g)"

lemma passes_rel_append: "passes_rel b (ps @ qs) f g \<longleftrightarrow> (\<exists>h. passes_rel b ps f h \<and> passes_rel b qs h g)"
  by (induction ps arbitrary: f) auto

text \<open>Whether a body stores to an array.\<close>

definition stores_to :: "arr \<Rightarrow> vop list \<Rightarrow> bool" where
  "stores_to a vs \<longleftrightarrow> list_ex (\<lambda>v. case vop_dst v of (Vec a' j, r) \<Rightarrow> a' = a | _ \<Rightarrow> False) vs"

context ambit_substrate
begin

lemma program_establishes:
  assumes "body_ok A body" "\<And>b. local_to A b (Q b)"
    and "\<And>b B. b mod 32 = 0 \<Longrightarrow> Q b (lane_run (body b) B)"
    and "R < pcr"
  shows "Q (32 * (R div 32)) (view (dram (two_iterations hw pcr body s)) (R mod 32) c)"
  unfolding dram_two_iterations by (rule FOR_ALL_VECTORS_establishes [OF assms])

lemma view_column: "view m (R mod 32) c (Data a j (32 * (R div 32))) = peek m (Data a j R) c"
  by (simp add: view_Data)

text \<open>
  The same for a property of the columns of a set of arrays, which is how the workloads state
  their results.
\<close>

lemma program_columns:
  assumes "body_ok A body" "R < pcr"
    and "\<And>b B. b mod 32 = 0 \<Longrightarrow> P (\<lambda>a j. lane_run (body b) B (Data a j b))"
    and "\<And>f g. (\<And>a j. a \<in> A \<Longrightarrow> f a j = g a j) \<Longrightarrow> P f \<Longrightarrow> P g"
  shows "P (\<lambda>a j. peek (dram (two_iterations hw pcr body s)) (Data a j R) c)"
proof -
  let ?Q = "\<lambda>b B. P (\<lambda>a j. B (Data a j b))"
  have "local_to A b (?Q b)" for b
    unfolding local_to_def by (intro allI impI) (rule assms(4), auto)
  from program_establishes [OF assms(1) this assms(3,2)]
  show ?thesis by (simp add: view_column)
qed

lemma program_columns_UNIV:
  assumes "body_ok UNIV body" "R < pcr"
    and "\<And>b B. b mod 32 = 0 \<Longrightarrow> P (\<lambda>a j. lane_run (body b) B (Data a j b))"
  shows "P (\<lambda>a j. peek (dram (two_iterations hw pcr body s)) (Data a j R) c)"
proof (rule program_columns [where P = P, OF assms])
  fix f g :: "arr \<Rightarrow> nat \<Rightarrow> bool"
  assume "\<And>a j. a \<in> UNIV \<Longrightarrow> f a j = g a j" and "P f"
  moreover from this(1) have "f = g" by (intro ext) simp
  ultimately show "P g" by simp
qed

text \<open>Both iterations, as relations between the columns before, between and after.\<close>

lemma program_relates:
  assumes "body_ok A body" "R < pcr"
    and "\<And>b B. b mod 32 = 0 \<Longrightarrow> Q (\<lambda>a j. B (Data a j b)) (\<lambda>a j. lane_run (body b) B (Data a j b))"
    and "\<And>f f' g g'. (\<And>a j. a \<in> A \<Longrightarrow> f' a j = f a j \<and> g' a j = g a j) \<Longrightarrow> Q f g \<Longrightarrow> Q f' g'"
  shows "\<exists>mid. Q (\<lambda>a j. peek (dram s) (Data a j R) c) mid \<and>
      Q mid (\<lambda>a j. peek (dram (two_iterations hw pcr body s)) (Data a j R) c)"
proof -
  have "Q (\<lambda>a j. peek m (Data a j R) c) (\<lambda>a j. peek (FOR_ALL_VECTORS hw pcr body m) (Data a j R) c)" for m
    by (rule FOR_ALL_VECTORS_relates [OF assms(1,2), of Q, unfolded view_column])
       (rule assms(3), simp, rule assms(4))
  then show ?thesis unfolding dram_two_iterations by blast
qed

lemma FOR_ALL_VECTORS_pass:
  assumes "body_ok UNIV p" "R < pcr"
  shows "\<exists>B. (\<forall>a j. B (Data a j (32 * (R div 32))) = peek m (Data a j R) c) \<and>
    (\<lambda>a j. peek (FOR_ALL_VECTORS hw pcr p m) (Data a j R) c) = (\<lambda>a j. lane_run (p (32 * (R div 32))) B (Data a j (32 * (R div 32))))"
proof -
  let ?b = "32 * (R div 32)"
  let ?Q = "\<lambda>f g. \<exists>B. (\<forall>a j. B (Data a j ?b) = f a j) \<and> g = (\<lambda>a j. lane_run (p ?b) B (Data a j ?b))"
  have "?Q (\<lambda>a j. peek m (Data a j R) c) (\<lambda>a j. peek (FOR_ALL_VECTORS hw pcr p m) (Data a j R) c)"
  proof (rule FOR_ALL_VECTORS_relates [OF assms, of ?Q, unfolded view_column])
    fix f f' g g' :: "arr \<Rightarrow> nat \<Rightarrow> bool"
    assume eq: "\<And>a j. a \<in> UNIV \<Longrightarrow> f' a j = f a j \<and> g' a j = g a j" and Q: "?Q f g"
    have "f' = f" "g' = g" using eq by (auto intro!: ext)
    with Q show "?Q f' g'" by simp
  qed auto
  then show ?thesis .
qed

lemma fold_passes:
  assumes "list_all (body_ok UNIV) ps" "R < pcr"
  shows "passes_rel (32 * (R div 32)) ps (\<lambda>a j. peek m (Data a j R) c)
    (\<lambda>a j. peek (fold (FOR_ALL_VECTORS hw pcr) ps m) (Data a j R) c)"
  using assms(1)
proof (induction ps arbitrary: m)
  case (Cons p ps)
  then have "body_ok UNIV p" by simp
  from FOR_ALL_VECTORS_pass [OF this assms(2), of m c]
  obtain B where "\<forall>a j. B (Data a j (32 * (R div 32))) = peek m (Data a j R) c"
    "(\<lambda>a j. peek (FOR_ALL_VECTORS hw pcr p m) (Data a j R) c) =
      (\<lambda>a j. lane_run (p (32 * (R div 32))) B (Data a j (32 * (R div 32))))"
    by blast
  with Cons.IH [of "FOR_ALL_VECTORS hw pcr p m"] Cons.prems show ?case by auto
qed simp

lemma program_keeps:
  assumes "body_ok {a} body" "R < pcr" "\<And>b. \<not> stores_to a (body b)"
  shows "peek (dram (two_iterations hw pcr body s)) (Data a j R) c = peek (dram s) (Data a j R) c"
proof -
  let ?Q = "\<lambda>f g. \<forall>j. g a j = f a j"
  have "lane_run (body b) B (Data a j b) = B (Data a j b)" for b B j
    using assms(3) [of b] by (intro lane_run_frameI) (auto simp: stores_to_def list_all_iff list_ex_iff)
  then have "?Q (\<lambda>a j. B (Data a j b)) (\<lambda>a j. lane_run (body b) B (Data a j b))" for b B by simp
  from program_relates [OF assms(1,2), of ?Q, OF this, of s c] show ?thesis by auto
qed

end

section \<open>The reference machine\<close>

text \<open>
  The substrate as a function from rows and columns to bits: the instance on which the contract of
  \<open>ambit_substrate\<close> is discharged.
\<close>

type_synonym ambit_mem = "loc \<Rightarrow> nat \<Rightarrow> bool"

definition ambit_hw :: "ambit_mem hw" where
  "ambit_hw = \<lparr>
     rowop_ap = (\<lambda>a m l c. act_ap a (\<lambda>l. m l c) l),
     rowop_aap = (\<lambda>d s m l c. act_aap d s (\<lambda>l. m l c) l),
     store32 = (\<lambda>a j i w m l c.
       if l = Data a j (i div 2048) \<and> c div 32 = i mod 2048 then bit w (c mod 32) else m l c),
     load32 = (\<lambda>a j i m. of_nat (bits_val 32 (\<lambda>k. m (Data a j (i div 2048)) (32 * (i mod 2048) + k)))),
     posix_memalign = (\<lambda>p n. 0),
     malloc_fails = (\<lambda>n. False),
     rand_val = (\<lambda>k. of_nat (k * 1103515245 + 12345))\<rparr>"

interpretation ambit: ambit_substrate ambit_hw "\<lambda>m. m"
  by unfold_locales (simp_all add: ambit_hw_def bit_of_bits_val)

end
