(* ===== verification/Arith_Workloads.thy ===== *)
theory Arith_Workloads
  imports Row_Ops
begin

text \<open>
  The bit-serial arithmetic workloads (\<open>microworkloads/0*-plus.c\<close> and \<open>1*-plus.c\<close>): addition,
  subtraction, minimum, maximum, multiplication and division of vectors of unsigned numbers stored
  bit-transposed, one row per bit. Each \<open>main\<close> is the allocation of its operands followed by two
  runs of its body over all vectors. The lane lemmas give the effect of a body on one bit
  position; the theorems of the root theory lift them to the whole program.
\<close>

abbreviation at :: "ptr \<Rightarrow> addr" where "at p \<equiv> (p, 0)"

abbreviation vec :: "nat \<Rightarrow> arr \<Rightarrow> nat \<Rightarrow> addr" where
  "vec base a j \<equiv> VECTOR base (at (Vec a j))"

section \<open>Addition\<close>

text \<open>The full adder: carry in and out of DCC1.\<close>

definition full_add :: "addr \<Rightarrow> addr \<Rightarrow> addr \<Rightarrow> vop list" where
  "full_add v1 v2 out =
    [ AAPV (at B_T0_T1_T2) (at B_DCC1),
      AAPV (at B_T2_T3) v1,
      AAPV (at B_DCC1) v2,
      APV (at B_DCC1_T0_T3),
      AAPV (at B_T0_T3) (at B_DCC1N),
      APV (at B_T0_T1_T2),
      AAPV (at B_T1) v2,
      AAPV out (at B_T1_T2_T3) ]"

definition addition_body :: "nat \<Rightarrow> nat \<Rightarrow> vop list" where
  "addition_body col_length base_row =
     AAPV (at B_DCC1) (at C_0) #
     concat (map (\<lambda>j.
       let v1 = vec base_row Vals1 j; v2 = vec base_row Vals2 j; out = vec base_row Output j
       in full_add v1 v2 out) [0..<col_length])"

definition addition_main :: "'m hw \<Rightarrow> nat \<Rightarrow> nat \<Rightarrow> 'm prog \<Rightarrow> 'm prog option" where
  "addition_main hw col_length arg2 s = do {
     s \<leftarrow> init_ambit hw s;
     s \<leftarrow> random_vector_array hw Vals1 (per_col_bytes arg2) col_length s;
     s \<leftarrow> random_vector_array hw Vals2 (per_col_bytes arg2) col_length s;
     s \<leftarrow> allocate_vector_array hw Output (per_col_bytes arg2) col_length s;
     Some (two_iterations hw (per_col_rows arg2) (addition_body col_length) s) }"

lemma full_add_carry:
  "lane_run (full_add (Vec a1 j1, o1) (Vec a2 j2, o2) (Vec a3 j3, o3)) B (Cell DCC1 0)
     = maj (B (Data a1 j1 o1)) (B (Data a2 j2 o2)) (B (Cell DCC1 0))"
  by (cases "B (Data a1 j1 o1)"; cases "B (Data a2 j2 o2)"; cases "B (Cell DCC1 0)")
     (simp_all add: full_add_def row_simps Let_def maj_def)

lemma full_add_sum:
  "lane_run (full_add (Vec a1 j1, o1) (Vec a2 j2, o2) (Vec a3 j3, o3)) B (Data a3 j3 o3)
     = xor3 (B (Data a1 j1 o1)) (B (Data a2 j2 o2)) (B (Cell DCC1 0))"
  by (cases "B (Data a1 j1 o1)"; cases "B (Data a2 j2 o2)"; cases "B (Cell DCC1 0)")
     (simp_all add: full_add_def row_simps Let_def maj_def xor3_def)

lemma full_add_frame:
  "(a, j, b) \<noteq> (a3, j3, o3) \<Longrightarrow>
     lane_run (full_add v1 v2 (Vec a3 j3, o3)) B (Data a j b) = B (Data a j b)"
  by (rule lane_run_frameI) (auto simp: full_add_def)

text \<open>
  The loop every ripple-carry workload runs: step \<open>k\<close> adds the bits \<open>X k\<close> and \<open>Y k\<close> to
  the carry held in cell \<open>K\<close>, leaves the sum bit in \<open>D k\<close>, and changes no other location of
  \<open>S\<close>. The operands of step \<open>k\<close> may be overwritten from step \<open>k\<close> on, not before.
\<close>

lemma ripple_loop:
  fixes B :: bitline
  assumes carry: "\<And>k B. k < n \<Longrightarrow> lane_run (f k) B K = maj (X k B) (Y k B) (B K)"
    and sum: "\<And>k B. k < n \<Longrightarrow> lane_run (f k) B (D k) = xor3 (X k B) (Y k B) (B K)"
    and frame: "\<And>k B l. k < n \<Longrightarrow> l \<in> S \<Longrightarrow> l \<noteq> D k \<Longrightarrow> lane_run (f k) B l = B l"
    and reads: "\<And>k B B'. k < n \<Longrightarrow> (\<And>l. l \<in> S \<Longrightarrow> l \<notin> D ` {..<k} \<Longrightarrow> B' l = B l)
        \<Longrightarrow> X k B' = X k B \<and> Y k B' = Y k B"
    and inj: "inj_on D {..<n}" and sub: "D ` {..<n} \<subseteq> S"
  defines "B' \<equiv> lane_run (concat (map f [0..<n])) B"
  shows "B' K = carry (\<lambda>k. X k B) (\<lambda>k. Y k B) (B K) n"
    and "\<And>k. k < n \<Longrightarrow> B' (D k) = xor3 (X k B) (Y k B) (carry (\<lambda>k. X k B) (\<lambda>k. Y k B) (B K) k)"
    and "\<And>l. l \<in> S \<Longrightarrow> l \<notin> D ` {..<n} \<Longrightarrow> B' l = B l"
proof -
  let ?c = "carry (\<lambda>k. X k B) (\<lambda>k. Y k B) (B K)"
  define R where "R m = lane_run (concat (map f [0..<m])) B" for m
  have "m \<le> n \<Longrightarrow> R m K = ?c m \<and>
      (\<forall>k<m. R m (D k) = xor3 (X k B) (Y k B) (?c k)) \<and>
      (\<forall>l\<in>S. l \<notin> D ` {..<m} \<longrightarrow> R m l = B l)" for m
  proof (induction m)
    case 0
    then show ?case by (simp add: R_def)
  next
    case (Suc m)
    then have IH: "R m K = ?c m" "\<And>k. k < m \<Longrightarrow> R m (D k) = xor3 (X k B) (Y k B) (?c k)"
      "\<And>l. l \<in> S \<Longrightarrow> l \<notin> D ` {..<m} \<Longrightarrow> R m l = B l" and m: "m < n"
      by simp_all
    have step: "R (Suc m) = lane_run (f m) (R m)" by (simp add: R_def)
    have XY: "X m (R m) = X m B" "Y m (R m) = Y m B" using reads [OF m, of "R m" B] IH(3) by auto
    have D: "D k \<in> S" "D k \<noteq> D m" if "k < m" for k
      using that m sub inj by (auto dest: inj_onD)
    show ?case
    proof (intro conjI allI ballI impI)
      show "R (Suc m) K = ?c (Suc m)" by (simp add: step carry [OF m] XY IH(1))
      show "R (Suc m) (D k) = xor3 (X k B) (Y k B) (?c k)" if "k < Suc m" for k
        using that by (cases "k = m") (simp_all add: step sum [OF m] XY IH frame [OF m] D)
      show "R (Suc m) l = B l" if "l \<in> S" "l \<notin> D ` {..<Suc m}" for l
        using that by (simp add: step frame [OF m] IH(3) lessThan_Suc)
    qed
  qed
  from this [of n] show "B' K = ?c n"
    and "\<And>k. k < n \<Longrightarrow> B' (D k) = xor3 (X k B) (Y k B) (?c k)"
    and "\<And>l. l \<in> S \<Longrightarrow> l \<notin> D ` {..<n} \<Longrightarrow> B' l = B l"
    by (simp_all add: R_def B'_def)
qed

text \<open>All data rows.\<close>

definition data_locs :: "loc set" where
  "data_locs = {l. \<exists>a j b. l = Data a j b}"

lemma Data_in [simp]: "Data a j b \<in> data_locs" and Cell_notin [simp]: "Cell x r \<notin> data_locs"
  by (auto simp: data_locs_def)

lemma data_locsE: "l \<in> data_locs \<Longrightarrow> (\<And>a j b. l = Data a j b \<Longrightarrow> P) \<Longrightarrow> P"
  by (auto simp: data_locs_def)

text \<open>A loop that only runs a carry chain in a cell, and leaves the data rows alone.\<close>

lemma carry_loop:
  assumes carry: "\<And>k B. lane_run (f k) B K = maj (X k B) (Y k B) (B K)"
    and data: "\<And>k B l. l \<in> data_locs \<Longrightarrow> lane_run (f k) B l = B l"
    and reads: "\<And>k B B'. (\<And>l. l \<in> data_locs \<Longrightarrow> B' l = B l) \<Longrightarrow> X k B' = X k B \<and> Y k B' = Y k B"
  shows "lane_run (concat (map f [0..<n])) B K = carry (\<lambda>k. X k B) (\<lambda>k. Y k B) (B K) n"
    and "l \<in> data_locs \<Longrightarrow> lane_run (concat (map f [0..<n])) B l = B l"
proof -
  have keep: "l \<in> data_locs \<Longrightarrow> lane_run (concat (map f [0..<n])) B l = B l" for n l
    by (induction n) (simp_all add: data)
  then show "l \<in> data_locs \<Longrightarrow> lane_run (concat (map f [0..<n])) B l = B l" .
  show "lane_run (concat (map f [0..<n])) B K = carry (\<lambda>k. X k B) (\<lambda>k. Y k B) (B K) n"
  proof (induction n)
    case (Suc n)
    then show ?case using reads [of "lane_run (concat (map f [0..<n])) B" B n, OF keep] by (simp add: carry)
  qed simp
qed

lemma full_add_frame_loc:
  "l \<in> data_locs \<Longrightarrow> l \<noteq> Data a3 j3 o3 \<Longrightarrow> lane_run (full_add v1 v2 (Vec a3 j3, o3)) B l = B l"
  by (auto elim!: data_locsE intro!: full_add_frame)

lemma addition_lane:
  "j < n \<Longrightarrow> lane_run (addition_body n b) B (Data Output j b) =
     xor3 (B (Data Vals1 j b)) (B (Data Vals2 j b))
       (carry (\<lambda>j. B (Data Vals1 j b)) (\<lambda>j. B (Data Vals2 j b)) False j)"
  "a \<noteq> Output \<Longrightarrow> lane_run (addition_body n b) B (Data a j b) = B (Data a j b)"
proof -
  let ?B = "B(Cell DCC1 0 := False)"
  let ?f = "\<lambda>j. full_add (Vec Vals1 j, b) (Vec Vals2 j, b) (Vec Output j, b)"
  have body: "lane_run (addition_body n b) B = lane_run (concat (map ?f [0..<n])) ?B"
    by (simp add: addition_body_def row_simps)
  have D: "inj_on (\<lambda>j. Data Output j b) {..<n}" "(\<lambda>j. Data Output j b) ` {..<n} \<subseteq> data_locs"
    by (auto simp: inj_on_def)
  have reads: "B1 (Data Vals1 k b) = B2 (Data Vals1 k b) \<and> B1 (Data Vals2 k b) = B2 (Data Vals2 k b)"
    if "\<And>l. l \<in> data_locs \<Longrightarrow> l \<notin> (\<lambda>j. Data Output j b) ` {..<k} \<Longrightarrow> B1 l = B2 l" for k B1 B2
    using that [of "Data Vals1 k b"] that [of "Data Vals2 k b"] by auto
  note loop = ripple_loop [where f = ?f and B = ?B and X = "\<lambda>j B. B (Data Vals1 j b)",
      OF full_add_carry full_add_sum full_add_frame_loc reads D]
  show "j < n \<Longrightarrow> lane_run (addition_body n b) B (Data Output j b) =
     xor3 (B (Data Vals1 j b)) (B (Data Vals2 j b))
       (carry (\<lambda>j. B (Data Vals1 j b)) (\<lambda>j. B (Data Vals2 j b)) False j)"
    using loop(2) [of j] by (simp add: body)
  show "a \<noteq> Output \<Longrightarrow> lane_run (addition_body n b) B (Data a j b) = B (Data a j b)"
    using loop(3) [of "Data a j b"] by (auto simp: body)
qed

lemma addition_ok: "body_ok UNIV (addition_body n)"
  by (simp add: body_ok_def addition_body_def full_add_def Let_def)

context ambit_substrate
begin

lemma addition_program:
  assumes "alloc_ok hw" "R < per_col_rows arg2"
  shows "\<exists>s'. addition_main hw n arg2 s = Some s' \<and>
    column_val peek (dram s') Output n R c =
      (column_val peek (dram s') Vals1 n R c + column_val peek (dram s') Vals2 n R c) mod 2 ^ n"
proof -
  let ?P = "\<lambda>f. bits_val n (f Output) = (bits_val n (f Vals1) + bits_val n (f Vals2)) mod 2 ^ n"
  have "?P (\<lambda>a j. lane_run (addition_body n b) B (Data a j b))" for b B
    by (simp add: addition_lane ripple_add_mod cong: bits_val_cong)
  from program_columns [OF addition_ok assms(2), of ?P, OF this] show ?thesis
    by (auto simp: addition_main_def alloc_simps [OF assms(1)] column_val_def cong: bits_val_cong)
qed

end

section \<open>Subtraction\<close>

text \<open>The full subtractor: the inverted borrow is the carry, held in DCC0.\<close>

definition full_sub :: "addr \<Rightarrow> addr \<Rightarrow> addr \<Rightarrow> vop list" where
  "full_sub v1 v2 out =
    [ AAPV (at B_T0_T1_T2) (at B_DCC0),
      AAPV (at B_T2_T3) v1,
      AAPV (at B_DCC1N) v2,
      AAPV (at B_DCC0) (at B_DCC1_T0_T3),
      AAPV (at B_T0_T3) (at B_DCC1N),
      APV (at B_T0_T1_T2),
      AAPV (at B_DCC1N) v2,
      AAPV out (at B_DCC1_T0_T3) ]"

definition subtraction_body :: "nat \<Rightarrow> nat \<Rightarrow> vop list" where
  "subtraction_body col_length base_row =
     AAPV (at B_DCC0) (at C_1) #
     concat (map (\<lambda>j.
       let v1 = vec base_row Vals1 j; v2 = vec base_row Vals2 j; out = vec base_row Output j
       in full_sub v1 v2 out) [0..<col_length])"

definition subtraction_main :: "'m hw \<Rightarrow> nat \<Rightarrow> nat \<Rightarrow> 'm prog \<Rightarrow> 'm prog option" where
  "subtraction_main hw col_length arg2 s = do {
     s \<leftarrow> init_ambit hw s;
     s \<leftarrow> random_vector_array hw Vals1 (per_col_bytes arg2) col_length s;
     s \<leftarrow> random_vector_array hw Vals2 (per_col_bytes arg2) col_length s;
     s \<leftarrow> allocate_vector_array hw Output (per_col_bytes arg2) col_length s;
     Some (two_iterations hw (per_col_rows arg2) (subtraction_body col_length) s) }"

lemma full_sub_carry:
  "lane_run (full_sub (Vec a1 j1, o1) (Vec a2 j2, o2) (Vec a3 j3, o3)) B (Cell DCC0 0)
     = maj (B (Data a1 j1 o1)) (\<not> B (Data a2 j2 o2)) (B (Cell DCC0 0))"
  by (cases "B (Data a1 j1 o1)"; cases "B (Data a2 j2 o2)"; cases "B (Cell DCC0 0)")
     (simp_all add: full_sub_def row_simps Let_def maj_def)

lemma full_sub_sum:
  "lane_run (full_sub (Vec a1 j1, o1) (Vec a2 j2, o2) (Vec a3 j3, o3)) B (Data a3 j3 o3)
     = xor3 (B (Data a1 j1 o1)) (\<not> B (Data a2 j2 o2)) (B (Cell DCC0 0))"
  by (cases "B (Data a1 j1 o1)"; cases "B (Data a2 j2 o2)"; cases "B (Cell DCC0 0)")
     (simp_all add: full_sub_def row_simps Let_def maj_def xor3_def)

lemma full_sub_frame_loc:
  "l \<in> data_locs \<Longrightarrow> l \<noteq> Data a3 j3 o3 \<Longrightarrow> lane_run (full_sub v1 v2 (Vec a3 j3, o3)) B l = B l"
  by (erule data_locsE, hypsubst, rule lane_run_frameI) (auto simp: full_sub_def)

lemma subtraction_lane:
  "j < n \<Longrightarrow> lane_run (subtraction_body n b) B (Data Output j b) =
     xor3 (B (Data Vals1 j b)) (\<not> B (Data Vals2 j b))
       (carry (\<lambda>j. B (Data Vals1 j b)) (\<lambda>j. \<not> B (Data Vals2 j b)) True j)"
  "a \<noteq> Output \<Longrightarrow> lane_run (subtraction_body n b) B (Data a j b) = B (Data a j b)"
proof -
  let ?B = "B(Cell DCC0 0 := True)"
  let ?f = "\<lambda>j. full_sub (Vec Vals1 j, b) (Vec Vals2 j, b) (Vec Output j, b)"
  have body: "lane_run (subtraction_body n b) B = lane_run (concat (map ?f [0..<n])) ?B"
    by (simp add: subtraction_body_def row_simps)
  have D: "inj_on (\<lambda>j. Data Output j b) {..<n}" "(\<lambda>j. Data Output j b) ` {..<n} \<subseteq> data_locs"
    by (auto simp: inj_on_def)
  have reads: "B1 (Data Vals1 k b) = B2 (Data Vals1 k b) \<and> (\<not> B1 (Data Vals2 k b)) = (\<not> B2 (Data Vals2 k b))"
    if "\<And>l. l \<in> data_locs \<Longrightarrow> l \<notin> (\<lambda>j. Data Output j b) ` {..<k} \<Longrightarrow> B1 l = B2 l" for k B1 B2
    using that [of "Data Vals1 k b"] that [of "Data Vals2 k b"] by auto
  note loop = ripple_loop [where f = ?f and B = ?B and X = "\<lambda>j B. B (Data Vals1 j b)",
      OF full_sub_carry full_sub_sum full_sub_frame_loc reads D]
  show "j < n \<Longrightarrow> lane_run (subtraction_body n b) B (Data Output j b) =
     xor3 (B (Data Vals1 j b)) (\<not> B (Data Vals2 j b))
       (carry (\<lambda>j. B (Data Vals1 j b)) (\<lambda>j. \<not> B (Data Vals2 j b)) True j)"
    using loop(2) [of j] by (simp add: body)
  show "a \<noteq> Output \<Longrightarrow> lane_run (subtraction_body n b) B (Data a j b) = B (Data a j b)"
    using loop(3) [of "Data a j b"] by (auto simp: body)
qed

lemma subtraction_ok: "body_ok UNIV (subtraction_body n)"
  by (simp add: body_ok_def subtraction_body_def full_sub_def Let_def)

context ambit_substrate
begin

lemma subtraction_program:
  assumes "alloc_ok hw" "R < per_col_rows arg2"
  shows "\<exists>s'. subtraction_main hw n arg2 s = Some s' \<and>
    column_val peek (dram s') Output n R c =
      (2 ^ n + column_val peek (dram s') Vals1 n R c - column_val peek (dram s') Vals2 n R c) mod 2 ^ n"
proof -
  let ?P = "\<lambda>f. bits_val n (f Output) = (2 ^ n + bits_val n (f Vals1) - bits_val n (f Vals2)) mod 2 ^ n"
  have "?P (\<lambda>a j. lane_run (subtraction_body n b) B (Data a j b))" for b B
    by (simp add: subtraction_lane ripple_sub_mod cong: bits_val_cong)
  from program_columns [OF subtraction_ok assms(2), of ?P, OF this] show ?thesis
    by (auto simp: subtraction_main_def alloc_simps [OF assms(1)] column_val_def cong: bits_val_cong)
qed

end

section \<open>Minimum and maximum\<close>

text \<open>The carry chain that compares two numbers, with the running carry in T2.\<close>

definition cmp_step :: "addr \<Rightarrow> addr \<Rightarrow> vop list" where
  "cmp_step pos neg = [ AAPV (at B_T1) pos, AAPV (at B_DCC0N) neg, APV (at B_DCC0_T1_T2) ]"

definition cmp_step_swapped :: "addr \<Rightarrow> addr \<Rightarrow> vop list" where
  "cmp_step_swapped neg pos = [ AAPV (at B_DCC0N) neg, AAPV (at B_T1) pos, APV (at B_DCC0_T1_T2) ]"

text \<open>The selection step of the minimum, maximum and if-then-else workloads.\<close>

definition select_step :: "addr \<Rightarrow> addr \<Rightarrow> addr \<Rightarrow> addr \<Rightarrow> vop list" where
  "select_step s v1 v2 out =
    [ AAPV (at B_DCC0N_T0) s,
      AAPV (at B_DCC1N_T1) (at C_1),
      AAPV (at B_T3) v1,
      AAPV (at B_T2) v2,
      APV (at B_T0_T1_T2),
      AAPV (at B_T3) (at B_DCC0_T1_T2),
      AAPV out (at B_DCC1_T0_T3) ]"

definition min_body :: "nat \<Rightarrow> nat \<Rightarrow> vop list" where
  "min_body col_length base_row =
     [AAPV (at B_T2) (at C_0)] @
     concat (map (\<lambda>j. cmp_step_swapped (vec base_row Vals1 j) (vec base_row Vals2 j)) [0..<col_length]) @
     [AAPV (at (Vec Tmp_s 0)) (at B_T2)] @
     concat (map (\<lambda>j. select_step (at (Vec Tmp_s 0)) (vec base_row Vals1 j) (vec base_row Vals2 j)
       (vec base_row Output j)) [0..<col_length])"

definition max_body :: "nat \<Rightarrow> nat \<Rightarrow> vop list" where
  "max_body col_length base_row =
     [AAPV (at B_T2) (at C_0)] @
     concat (map (\<lambda>j. cmp_step (vec base_row Vals1 j) (vec base_row Vals2 j)) [0..<col_length]) @
     [AAPV (at (Vec Tmp_s 0)) (at B_T2)] @
     concat (map (\<lambda>j. select_step (at (Vec Tmp_s 0)) (vec base_row Vals1 j) (vec base_row Vals2 j)
       (vec base_row Output j)) [0..<col_length])"

definition min_main :: "'m hw \<Rightarrow> nat \<Rightarrow> nat \<Rightarrow> 'm prog \<Rightarrow> 'm prog option" where
  "min_main hw col_length arg2 s = do {
     s \<leftarrow> init_ambit hw s;
     s \<leftarrow> random_vector_array hw Vals1 (per_col_bytes arg2) col_length s;
     s \<leftarrow> random_vector_array hw Vals2 (per_col_bytes arg2) col_length s;
     s \<leftarrow> allocate_vector_array hw Output (per_col_bytes arg2) col_length s;
     s \<leftarrow> (if per_col_bytes arg2 \<le> ALIGNMENT then allocate_vector hw Tmp_s 0 (per_col_bytes arg2) s
          else allocate_vector hw Tmp_s 0 ALIGNMENT s);
     Some (two_iterations hw (per_col_rows arg2) (min_body col_length) s) }"

definition max_main :: "'m hw \<Rightarrow> nat \<Rightarrow> nat \<Rightarrow> 'm prog \<Rightarrow> 'm prog option" where
  "max_main hw col_length arg2 s = do {
     s \<leftarrow> init_ambit hw s;
     s \<leftarrow> random_vector_array hw Vals1 (per_col_bytes arg2) col_length s;
     s \<leftarrow> random_vector_array hw Vals2 (per_col_bytes arg2) col_length s;
     s \<leftarrow> allocate_vector_array hw Output (per_col_bytes arg2) col_length s;
     s \<leftarrow> (if per_col_bytes arg2 \<le> ALIGNMENT then allocate_vector hw Tmp_s 0 (per_col_bytes arg2) s
          else allocate_vector hw Tmp_s 0 ALIGNMENT s);
     Some (two_iterations hw (per_col_rows arg2) (max_body col_length) s) }"

lemma cmp_step_T2:
  "lane_run (cmp_step (Vec a1 j1, o1) (Vec a2 j2, o2)) B (Cell T2 0)
     = maj (B (Data a1 j1 o1)) (\<not> B (Data a2 j2 o2)) (B (Cell T2 0))"
  "lane_run (cmp_step_swapped (Vec a2 j2, o2) (Vec a1 j1, o1)) B (Cell T2 0)
     = maj (B (Data a1 j1 o1)) (\<not> B (Data a2 j2 o2)) (B (Cell T2 0))"
  by (auto simp: cmp_step_def cmp_step_swapped_def row_simps Let_def maj_def)

lemma cmp_step_frame:
  "lane_run (cmp_step v1 v2) B (Data a j b) = B (Data a j b)"
  "lane_run (cmp_step_swapped v1 v2) B (Data a j b) = B (Data a j b)"
  by (rule lane_run_frameI, simp add: cmp_step_def cmp_step_swapped_def)+

text \<open>A comparison loop leaves the carry of \<open>x + \<not> y\<close> in T2 and the data rows alone.\<close>

lemma cmp_loop:
  assumes "\<And>k B. k < n \<Longrightarrow> lane_run (f k) B (Cell T2 0) =
      maj (B (Data a1 k b)) (\<not> B (Data a2 k b)) (B (Cell T2 0))"
    and "\<And>k B a j b. lane_run (f k) B (Data a j b) = B (Data a j b)"
  shows "lane_run (concat (map f [0..<n])) B (Cell T2 0) =
      carry (\<lambda>k. B (Data a1 k b)) (\<lambda>k. \<not> B (Data a2 k b)) (B (Cell T2 0)) n"
    and "lane_run (concat (map f [0..<n])) B (Data a j o') = B (Data a j o')"
  using assms(1)
proof (induction n)
  case 0
  { case 1 show ?case by simp }
  { case 2 show ?case by simp }
next
  case (Suc n)
  have data: "lane_run (concat (map f [0..<n])) B (Data a j o') = B (Data a j o')" for a j o'
    by (induction n) (simp_all add: assms(2))
  { case 1 then show ?case using Suc.IH(1) by (simp add: data) }
  { case 2 show ?case by (simp add: data assms(2)) }
qed

lemma select_step_out:
  "lane_run (select_step (Vec a0 j0, o0) v1 (Vec a2 j2, o2) (Vec a3 j3, o3)) B (Data a3 j3 o3)
     = (B (Data a0 j0 o0) \<or> B (Data a2 j2 o2))" if "v1 = (Vec a1 j1, o1)"
  by (auto simp: that select_step_def row_simps Let_def maj_def)

lemma select_step_frame:
  "(a, j, b) \<noteq> (a3, j3, o3) \<Longrightarrow>
     lane_run (select_step s v1 v2 (Vec a3 j3, o3)) B (Data a j b) = B (Data a j b)"
  by (rule lane_run_frameI) (auto simp: select_step_def)

lemma select_loop:
  fixes a0 a1 a2 :: arr and o0 b :: nat
  assumes "a0 \<noteq> Output" "a2 \<noteq> Output"
  defines "f \<equiv> \<lambda>j. select_step (Vec a0 0, o0) (Vec a1 j, b) (Vec a2 j, b) (Vec Output j, b)"
  shows "j < n \<Longrightarrow> lane_run (concat (map f [0..<n])) B (Data Output j b) =
      (B (Data a0 0 o0) \<or> B (Data a2 j b))"
    and "a \<noteq> Output \<Longrightarrow> lane_run (concat (map f [0..<n])) B (Data a j o') = B (Data a j o')"
proof (induction n)
  case 0
  { case 1 then show ?case by simp }
  { case 2 then show ?case by simp }
next
  case (Suc n)
  have data: "a \<noteq> Output \<Longrightarrow> lane_run (concat (map f [0..<n])) B (Data a j o') = B (Data a j o')" for a j o'
    by (induction n) (simp_all add: f_def select_step_frame)
  { case 1 then show ?case
      using Suc.IH(1) assms(1,2)
      by (cases "j = n") (simp_all add: f_def select_step_out select_step_frame data [unfolded f_def]) }
  { case 2 then show ?case by (simp add: data) (simp add: f_def select_step_frame data [unfolded f_def]) }
qed

lemma min_lane:
  "j < n \<Longrightarrow> lane_run (min_body n b) B (Data Output j b) =
     (bits_val n (\<lambda>j. B (Data Vals1 j b)) < bits_val n (\<lambda>j. B (Data Vals2 j b)) \<or> B (Data Vals2 j b))"
  "a \<noteq> Output \<Longrightarrow> a \<noteq> Tmp_s \<Longrightarrow> lane_run (min_body n b) B (Data a j b) = B (Data a j b)"
proof -
  let ?f = "\<lambda>j. cmp_step_swapped (Vec Vals1 j, b) (Vec Vals2 j, b)"
  define C where "C = lane_run (concat (map ?f [0..<n])) (B(Cell T2 0 := False))"
  have T2: "C (Cell T2 0) \<longleftrightarrow> bits_val n (\<lambda>j. B (Data Vals1 j b)) < bits_val n (\<lambda>j. B (Data Vals2 j b))"
    unfolding C_def by (subst cmp_loop(1) [where b = b, OF cmp_step_T2(2) cmp_step_frame(2)]) (simp add: carry_compl_gt)
  have data: "C (Data a j o') = B (Data a j o')" for a j o'
    unfolding C_def by (subst cmp_loop(2) [where b = b, OF cmp_step_T2(2) cmp_step_frame(2)]) simp
  have body: "lane_run (min_body n b) B = lane_run (concat (map (\<lambda>j. select_step (Vec Tmp_s 0, 0)
      (Vec Vals1 j, b) (Vec Vals2 j, b) (Vec Output j, b)) [0..<n])) (C(Data Tmp_s 0 0 := C (Cell T2 0)))"
    by (simp add: min_body_def C_def row_simps)
  show "j < n \<Longrightarrow> lane_run (min_body n b) B (Data Output j b) =
     (bits_val n (\<lambda>j. B (Data Vals1 j b)) < bits_val n (\<lambda>j. B (Data Vals2 j b)) \<or> B (Data Vals2 j b))"
    by (simp add: body select_loop T2 data)
  show "a \<noteq> Output \<Longrightarrow> a \<noteq> Tmp_s \<Longrightarrow> lane_run (min_body n b) B (Data a j b) = B (Data a j b)"
    by (simp add: body select_loop data)
qed

lemma max_lane:
  "j < n \<Longrightarrow> lane_run (max_body n b) B (Data Output j b) =
     (bits_val n (\<lambda>j. B (Data Vals2 j b)) < bits_val n (\<lambda>j. B (Data Vals1 j b)) \<or> B (Data Vals2 j b))"
  "a \<noteq> Output \<Longrightarrow> a \<noteq> Tmp_s \<Longrightarrow> lane_run (max_body n b) B (Data a j b) = B (Data a j b)"
proof -
  let ?f = "\<lambda>j. cmp_step (Vec Vals1 j, b) (Vec Vals2 j, b)"
  define C where "C = lane_run (concat (map ?f [0..<n])) (B(Cell T2 0 := False))"
  have T2: "C (Cell T2 0) \<longleftrightarrow> bits_val n (\<lambda>j. B (Data Vals2 j b)) < bits_val n (\<lambda>j. B (Data Vals1 j b))"
    unfolding C_def by (subst cmp_loop(1) [where b = b, OF cmp_step_T2(1) cmp_step_frame(1)]) (simp add: carry_compl_gt)
  have data: "C (Data a j o') = B (Data a j o')" for a j o'
    unfolding C_def by (subst cmp_loop(2) [where b = b, OF cmp_step_T2(1) cmp_step_frame(1)]) simp
  have body: "lane_run (max_body n b) B = lane_run (concat (map (\<lambda>j. select_step (Vec Tmp_s 0, 0)
      (Vec Vals1 j, b) (Vec Vals2 j, b) (Vec Output j, b)) [0..<n])) (C(Data Tmp_s 0 0 := C (Cell T2 0)))"
    by (simp add: max_body_def C_def row_simps)
  show "j < n \<Longrightarrow> lane_run (max_body n b) B (Data Output j b) =
     (bits_val n (\<lambda>j. B (Data Vals2 j b)) < bits_val n (\<lambda>j. B (Data Vals1 j b)) \<or> B (Data Vals2 j b))"
    by (simp add: body select_loop T2 data)
  show "a \<noteq> Output \<Longrightarrow> a \<noteq> Tmp_s \<Longrightarrow> lane_run (max_body n b) B (Data a j b) = B (Data a j b)"
    by (simp add: body select_loop data)
qed

lemma min_ok: "body_ok (- {Tmp_s}) (min_body n)" and max_ok: "body_ok (- {Tmp_s}) (max_body n)"
  by (simp_all add: body_ok_def min_body_def max_body_def cmp_step_def cmp_step_swapped_def select_step_def)

lemma bits_val_or_const: "bits_val n (\<lambda>j. p \<or> f j) = (if p then 2 ^ n - 1 else bits_val n f)"
  by (simp add: bits_val_True)

context ambit_substrate
begin

lemma min_program:
  assumes "alloc_ok hw" "R < per_col_rows arg2"
  shows "\<exists>s'. min_main hw n arg2 s = Some s' \<and>
    column_val peek (dram s') Output n R c =
      (if column_val peek (dram s') Vals1 n R c < column_val peek (dram s') Vals2 n R c
       then 2 ^ n - 1 else column_val peek (dram s') Vals2 n R c)"
proof -
  let ?P = "\<lambda>f. bits_val n (f Output) = (if bits_val n (f Vals1) < bits_val n (f Vals2) then 2 ^ n - 1
      else bits_val n (f Vals2))"
  have "?P (\<lambda>a j. lane_run (min_body n b) B (Data a j b))" for b B
    by (simp add: min_lane bits_val_or_const cong: bits_val_cong)
  from program_columns [OF min_ok assms(2), of ?P, OF this] show ?thesis
    by (auto simp: min_main_def alloc_simps [OF assms(1)] column_val_def cong: bits_val_cong)
qed

lemma max_program:
  assumes "alloc_ok hw" "R < per_col_rows arg2"
  shows "\<exists>s'. max_main hw n arg2 s = Some s' \<and>
    column_val peek (dram s') Output n R c =
      (if column_val peek (dram s') Vals2 n R c < column_val peek (dram s') Vals1 n R c
       then 2 ^ n - 1 else column_val peek (dram s') Vals2 n R c)"
proof -
  let ?P = "\<lambda>f. bits_val n (f Output) = (if bits_val n (f Vals2) < bits_val n (f Vals1) then 2 ^ n - 1
      else bits_val n (f Vals2))"
  have "?P (\<lambda>a j. lane_run (max_body n b) B (Data a j b))" for b B
    by (simp add: max_lane bits_val_or_const cong: bits_val_cong)
  from program_columns [OF max_ok assms(2), of ?P, OF this] show ?thesis
    by (auto simp: max_main_def alloc_simps [OF assms(1)] column_val_def cong: bits_val_cong)
qed

end

end
