(* ===== verification/Mul_Workloads.thy ===== *)
theory Mul_Workloads
  imports Arith_Workloads
begin

text \<open>
  The shift-and-add multiplication workloads: \<open>microworkloads/11_multu-plus.c\<close> multiplies two
  vectors, \<open>10_multu_by_const-plus.c\<close> a vector by a constant. Both keep the running product in
  the output rows and add one shifted partial product per stage, writing the carry out into the
  next row.
\<close>

section \<open>Multiplication of two vectors\<close>

definition mul_init_step :: "addr \<Rightarrow> addr \<Rightarrow> addr \<Rightarrow> vop list" where
  "mul_init_step v1 v2 out =
    [ AAPV (at B_T0) v1,
      AAPV (at B_T1) v2,
      AAPV (at B_T2) (at C_0),
      AAPV out (at B_T0_T1_T2) ]"

definition mul_add_step :: "addr \<Rightarrow> addr \<Rightarrow> addr \<Rightarrow> vop list" where
  "mul_add_step v1 v2 out =
    [ AAPV (at B_T0) v1,
      AAPV (at B_T1) v2,
      AAPV (at B_T2) (at C_0),
      APV (at B_T0_T1_T2),
      AAPV (at B_T2_T3) (at B_DCC1),
      AAPV (at B_DCC1) out,
      APV (at B_DCC1_T0_T3),
      AAPV (at B_T0_T3) (at B_DCC1N),
      APV (at B_T0_T1_T2),
      AAPV (at B_T1) out,
      AAPV out (at B_T1_T2_T3) ]"

definition multu_stage :: "nat \<Rightarrow> nat \<Rightarrow> nat \<Rightarrow> vop list" where
  "multu_stage col_length base_row j =
     [AAPV (at B_DCC1) (at C_0)] @
     concat (map (\<lambda>k. mul_add_step (vec base_row Vals1 j) (vec base_row Vals2 k)
       (vec base_row Output (j + k))) [0..<col_length]) @
     [AAPV (vec base_row Output (j + col_length)) (at B_DCC1)]"

definition multu_body :: "nat \<Rightarrow> nat \<Rightarrow> vop list" where
  "multu_body col_length base_row =
     concat (map (\<lambda>k. mul_init_step (vec base_row Vals1 0) (vec base_row Vals2 k)
       (vec base_row Output k)) [0..<col_length]) @
     [AAPV (vec base_row Output col_length) (at C_0)] @
     concat (map (multu_stage col_length base_row) [1..<col_length])"

definition multu_main :: "'m hw \<Rightarrow> nat \<Rightarrow> nat \<Rightarrow> 'm prog \<Rightarrow> 'm prog option" where
  "multu_main hw col_length arg2 s = do {
     s \<leftarrow> init_ambit hw s;
     s \<leftarrow> random_vector_array hw Vals1 (per_col_bytes arg2) col_length s;
     s \<leftarrow> random_vector_array hw Vals2 (per_col_bytes arg2) col_length s;
     s \<leftarrow> allocate_vector_array hw Output (per_col_bytes arg2) (2 * col_length) s;
     Some (two_iterations hw (per_col_rows arg2) (multu_body col_length) s) }"

text \<open>One stage of shift-and-add, on the values of the rows.\<close>

lemma shift_add_stage:
  assumes low: "\<And>i. i < j \<Longrightarrow> out' i = out i"
    and mid: "\<And>k. k < n \<Longrightarrow> out' (j + k) = xor3 (out (j + k)) (y k) (carry (\<lambda>k. out (j + k)) y False k)"
    and top: "out' (j + n) = carry (\<lambda>k. out (j + k)) y False n"
  shows "bits_val (Suc (j + n)) out' = bits_val (j + n) out + 2 ^ j * bits_val n y"
proof -
  have "bits_val (Suc (j + n)) out' =
      bits_val j out' + 2 ^ j * (bits_val n (\<lambda>k. out' (j + k)) + of_bool (out' (j + n)) * 2 ^ n)"
    using bits_val_add [of j "Suc n" out'] by (simp add: bits_val_Suc)
  also have "bits_val n (\<lambda>k. out' (j + k)) + of_bool (out' (j + n)) * 2 ^ n =
      bits_val n (\<lambda>k. out (j + k)) + bits_val n y"
    using ripple_add [of n "\<lambda>k. out (j + k)" y False] by (simp add: mid top cong: bits_val_cong)
  finally show ?thesis
    by (simp add: bits_val_add low algebra_simps cong: bits_val_cong)
qed

lemma mul_add_carry:
  "lane_run (mul_add_step (Vec a1 j1, o1) (Vec a2 j2, o2) (Vec a3 j3, o3)) B (Cell DCC1 0)
     = maj (B (Data a3 j3 o3)) (B (Data a1 j1 o1) \<and> B (Data a2 j2 o2)) (B (Cell DCC1 0))"
  by (cases "B (Data a1 j1 o1)"; cases "B (Data a2 j2 o2)"; cases "B (Cell DCC1 0)"; cases "B (Data a3 j3 o3)")
     (simp_all add: mul_add_step_def row_simps Let_def maj_def)

lemma mul_add_sum:
  "lane_run (mul_add_step (Vec a1 j1, o1) (Vec a2 j2, o2) (Vec a3 j3, o3)) B (Data a3 j3 o3)
     = xor3 (B (Data a3 j3 o3)) (B (Data a1 j1 o1) \<and> B (Data a2 j2 o2)) (B (Cell DCC1 0))"
  by (cases "B (Data a1 j1 o1)"; cases "B (Data a2 j2 o2)"; cases "B (Cell DCC1 0)"; cases "B (Data a3 j3 o3)")
     (simp_all add: mul_add_step_def row_simps Let_def maj_def xor3_def)

lemma mul_add_frame_loc:
  "l \<in> data_locs \<Longrightarrow> l \<noteq> Data a3 j3 o3 \<Longrightarrow> lane_run (mul_add_step v1 v2 (Vec a3 j3, o3)) B l = B l"
  by (erule data_locsE, hypsubst, rule lane_run_frameI) (auto simp: mul_add_step_def)

lemma multu_stage_lane:
  defines "V B b a \<equiv> \<lambda>j. B (Data a j b)"
  shows "bits_val (Suc (j + n)) (V (lane_run (multu_stage n b j) B) b Output) =
      bits_val (j + n) (V B b Output) + 2 ^ j * (of_bool (B (Data Vals1 j b)) * bits_val n (V B b Vals2))"
    and "a \<noteq> Output \<Longrightarrow> V (lane_run (multu_stage n b j) B) b a = V B b a"
proof -
  let ?B = "B(Cell DCC1 0 := False)"
  let ?f = "\<lambda>k. mul_add_step (Vec Vals1 j, b) (Vec Vals2 k, b) (Vec Output (j + k), b)"
  define C where "C = lane_run (concat (map ?f [0..<n])) ?B"
  have body: "lane_run (multu_stage n b j) B = C(Data Output (j + n) b := C (Cell DCC1 0))"
    by (simp add: multu_stage_def C_def row_simps)
  have D: "inj_on (\<lambda>k. Data Output (j + k) b) {..<n}" "(\<lambda>k. Data Output (j + k) b) ` {..<n} \<subseteq> data_locs"
    by (auto simp: inj_on_def)
  have reads: "B1 (Data Output (j + k) b) = B2 (Data Output (j + k) b) \<and>
      (B1 (Data Vals1 j b) \<and> B1 (Data Vals2 k b)) = (B2 (Data Vals1 j b) \<and> B2 (Data Vals2 k b))"
    if "\<And>l. l \<in> data_locs \<Longrightarrow> l \<notin> (\<lambda>k. Data Output (j + k) b) ` {..<k} \<Longrightarrow> B1 l = B2 l" for k B1 B2
    using that [of "Data Vals1 j b"] that [of "Data Vals2 k b"] that [of "Data Output (j + k) b"]
    by (simp add: image_iff)
  note loop = ripple_loop [where f = ?f and B = ?B and X = "\<lambda>k B. B (Data Output (j + k) b)",
      OF mul_add_carry mul_add_sum mul_add_frame_loc reads D]
  let ?y = "\<lambda>k. B (Data Vals1 j b) \<and> B (Data Vals2 k b)"
  have "bits_val (Suc (j + n)) (V (lane_run (multu_stage n b j) B) b Output) =
      bits_val (j + n) (V B b Output) + 2 ^ j * bits_val n ?y"
  proof (rule shift_add_stage)
    show "V (lane_run (multu_stage n b j) B) b Output i = V B b Output i" if "i < j" for i
      using that loop(3) [of "Data Output i b"] by (auto simp: V_def body C_def)
    show "V (lane_run (multu_stage n b j) B) b Output (j + k) = xor3 (V B b Output (j + k)) (?y k)
        (carry (\<lambda>k. V B b Output (j + k)) ?y False k)" if "k < n" for k
      using that loop(2) [of k] by (simp add: V_def body C_def)
    show "V (lane_run (multu_stage n b j) B) b Output (j + n) = carry (\<lambda>k. V B b Output (j + k)) ?y False n"
      using loop(1) by (simp add: V_def body C_def)
  qed
  moreover have "bits_val n ?y = of_bool (B (Data Vals1 j b)) * bits_val n (V B b Vals2)"
    by (cases "B (Data Vals1 j b)") (simp_all add: V_def)
  ultimately show "bits_val (Suc (j + n)) (V (lane_run (multu_stage n b j) B) b Output) =
      bits_val (j + n) (V B b Output) + 2 ^ j * (of_bool (B (Data Vals1 j b)) * bits_val n (V B b Vals2))"
    by simp
  show "a \<noteq> Output \<Longrightarrow> V (lane_run (multu_stage n b j) B) b a = V B b a"
    using loop(3) [of "Data a i b" for i] by (auto simp: V_def body C_def fun_eq_iff)
qed

text \<open>After stage \<open>j\<close> the output holds the product with the low \<open>j\<close> bits of the first operand.\<close>

lemma multu_lane:
  defines "V B b a \<equiv> \<lambda>j. B (Data a j b)"
  assumes "0 < n"
  shows "bits_val (2 * n) (V (lane_run (multu_body n b) B) b Output) =
      bits_val n (V B b Vals1) * bits_val n (V B b Vals2)"
    and "a \<noteq> Output \<Longrightarrow> V (lane_run (multu_body n b) B) b a = V B b a"
proof -
  define I where "I = lane_run (concat (map (\<lambda>k. mul_init_step (Vec Vals1 0, b) (Vec Vals2 k, b)
       (Vec Output k, b)) [0..<n]) @ [AAPV (Vec Output n, b) (at C_0)]) B"
  define R where "R j = lane_run (concat (map (multu_stage n b) [1..<j])) I" for j
  have init: "\<forall>k<m. lane_run (concat (map (\<lambda>k. mul_init_step (Vec Vals1 0, b) (Vec Vals2 k, b)
       (Vec Output k, b)) [0..<m])) B (Data Output k b) = (B (Data Vals1 0 b) \<and> B (Data Vals2 k b))"
    "\<forall>a k. a \<noteq> Output \<longrightarrow> lane_run (concat (map (\<lambda>k. mul_init_step (Vec Vals1 0, b) (Vec Vals2 k, b)
       (Vec Output k, b)) [0..<m])) B (Data a k b) = B (Data a k b)" for m
    by (induction m) (auto simp: mul_init_step_def row_simps Let_def maj_def less_Suc_eq)
  have I: "V I b Output k = (V B b Vals1 0 \<and> V B b Vals2 k)" if "k < n" for k
    using that init(1) [of n] by (simp add: I_def V_def row_simps)
  have In: "\<not> V I b Output n" and Ia: "a \<noteq> Output \<Longrightarrow> V I b a = V B b a" for a
    using init(2) [of n] by (simp_all add: I_def V_def row_simps fun_eq_iff)
  have "bits_val (j + n) (V (R j) b Output) = bits_val j (V B b Vals1) * bits_val n (V B b Vals2) \<and>
      (\<forall>a. a \<noteq> Output \<longrightarrow> V (R j) b a = V B b a)" if "1 \<le> j" for j
    using that
  proof (induction j rule: nat_induct_at_least)
    case base
    have "bits_val n (\<lambda>k. V B b Vals1 0 \<and> V B b Vals2 k) = of_bool (V B b Vals1 0) * bits_val n (V B b Vals2)"
      by (cases "V B b Vals1 0") simp_all
    then show ?case
      using In Ia by (simp add: R_def bits_val_Suc One_nat_def I cong: bits_val_cong)
  next
    case (Suc j)
    have step: "R (Suc j) = lane_run (multu_stage n b j) (R j)"
      using Suc.hyps by (simp add: R_def)
    have v1: "R j (Data Vals1 j b) = V B b Vals1 j" using Suc.IH by (simp add: V_def fun_eq_iff)
    show ?case
      using multu_stage_lane [where n = n and b = b and j = j and B = "R j", folded V_def] Suc.IH v1
      by (simp add: step V_def [symmetric] bits_val_Suc algebra_simps)
  qed
  from this [of n] assms(2) show "bits_val (2 * n) (V (lane_run (multu_body n b) B) b Output) =
      bits_val n (V B b Vals1) * bits_val n (V B b Vals2)"
    and "a \<noteq> Output \<Longrightarrow> V (lane_run (multu_body n b) B) b a = V B b a"
    by (simp_all add: R_def I_def multu_body_def mult_2)
qed

lemma multu_ok: "body_ok UNIV (multu_body n)"
  by (simp add: body_ok_def multu_body_def multu_stage_def mul_init_step_def mul_add_step_def)

context ambit_substrate
begin

lemma multu_program:
  assumes "alloc_ok hw" "R < per_col_rows arg2"
  shows "\<exists>s'. multu_main hw n arg2 s = Some s' \<and>
    column_val peek (dram s') Output (2 * n) R c =
      column_val peek (dram s') Vals1 n R c * column_val peek (dram s') Vals2 n R c"
proof -
  let ?P = "\<lambda>f. bits_val (2 * n) (f Output) = bits_val n (f Vals1) * bits_val n (f Vals2)"
  have "?P (\<lambda>a j. lane_run (multu_body n b) B (Data a j b))" for b B
    using multu_lane [where n = n and b = b and B = B] by (cases "n = 0") simp_all
  from program_columns [OF multu_ok assms(2), of ?P, OF this] show ?thesis
    by (auto simp: multu_main_def alloc_simps [OF assms(1)] column_val_def cong: bits_val_cong)
qed

end

section \<open>Multiplication by a constant\<close>

definition multu_const :: "nat \<Rightarrow> 32 word" where
  "multu_const col_length = 0x55555555 mod push_bit col_length 1"

text \<open>Where the first loop breaks: the lowest set bit of the constant, or the width.\<close>

definition lowest_set :: "32 word \<Rightarrow> nat \<Rightarrow> nat" where
  "lowest_set c col_length = length (takeWhile (\<lambda>j. \<not> bit c j) [0..<col_length])"

definition multc_stage :: "32 word \<Rightarrow> nat \<Rightarrow> nat \<Rightarrow> nat \<Rightarrow> vop list" where
  "multc_stage c col_length base_row j =
     (if bit c j then
        [AAPV (at B_DCC1) (at C_0)] @
        concat (map (\<lambda>k. full_add (vec base_row Output (j + k)) (vec base_row Vals k)
          (vec base_row Output (j + k))) [0..<col_length]) @
        [AAPV (vec base_row Output (j + col_length)) (at B_DCC1)]
      else [AAPV (vec base_row Output (j + col_length)) (at C_0)])"

definition multu_by_const_body :: "32 word \<Rightarrow> nat \<Rightarrow> nat \<Rightarrow> vop list" where
  "multu_by_const_body c col_length base_row =
     (if c = 0 then map (\<lambda>j. AAPV (vec base_row Output j) (at C_0)) [0..<2 * col_length]
      else
        let j = lowest_set c col_length in
        map (\<lambda>j. AAPV (vec base_row Output j) (at C_0)) [0..<j] @
        map (\<lambda>k. AAPV (vec base_row Output (j + k)) (vec base_row Vals k)) [0..<col_length] @
        [AAPV (vec base_row Output (j + col_length)) (at C_0)] @
        concat (map (multc_stage c col_length base_row) [Suc j..<col_length]))"

definition multu_by_const_main :: "'m hw \<Rightarrow> nat \<Rightarrow> nat \<Rightarrow> 'm prog \<Rightarrow> 'm prog option" where
  "multu_by_const_main hw col_length arg2 s = do {
     s \<leftarrow> init_ambit hw s;
     s \<leftarrow> random_vector_array hw Vals (per_col_bytes arg2) col_length s;
     s \<leftarrow> allocate_vector_array hw Output (per_col_bytes arg2) (2 * col_length) s;
     Some (two_iterations hw (per_col_rows arg2)
       (multu_by_const_body (multu_const col_length) col_length) s) }"

lemma multc_stage_lane:
  defines "V B b a \<equiv> \<lambda>j. B (Data a j b)"
  shows "bits_val (Suc (j + n)) (V (lane_run (multc_stage c n b j) B) b Output) =
      bits_val (j + n) (V B b Output) + 2 ^ j * (of_bool (bit c j) * bits_val n (V B b Vals))"
    and "a \<noteq> Output \<Longrightarrow> V (lane_run (multc_stage c n b j) B) b a = V B b a"
proof -
  let ?B = "B(Cell DCC1 0 := False)"
  let ?f = "\<lambda>k. full_add (Vec Output (j + k), b) (Vec Vals k, b) (Vec Output (j + k), b)"
  define C where "C = lane_run (concat (map ?f [0..<n])) ?B"
  have set: "bit c j \<Longrightarrow> lane_run (multc_stage c n b j) B = C(Data Output (j + n) b := C (Cell DCC1 0))"
    and clear: "\<not> bit c j \<Longrightarrow> lane_run (multc_stage c n b j) B = B(Data Output (j + n) b := False)"
    by (simp_all add: multc_stage_def C_def row_simps)
  have D: "inj_on (\<lambda>k. Data Output (j + k) b) {..<n}" "(\<lambda>k. Data Output (j + k) b) ` {..<n} \<subseteq> data_locs"
    by (auto simp: inj_on_def)
  have reads: "B1 (Data Output (j + k) b) = B2 (Data Output (j + k) b) \<and> B1 (Data Vals k b) = B2 (Data Vals k b)"
    if "\<And>l. l \<in> data_locs \<Longrightarrow> l \<notin> (\<lambda>k. Data Output (j + k) b) ` {..<k} \<Longrightarrow> B1 l = B2 l" for k B1 B2
    using that [of "Data Vals k b"] that [of "Data Output (j + k) b"] by (simp add: image_iff)
  note loop = ripple_loop [where f = ?f and B = ?B and X = "\<lambda>k B. B (Data Output (j + k) b)",
      OF full_add_carry full_add_sum full_add_frame_loc reads D]
  have "bits_val (Suc (j + n)) (V (lane_run (multc_stage c n b j) B) b Output) =
      bits_val (j + n) (V B b Output) + 2 ^ j * bits_val n (V B b Vals)" if c: "bit c j"
  proof (rule shift_add_stage)
    show "V (lane_run (multc_stage c n b j) B) b Output i = V B b Output i" if "i < j" for i
      using that loop(3) [of "Data Output i b"] by (auto simp: V_def set [OF c] C_def)
    show "V (lane_run (multc_stage c n b j) B) b Output (j + k) = xor3 (V B b Output (j + k)) (V B b Vals k)
        (carry (\<lambda>k. V B b Output (j + k)) (V B b Vals) False k)" if "k < n" for k
      using that loop(2) [of k] by (simp add: V_def set [OF c] C_def)
    show "V (lane_run (multc_stage c n b j) B) b Output (j + n) =
        carry (\<lambda>k. V B b Output (j + k)) (V B b Vals) False n"
      using loop(1) by (simp add: V_def set [OF c] C_def)
  qed
  then show "bits_val (Suc (j + n)) (V (lane_run (multc_stage c n b j) B) b Output) =
      bits_val (j + n) (V B b Output) + 2 ^ j * (of_bool (bit c j) * bits_val n (V B b Vals))"
    by (cases "bit c j") (simp_all add: clear V_def bits_val_Suc cong: bits_val_cong)
  show "a \<noteq> Output \<Longrightarrow> V (lane_run (multc_stage c n b j) B) b a = V B b a"
    using loop(3) [of "Data a i b" for i]
    by (cases "bit c j") (auto simp: V_def set clear C_def fun_eq_iff)
qed

lemma lowest_set:
  assumes "\<exists>j<n. bit c j"
  shows "lowest_set c n < n" "bit c (lowest_set c n)" "j < lowest_set c n \<Longrightarrow> \<not> bit c j"
proof -
  let ?t = "takeWhile (\<lambda>j. \<not> bit c j) [0..<n]"
  have "length ?t < length [0..<n]"
    using assms length_takeWhile_le [of "\<lambda>j. \<not> bit c j" "[0..<n]"] takeWhile_eq_all_conv [of "\<lambda>j. \<not> bit c j" "[0..<n]"]
    by (metis atLeastLessThan_iff le_neq_implies_less length_takeWhile_le set_upt takeWhile_eq_take take_all_iff order_refl zero_le)
  then show less: "lowest_set c n < n" by (simp add: lowest_set_def)
  show "bit c (lowest_set c n)"
    using less nth_length_takeWhile [of "\<lambda>j. \<not> bit c j" "[0..<n]"] by (simp add: lowest_set_def)
  show "\<not> bit c j" if "j < lowest_set c n"
  proof -
    have "?t ! j = [0..<n] ! j" using that by (simp add: lowest_set_def takeWhile_nth)
    moreover have "?t ! j \<in> set ?t" using that by (simp add: lowest_set_def)
    ultimately show ?thesis using that less set_takeWhileD [of "?t ! j" "\<lambda>j. \<not> bit c j" "[0..<n]"] by simp
  qed
qed

lemma lane_run_zeros:
  "lane_run (map (\<lambda>j. AAPV (Vec d j, b) (at C_0)) [0..<m]) B =
     (\<lambda>l. case l of Data a j r \<Rightarrow> if a = d \<and> r = b \<and> j < m then False else B l | _ \<Rightarrow> B l)"
  by (induction m) (auto simp: row_simps fun_eq_iff less_Suc_eq split: loc.splits)

lemma lane_run_copies:
  assumes "s \<noteq> d"
  shows "lane_run (map (\<lambda>k. AAPV (Vec d (i + k), b) (Vec s k, b)) [0..<m]) B =
     (\<lambda>l. case l of Data a j r \<Rightarrow> if a = d \<and> r = b \<and> i \<le> j \<and> j < i + m then B (Data s (j - i) b) else B l
        | _ \<Rightarrow> B l)"
  using assms by (induction m) (auto simp: row_simps fun_eq_iff less_Suc_eq split: loc.splits)

lemma multu_by_const_lane:
  defines "V B b a \<equiv> \<lambda>j. B (Data a j b)"
  assumes c: "c = 0 \<or> (\<exists>j<n. bit c j)"
  shows "bits_val (2 * n) (V (lane_run (multu_by_const_body c n b) B) b Output) =
      bits_val n (bit c) * bits_val n (V B b Vals)" (is ?product)
    and "V (lane_run (multu_by_const_body c n b) B) b Vals = V B b Vals" (is ?frame)
proof -
  have "?product \<and> ?frame"
  proof (cases "c = 0")
    case True
    then show ?thesis
      by (simp add: multu_by_const_body_def lane_run_zeros V_def cong: bits_val_cong)
  next
    case False
    let ?l = "lowest_set c n"
    have l: "?l < n" "bit c ?l" "\<And>j. j < ?l \<Longrightarrow> \<not> bit c j" using c False lowest_set by auto
    define I where "I = lane_run (map (\<lambda>j. AAPV (Vec Output j, b) (at C_0)) [0..<?l] @
        map (\<lambda>k. AAPV (Vec Output (?l + k), b) (Vec Vals k, b)) [0..<n] @
        [AAPV (Vec Output (?l + n), b) (at C_0)]) B"
    define R where "R j = lane_run (concat (map (multc_stage c n b) [Suc ?l..<j])) I" for j
    have "bits_val (j + n) (V (R j) b Output) = bits_val j (bit c) * bits_val n (V B b Vals) \<and>
        V (R j) b Vals = V B b Vals" if "Suc ?l \<le> j" for j
      using that
    proof (induction j rule: nat_induct_at_least)
      case base
      have "bits_val ?l (bit c) = 0" using l(3) by (simp cong: bits_val_cong)
      then show ?case
        by (simp add: R_def I_def lane_run_zeros lane_run_copies V_def row_simps bits_val_Suc bits_val_add l(2)
            cong: bits_val_cong)
    next
      case (Suc j)
      have step: "R (Suc j) = lane_run (multc_stage c n b j) (R j)"
        using Suc.hyps by (simp add: R_def)
      show ?case
        using multc_stage_lane [where c = c and n = n and b = b and j = j and B = "R j", folded V_def] Suc.IH
        by (simp add: step V_def [symmetric] bits_val_Suc algebra_simps)
    qed
    from this [of n] l(1) False show ?thesis
      by (simp add: R_def I_def multu_by_const_body_def mult_2 Let_def)
  qed
  then show ?product ?frame by auto
qed

lemma multu_by_const_ok: "body_ok UNIV (multu_by_const_body c n)"
  by (simp add: body_ok_def multu_by_const_body_def multc_stage_def full_add_def Let_def
      list.pred_map o_def)

lemma multu_const:
  assumes "0 < n" "n < 32"
  shows "bit (multu_const n) 0" "bits_val n (bit (multu_const n)) = 0x55555555 mod 2 ^ n"
proof -
  have eq: "multu_const n = take_bit n 0x55555555"
    by (simp add: multu_const_def take_bit_eq_mod push_bit_eq_mult)
  show "bit (multu_const n) 0"
    using assms by (simp add: eq bit_take_bit_iff bit_0)
  have "bits_val n (bit (multu_const n)) = take_bit n (unat (0x55555555 :: 32 word))"
    by (simp add: eq bits_val_word unsigned_take_bit_eq del: unsigned_numeral)
  then show "bits_val n (bit (multu_const n)) = 0x55555555 mod 2 ^ n"
    by (simp add: take_bit_eq_mod)
qed

context ambit_substrate
begin

lemma multu_by_const_program:
  assumes "alloc_ok hw" "R < per_col_rows arg2" "0 < n" "n < 32"
  shows "\<exists>s'. multu_by_const_main hw n arg2 s = Some s' \<and>
    column_val peek (dram s') Output (2 * n) R c = 0x55555555 mod 2 ^ n * column_val peek (dram s') Vals n R c"
proof -
  let ?P = "\<lambda>f. bits_val (2 * n) (f Output) = 0x55555555 mod 2 ^ n * bits_val n (f Vals)"
  have "multu_const n = 0 \<or> (\<exists>j<n. bit (multu_const n) j)"
    using multu_const [OF assms(3,4)] assms(3) by blast
  then have "?P (\<lambda>a j. lane_run (multu_by_const_body (multu_const n) n b) B (Data a j b))" for b B
    using multu_by_const_lane [where n = n and b = b and B = B] multu_const [OF assms(3,4)] by simp
  from program_columns [OF multu_by_const_ok assms(2), of ?P, OF this] show ?thesis
    by (auto simp: multu_by_const_main_def alloc_simps [OF assms(1)] column_val_def cong: bits_val_cong)
qed

end

end
