(* ===== verification/Div_Workload.thy ===== *)
theory Div_Workload
  imports Mul_Workloads
begin

text \<open>
  Unsigned division (\<open>microworkloads/16_divu-plus.c\<close>): restoring division from the top bit of the
  dividend down. Stage \<open>j\<close> shifts dividend bit \<open>j\<close> into the partial remainder, which lives in
  rows \<open>j\<close> and up of the array \<open>rest\<close>, compares it with the divisor, and subtracts the divisor
  where the comparison holds. The quotient bit is the outcome of the comparison.
\<close>

section \<open>The program\<close>

definition div_cmp_step :: "addr \<Rightarrow> addr \<Rightarrow> vop list" where
  "div_cmp_step r v2 = [AAPV (at B_T2) r, AAPV (at B_DCC0N) v2, APV (at B_DCC0_T1_T2)]"

definition div_high_pair :: "addr \<Rightarrow> addr \<Rightarrow> vop list" where
  "div_high_pair v2 v2' =
    [ AAPV (at B_T2_T3) (at C_0),
      AAPV (at B_DCC0N) v2,
      AAPV (at B_T0) (at B_DCC0_T1_T2),
      AAPV (at B_DCC1N) v2',
      AAPV (at B_T1) (at B_DCC1_T0_T3) ]"

definition div_and_pair :: "addr \<Rightarrow> addr \<Rightarrow> addr \<Rightarrow> addr \<Rightarrow> addr \<Rightarrow> vop list" where
  "div_and_pair m v2 out v2' out' =
    [ AAPV (at B_T0_T1_T2) (at C_0),
      AAPV (at B_T2_T3) m,
      AAPV (at B_DCC0) v2,
      AAPV out (at B_DCC0_T1_T2),
      AAPV (at B_DCC1) v2',
      AAPV out' (at B_DCC1_T0_T3) ]"

definition div_step12 :: "nat \<Rightarrow> nat \<Rightarrow> nat \<Rightarrow> vop list" where
  "div_step12 col_length base_row j =
     [AAPV (at B_T0) (vec base_row Vals1 j), AAPV (at (Vec Rest j)) (at B_T0), AAPV (at B_T1) (at C_1)] @
     concat (map (\<lambda>k. div_cmp_step (at (Vec Rest (j + k))) (vec base_row Vals2 k)) [0..<col_length - j]) @
     concat (map (\<lambda>k. div_high_pair (vec base_row Vals2 k) (vec base_row Vals2 (k + 1)))
       (range_step (col_length - j) (col_length - 1) 1)) @
     (if j mod 2 = 1
      then [AAPV (at B_T2) (at C_0), AAPV (at B_DCC0N) (vec base_row Vals2 (col_length - 1)),
            AAPV (at (Vec Tmp_m 0)) (at B_DCC0_T1_T2)]
      else [AAPV (at (Vec Tmp_m 0)) (at B_T1)])"

definition div_step34 :: "nat \<Rightarrow> nat \<Rightarrow> nat \<Rightarrow> vop list" where
  "div_step34 col_length base_row j =
     [AAPV (vec base_row Output j) (at (Vec Tmp_m 0))] @
     concat (map (\<lambda>k. div_and_pair (at (Vec Tmp_m 0)) (vec base_row Vals2 k) (at (Vec Tmp k))
         (vec base_row Vals2 (k + 1)) (at (Vec Tmp (k + 1))))
       (range_step 0 (col_length - j - 1) 1)) @
     (if (col_length - j) mod 2 = 1
      then [AAPV (at B_T0) (at C_0), AAPV (at B_T1) (at (Vec Tmp_m 0)),
            AAPV (at B_T2) (vec base_row Vals2 (col_length - j - 1)),
            AAPV (at (Vec Tmp (col_length - j - 1))) (at B_T0_T1_T2)]
      else [])"

definition div_step5 :: "nat \<Rightarrow> nat \<Rightarrow> vop list" where
  "div_step5 col_length j =
     AAPV (at B_DCC0) (at C_1) #
     concat (map (\<lambda>k. full_sub (at (Vec Rest (j + k))) (at (Vec Tmp k)) (at (Vec Rest (j + k))))
       [0..<col_length - j])"

definition divu_stage :: "nat \<Rightarrow> nat \<Rightarrow> nat \<Rightarrow> vop list" where
  "divu_stage col_length base_row j =
     div_step12 col_length base_row j @ div_step34 col_length base_row j @ div_step5 col_length j"

definition divu_body :: "nat \<Rightarrow> nat \<Rightarrow> vop list" where
  "divu_body col_length base_row =
     concat (map (divu_stage col_length base_row) (rev [0..<col_length]))"

definition divu_main :: "'m hw \<Rightarrow> nat \<Rightarrow> nat \<Rightarrow> 'm prog \<Rightarrow> 'm prog option" where
  "divu_main hw col_length arg2 s = do {
     s \<leftarrow> init_ambit hw s;
     s \<leftarrow> random_vector_array hw Vals1 (per_col_bytes arg2) col_length s;
     s \<leftarrow> random_vector_array hw Vals2 (per_col_bytes arg2) col_length s;
     s \<leftarrow> allocate_vector_array hw Output (per_col_bytes arg2) (2 * col_length) s;
     let vector_width = (if per_col_bytes arg2 < ALIGNMENT then per_col_bytes arg2 else ALIGNMENT);
     s \<leftarrow> allocate_vector_array hw Rest vector_width col_length s;
     s \<leftarrow> allocate_vector_array hw Tmp vector_width col_length s;
     s \<leftarrow> allocate_vector hw Tmp_m 0 vector_width s;
     Some (two_iterations hw (per_col_rows arg2) (divu_body col_length) s) }"

section \<open>The steps of one stage\<close>

lemma div_cmp_step:
  "lane_run (div_cmp_step (Vec a1 j1, o1) (Vec a2 j2, o2)) B (Cell T1 0)
     = maj (B (Data a1 j1 o1)) (\<not> B (Data a2 j2 o2)) (B (Cell T1 0))"
  "l \<in> data_locs \<Longrightarrow> lane_run (div_cmp_step r v) B l = B l"
   apply (auto simp: div_cmp_step_def row_simps Let_def maj_def)[1]
  by (erule data_locsE, hypsubst, rule lane_run_frameI) (auto simp: div_cmp_step_def)

lemma div_high_pair:
  "lane_run (div_high_pair (Vec a1 j1, o1) (Vec a2 j2, o2)) B (Cell T1 0)
     \<longleftrightarrow> B (Cell T1 0) \<and> \<not> B (Data a1 j1 o1) \<and> \<not> B (Data a2 j2 o2)"
  "l \<in> data_locs \<Longrightarrow> lane_run (div_high_pair v v') B l = B l"
   apply (auto simp: div_high_pair_def row_simps Let_def maj_def)[1]
  by (erule data_locsE, hypsubst, rule lane_run_frameI) (auto simp: div_high_pair_def)

lemma div_high_loop:
  fixes b lo :: nat and B :: bitline
  defines "R \<equiv> \<lambda>p. lane_run (concat (map (\<lambda>i. div_high_pair (Vec Vals2 (lo + 2 * i), b)
      (Vec Vals2 (Suc (lo + 2 * i)), b)) [0..<p])) B"
  shows "R p (Cell T1 0) \<longleftrightarrow> B (Cell T1 0) \<and> (\<forall>i<2 * p. \<not> B (Data Vals2 (lo + i) b))"
    and "l \<in> data_locs \<Longrightarrow> R p l = B l"
proof -
  have R: "R 0 = B" "R (Suc p) = lane_run (div_high_pair (Vec Vals2 (lo + 2 * p), b) (Vec Vals2 (Suc (lo + 2 * p)), b)) (R p)" for p
    by (simp_all add: R_def)
  have data: "l \<in> data_locs \<Longrightarrow> R p l = B l" for p l
    by (induction p) (simp_all add: R div_high_pair)
  then show "l \<in> data_locs \<Longrightarrow> R p l = B l" .
  show "R p (Cell T1 0) \<longleftrightarrow> B (Cell T1 0) \<and> (\<forall>i<2 * p. \<not> B (Data Vals2 (lo + i) b))"
    by (induction p) (auto simp: R div_high_pair data All_less_Suc)
qed

lemma div_and_pair:
  fixes a :: arr
  defines "f k b \<equiv> div_and_pair (Vec Tmp_m 0, 0) (Vec Vals2 k, b) (Vec Tmp k, 0) (Vec Vals2 (Suc k), b) (Vec Tmp (Suc k), 0)"
  shows "lane_run (f k b) B (Data Tmp i 0) =
      (if i = k \<or> i = Suc k then B (Data Tmp_m 0 0) \<and> B (Data Vals2 i b) else B (Data Tmp i 0))"
    and "a \<noteq> Tmp \<Longrightarrow> lane_run (f k b) B (Data a j r) = B (Data a j r)"
   apply (auto simp: f_def div_and_pair_def row_simps Let_def maj_def)[1]
  by (rule lane_run_frameI) (auto simp: f_def div_and_pair_def)

lemma div_and_loop:
  fixes b :: nat and B :: bitline
  defines "R \<equiv> \<lambda>p. lane_run (concat (map (\<lambda>i. div_and_pair (Vec Tmp_m 0, 0) (Vec Vals2 (2 * i), b) (Vec Tmp (2 * i), 0)
      (Vec Vals2 (Suc (2 * i)), b) (Vec Tmp (Suc (2 * i)), 0)) [0..<p])) B"
  shows "i < 2 * p \<Longrightarrow> R p (Data Tmp i 0) \<longleftrightarrow> B (Data Tmp_m 0 0) \<and> B (Data Vals2 i b)"
    and "a \<noteq> Tmp \<Longrightarrow> R p (Data a j r) = B (Data a j r)"
proof -
  have R: "R 0 = B" "R (Suc p) = lane_run (div_and_pair (Vec Tmp_m 0, 0) (Vec Vals2 (2 * p), b) (Vec Tmp (2 * p), 0)
      (Vec Vals2 (Suc (2 * p)), b) (Vec Tmp (Suc (2 * p)), 0)) (R p)" for p
    by (simp_all add: R_def)
  have data: "a \<noteq> Tmp \<Longrightarrow> R p (Data a j r) = B (Data a j r)" for p a j r
    by (induction p) (simp_all add: R div_and_pair)
  then show "a \<noteq> Tmp \<Longrightarrow> R p (Data a j r) = B (Data a j r)" .
  show "i < 2 * p \<Longrightarrow> R p (Data Tmp i 0) \<longleftrightarrow> B (Data Tmp_m 0 0) \<and> B (Data Vals2 i b)"
    by (induction p) (auto simp: R div_and_pair data)
qed

text \<open>
  Steps 1 and 2: the partial remainder takes in dividend bit \<open>j\<close>, and the flag row says whether
  the divisor fits. The remainder has \<open>n - j\<close> bits, so the high bits of the divisor must vanish.
\<close>

lemma compare_extended:
  assumes "k \<le> n"
  shows "carry x (\<lambda>i. \<not> y i) True k \<and> (\<forall>i<n - k. \<not> y (k + i)) \<longleftrightarrow> bits_val n y \<le> bits_val k x"
proof -
  let ?h = "bits_val (n - k) (\<lambda>i. y (k + i))"
  have n: "bits_val n y = bits_val k y + 2 ^ k * ?h"
    using assms bits_val_add [of k "n - k" y] by simp
  have h: "(\<forall>i<n - k. \<not> y (k + i)) \<longleftrightarrow> ?h = 0"
    by (simp add: bits_val_eq_0)
  have "\<not> bits_val n y \<le> bits_val k x" if "?h \<noteq> 0"
  proof -
    from that have "2 ^ k * 1 \<le> 2 ^ k * ?h" by (intro mult_le_mono2) simp
    with n bits_val_less [of k x] show ?thesis by linarith
  qed
  then show ?thesis unfolding carry_compl_ge h by (cases "?h = 0") (simp_all add: n)
qed

lemma div_step12_lane:
  fixes b j n :: nat
  assumes "j < n"
  defines "B0 \<equiv> \<lambda>B. B(Data Rest j 0 := B (Data Vals1 j b))"
  shows "lane_run (div_step12 n b j) B (Data Tmp_m 0 0) \<longleftrightarrow>
      bits_val n (\<lambda>i. B (Data Vals2 i b)) \<le> bits_val (n - j) (\<lambda>k. B0 B (Data Rest (j + k) 0))"
    and "a \<noteq> Tmp_m \<Longrightarrow> lane_run (div_step12 n b j) B (Data a i r) = B0 B (Data a i r)"
proof -
  let ?I = "(B(Cell T0 0 := B (Data Vals1 j b)))(Data Rest j 0 := B (Data Vals1 j b), Cell T1 0 := True)"
  define C where "C = lane_run (concat (map (\<lambda>k. div_cmp_step (Vec Rest (j + k), 0) (Vec Vals2 k, b)) [0..<n - j])) ?I"
  have reads: "B1 (Data Rest (j + k) 0) = B2 (Data Rest (j + k) 0) \<and> (\<not> B1 (Data Vals2 k b)) = (\<not> B2 (Data Vals2 k b))"
    if "\<And>l. l \<in> data_locs \<Longrightarrow> B1 l = B2 l" for k B1 B2
    using that by simp
  note loop = carry_loop [where f = "\<lambda>k. div_cmp_step (Vec Rest (j + k), 0) (Vec Vals2 k, b)" and B = ?I and n = "n - j",
      OF div_cmp_step reads, folded C_def]
  define H where "H = lane_run (concat (map (\<lambda>i. div_high_pair (Vec Vals2 (n - j + 2 * i), b)
      (Vec Vals2 (Suc (n - j + 2 * i)), b)) [0..<j div 2])) C"
  note high = div_high_loop [where b = b and lo = "n - j" and p = "j div 2" and B = C, folded H_def]
  have "(n - 1 - (n - j) + 1) div 2 = j div 2" using assms(1) by (cases j) auto
  then have pairs: "concat (map (\<lambda>k. div_high_pair (vec b Vals2 k) (vec b Vals2 (k + 1))) (range_step (n - j) (n - 1) 1)) =
      concat (map (\<lambda>i. div_high_pair (Vec Vals2 (n - j + 2 * i), b) (Vec Vals2 (Suc (n - j + 2 * i)), b)) [0..<j div 2])"
    by (simp add: range_step_pairs o_def)
  have body: "lane_run (div_step12 n b j) B = lane_run (if j mod 2 = 1
      then [AAPV (at B_T2) (at C_0), AAPV (at B_DCC0N) (Vec Vals2 (n - 1), b), AAPV (at (Vec Tmp_m 0)) (at B_DCC0_T1_T2)]
      else [AAPV (at (Vec Tmp_m 0)) (at B_T1)]) H"
    by (simp only: div_step12_def pairs) (simp add: H_def C_def row_simps)
  have data: "H (Data a i r) = B0 B (Data a i r)" for a i r
    using loop(2) high(2) by (simp add: B0_def)
  show "a \<noteq> Tmp_m \<Longrightarrow> lane_run (div_step12 n b j) B (Data a i r) = B0 B (Data a i r)"
    by (simp add: body data row_simps Let_def)
  have T1: "C (Cell T1 0) = carry (\<lambda>k. B0 B (Data Rest (j + k) 0)) (\<lambda>k. \<not> B (Data Vals2 k b)) True (n - j)"
    by (simp add: loop(1) B0_def)
  have V2: "C (Data Vals2 k b) = B (Data Vals2 k b)" for k using loop(2) by simp
  have flag: "lane_run (div_step12 n b j) B (Data Tmp_m 0 0) \<longleftrightarrow>
      carry (\<lambda>k. B0 B (Data Rest (j + k) 0)) (\<lambda>k. \<not> B (Data Vals2 k b)) True (n - j) \<and>
      (\<forall>i<j. \<not> B (Data Vals2 (n - j + i) b))"
  proof (cases "j mod 2 = 1")
    case True
    then have i: "j = Suc (2 * (j div 2))" by presburger
    with assms(1) have last: "n - 1 = n - j + 2 * (j div 2)" by arith
    have all: "(\<forall>k<j. P k) \<longleftrightarrow> (\<forall>k<2 * (j div 2). P k) \<and> P (2 * (j div 2))" for P
      by (subst i) (auto simp: All_less_Suc)
    have "lane_run (div_step12 n b j) B (Data Tmp_m 0 0) \<longleftrightarrow> H (Cell T1 0) \<and> \<not> H (Data Vals2 (n - 1) b)"
      using True by (auto simp: body row_simps Let_def maj_def)
    also have "\<dots> \<longleftrightarrow> C (Cell T1 0) \<and> (\<forall>k<j. \<not> C (Data Vals2 (n - j + k) b))"
      unfolding high(1) high(2) [OF Data_in] last all by blast
    finally show ?thesis by (simp only: T1 V2)
  next
    case False
    then have "2 * (j div 2) = j" by presburger
    moreover have "lane_run (div_step12 n b j) B (Data Tmp_m 0 0) = H (Cell T1 0)"
      using False by (simp add: body row_simps)
    ultimately show ?thesis by (simp only: high(1) T1 V2)
  qed
  have "n - (n - j) = j" using assms(1) by simp
  with flag compare_extended [of "n - j" n "\<lambda>k. B0 B (Data Rest (j + k) 0)" "\<lambda>k. B (Data Vals2 k b)"]
  show "lane_run (div_step12 n b j) B (Data Tmp_m 0 0) \<longleftrightarrow>
      bits_val n (\<lambda>i. B (Data Vals2 i b)) \<le> bits_val (n - j) (\<lambda>k. B0 B (Data Rest (j + k) 0))"
    by simp
qed

text \<open>Steps 3 and 4: the quotient bit is the flag; the subtrahend is the divisor where the flag is set.\<close>

lemma div_step34_lane:
  fixes b j n :: nat
  assumes "j < n"
  shows "k < n - j \<Longrightarrow> lane_run (div_step34 n b j) B (Data Tmp k 0) \<longleftrightarrow> B (Data Tmp_m 0 0) \<and> B (Data Vals2 k b)"
    and "a \<noteq> Tmp \<Longrightarrow> lane_run (div_step34 n b j) B (Data a i r) =
      (if a = Output \<and> i = j \<and> r = b then B (Data Tmp_m 0 0) else B (Data a i r))"
proof -
  let ?I = "B(Data Output j b := B (Data Tmp_m 0 0))"
  define C where "C = lane_run (concat (map (\<lambda>i. div_and_pair (Vec Tmp_m 0, 0) (Vec Vals2 (2 * i), b) (Vec Tmp (2 * i), 0)
      (Vec Vals2 (Suc (2 * i)), b) (Vec Tmp (Suc (2 * i)), 0)) [0..<(n - j) div 2])) ?I"
  note loop = div_and_loop [where b = b and p = "(n - j) div 2" and B = ?I, folded C_def]
  have len: "(n - j - 1 - 0 + 1) div 2 = (n - j) div 2" using assms by simp
  then have pairs: "concat (map (\<lambda>k. div_and_pair (at (Vec Tmp_m 0)) (vec b Vals2 k) (at (Vec Tmp k)) (vec b Vals2 (k + 1))
        (at (Vec Tmp (k + 1)))) (range_step 0 (n - j - 1) 1)) =
      concat (map (\<lambda>i. div_and_pair (Vec Tmp_m 0, 0) (Vec Vals2 (2 * i), b) (Vec Tmp (2 * i), 0)
      (Vec Vals2 (Suc (2 * i)), b) (Vec Tmp (Suc (2 * i)), 0)) [0..<(n - j) div 2])"
    by (simp only: range_step_two len) (simp add: o_def)
  have body: "lane_run (div_step34 n b j) B = lane_run (if (n - j) mod 2 = 1
      then [AAPV (at B_T0) (at C_0), AAPV (at B_T1) (at (Vec Tmp_m 0)), AAPV (at B_T2) (Vec Vals2 (n - j - 1), b),
            AAPV (at (Vec Tmp (n - j - 1))) (at B_T0_T1_T2)] else []) C"
    by (simp only: div_step34_def pairs) (simp add: C_def row_simps)
  show "a \<noteq> Tmp \<Longrightarrow> lane_run (div_step34 n b j) B (Data a i r) =
      (if a = Output \<and> i = j \<and> r = b then B (Data Tmp_m 0 0) else B (Data a i r))"
    by (auto simp: body loop row_simps Let_def)
  show "lane_run (div_step34 n b j) B (Data Tmp k 0) \<longleftrightarrow> B (Data Tmp_m 0 0) \<and> B (Data Vals2 k b)" if "k < n - j"
  proof (cases "k < 2 * ((n - j) div 2)")
    case True
    then have "(n - j) mod 2 = 1 \<longrightarrow> k \<noteq> n - j - 1" by presburger
    with True show ?thesis by (auto simp: body loop row_simps Let_def)
  next
    case False
    with that have "(n - j) mod 2 = 1" "k = n - j - 1" by presburger+
    then show ?thesis by (auto simp: body loop row_simps Let_def maj_def)
  qed
qed

text \<open>Step 5: subtract, in place.\<close>

lemma div_step5_lane:
  fixes j n :: nat
  assumes "j < n"
  shows "bits_val (n - j) (\<lambda>k. lane_run (div_step5 n j) B (Data Rest (j + k) 0)) =
      (2 ^ (n - j) + bits_val (n - j) (\<lambda>k. B (Data Rest (j + k) 0)) - bits_val (n - j) (\<lambda>k. B (Data Tmp k 0))) mod 2 ^ (n - j)"
    and "a \<noteq> Rest \<Longrightarrow> lane_run (div_step5 n j) B (Data a i r) = B (Data a i r)"
proof -
  let ?B = "B(Cell DCC0 0 := True)"
  let ?f = "\<lambda>k. full_sub (Vec Rest (j + k), 0) (Vec Tmp k, 0) (Vec Rest (j + k), 0)"
  have body: "lane_run (div_step5 n j) B = lane_run (concat (map ?f [0..<n - j])) ?B"
    by (simp add: div_step5_def row_simps)
  have D: "inj_on (\<lambda>k. Data Rest (j + k) 0) {..<n - j}" "(\<lambda>k. Data Rest (j + k) 0) ` {..<n - j} \<subseteq> data_locs"
    by (auto simp: inj_on_def)
  have reads: "B1 (Data Rest (j + k) 0) = B2 (Data Rest (j + k) 0) \<and> (\<not> B1 (Data Tmp k 0)) = (\<not> B2 (Data Tmp k 0))"
    if "\<And>l. l \<in> data_locs \<Longrightarrow> l \<notin> (\<lambda>k. Data Rest (j + k) 0) ` {..<k} \<Longrightarrow> B1 l = B2 l" for k B1 B2
    using that [of "Data Rest (j + k) 0"] that [of "Data Tmp k 0"] by (simp add: image_iff)
  note loop = ripple_loop [where f = ?f and B = ?B and X = "\<lambda>k B. B (Data Rest (j + k) 0)",
      OF full_sub_carry full_sub_sum full_sub_frame_loc reads D]
  show "bits_val (n - j) (\<lambda>k. lane_run (div_step5 n j) B (Data Rest (j + k) 0)) =
      (2 ^ (n - j) + bits_val (n - j) (\<lambda>k. B (Data Rest (j + k) 0)) - bits_val (n - j) (\<lambda>k. B (Data Tmp k 0))) mod 2 ^ (n - j)"
    unfolding ripple_sub_mod [symmetric] body by (rule bits_val_cong) (simp_all add: loop(2))
  show "a \<noteq> Rest \<Longrightarrow> lane_run (div_step5 n j) B (Data a i r) = B (Data a i r)"
    using loop(3) [of "Data a i r"] by (auto simp: body)
qed

section \<open>Restoring division\<close>

text \<open>One stage, on numbers: \<open>x\<close> is the shifted remainder, \<open>d\<close> the divisor.\<close>

lemma divu_stage_lane:
  fixes b j n :: nat and B :: bitline
  assumes "j < n"
  defines "B' \<equiv> lane_run (divu_stage n b j) B"
    and "d \<equiv> bits_val n (\<lambda>i. B (Data Vals2 i b))"
    and "x \<equiv> of_bool (B (Data Vals1 j b)) + 2 * bits_val (n - Suc j) (\<lambda>k. B (Data Rest (Suc j + k) 0))"
  shows "bits_val (n - j) (\<lambda>k. B' (Data Rest (j + k) 0)) = (if d \<le> x then x - d else x)"
    and "B' (Data Output j b) \<longleftrightarrow> d \<le> x"
    and "a \<in> {Vals1, Vals2, Output} \<Longrightarrow> (a, i) \<noteq> (Output, j) \<Longrightarrow> B' (Data a i b) = B (Data a i b)"
proof -
  define B1 where "B1 = lane_run (div_step12 n b j) B"
  define B2 where "B2 = lane_run (div_step34 n b j) B1"
  have B': "B' = lane_run (div_step5 n j) B2" by (simp add: B'_def B1_def B2_def divu_stage_def)
  note s1 = div_step12_lane [OF assms(1), where b = b and B = B, folded B1_def]
  note s2 = div_step34_lane [OF assms(1), where b = b and B = B1, folded B2_def]
  note s3 = div_step5_lane [OF assms(1), where B = B2, folded B']
  have "n - j = Suc (n - Suc j)" using assms(1) by simp
  then have x: "bits_val (n - j) (\<lambda>k. (B(Data Rest j 0 := B (Data Vals1 j b))) (Data Rest (j + k) 0)) = x"
    by (simp add: x_def bits_val_Suc_shift)
  then have flag: "B1 (Data Tmp_m 0 0) \<longleftrightarrow> d \<le> x" by (simp add: s1(1) d_def)
  have x_less: "x < 2 ^ (n - j)" using bits_val_less x by metis
  have "bits_val (n - j) (\<lambda>k. B2 (Data Tmp k 0)) = bits_val (n - j) (\<lambda>k. d \<le> x \<and> B (Data Vals2 k b))"
    by (rule bits_val_cong) (simp_all add: s2(1) s1(2) flag)
  also have "\<dots> = (if d \<le> x then d else 0)"
  proof (cases "d \<le> x")
    case True
    have "d = bits_val (n - j) (\<lambda>k. B (Data Vals2 k b)) + 2 ^ (n - j) * bits_val j (\<lambda>k. B (Data Vals2 (n - j + k) b))"
      using bits_val_add [of "n - j" j] assms(1) by (simp add: d_def)
    then have "d mod 2 ^ (n - j) = bits_val (n - j) (\<lambda>k. B (Data Vals2 k b))" using bits_val_less by simp
    with True x_less show ?thesis by simp
  qed simp
  finally have t: "bits_val (n - j) (\<lambda>k. B2 (Data Tmp k 0)) = (if d \<le> x then d else 0)" .
  have r: "bits_val (n - j) (\<lambda>k. B2 (Data Rest (j + k) 0)) = x"
    using x by (simp add: s2(2) s1(2) del: fun_upd_apply)
  have "(2 ^ (n - j) + x - t) mod 2 ^ (n - j) = x - t" if "t \<le> x" for t
  proof -
    have "(2 ^ (n - j) + x - t) mod 2 ^ (n - j) = (x - t) mod 2 ^ (n - j)"
      by (simp only: diff_add_assoc [OF that] mod_add_self1)
    with x_less show ?thesis by (simp only: mod_less less_imp_diff_less)
  qed
  then show "bits_val (n - j) (\<lambda>k. B' (Data Rest (j + k) 0)) = (if d \<le> x then x - d else x)"
    by (simp add: s3(1) t r)
  show "B' (Data Output j b) \<longleftrightarrow> d \<le> x" by (simp add: s3(2) s2(2) flag)
  show "a \<in> {Vals1, Vals2, Output} \<Longrightarrow> (a, i) \<noteq> (Output, j) \<Longrightarrow> B' (Data a i b) = B (Data a i b)"
    by (auto simp: s3(2) s2(2) s1(2))
qed

text \<open>One step of long division, on numbers.\<close>

lemma long_division_step:
  fixes y d q w :: nat and v :: bool
  assumes "y = d * q + w" "0 < d \<longrightarrow> w < d" "d = 0 \<longrightarrow> q = 2 ^ m - 1"
  defines "x \<equiv> of_bool v + 2 * w"
  defines "w' \<equiv> if d \<le> x then x - d else x" and "q' \<equiv> of_bool (d \<le> x) + 2 * q"
  shows "of_bool v + 2 * y = d * q' + w'" "0 < d \<longrightarrow> w' < d" "d = 0 \<longrightarrow> q' = 2 ^ Suc m - 1"
proof -
  show "of_bool v + 2 * y = d * q' + w'"
    by (cases "d \<le> x") (simp_all add: assms(1) x_def w'_def q'_def algebra_simps)
  show "0 < d \<longrightarrow> w' < d" using assms(2) by (auto simp: w'_def x_def)
  have "1 + 2 * (2 ^ m - 1) = (2 ^ Suc m - 1 :: nat)"
    using one_le_power [of "2::nat" m] unfolding power_Suc by linarith
  then show "d = 0 \<longrightarrow> q' = 2 ^ Suc m - 1" using assms(3) by (simp add: q'_def)
qed

lemma divu_body_lane:
  fixes b n :: nat and B :: bitline
  defines "V1 \<equiv> bits_val n (\<lambda>i. B (Data Vals1 i b))" and "d \<equiv> bits_val n (\<lambda>i. B (Data Vals2 i b))"
    and "R \<equiv> \<lambda>m. lane_run (concat (map (divu_stage n b) (rev [m..<n]))) B"
  assumes "m \<le> n"
  shows "V1 div 2 ^ m = d * bits_val (n - m) (\<lambda>k. R m (Data Output (m + k) b)) + bits_val (n - m) (\<lambda>k. R m (Data Rest (m + k) 0)) \<and>
    (0 < d \<longrightarrow> bits_val (n - m) (\<lambda>k. R m (Data Rest (m + k) 0)) < d) \<and>
    (d = 0 \<longrightarrow> bits_val (n - m) (\<lambda>k. R m (Data Output (m + k) b)) = 2 ^ (n - m) - 1) \<and>
    (\<forall>a i. a \<in> {Vals1, Vals2} \<longrightarrow> R m (Data a i b) = B (Data a i b))"
  using assms(4)
proof (induction m rule: inc_induct)
  case base
  then show ?case
    using bits_val_less [of n "\<lambda>i. B (Data Vals1 i b)"] by (simp add: R_def V1_def)
next
  case (step m)
  have Rm: "R m = lane_run (divu_stage n b m) (R (Suc m))"
    using step.hyps by (simp add: R_def upt_conv_Cons)
  note st = divu_stage_lane [OF step.hyps(2), where b = b and B = "R (Suc m)", folded Rm]
  have ins: "R (Suc m) (Data Vals1 i b) = B (Data Vals1 i b)" "R (Suc m) (Data Vals2 i b) = B (Data Vals2 i b)" for i
    using step.IH by auto
  have len: "n - m = Suc (n - Suc m)" using step.hyps by simp
  have y: "V1 div 2 ^ m = of_bool (B (Data Vals1 m b)) + 2 * (V1 div 2 ^ Suc m)"
    using step.hyps unfolding V1_def by (subst (1 2) bits_val_div) (simp_all add: len bits_val_Suc_shift)
  have q: "bits_val (n - m) (\<lambda>k. R m (Data Output (m + k) b)) =
      of_bool (R m (Data Output m b)) + 2 * bits_val (n - Suc m) (\<lambda>k. R (Suc m) (Data Output (Suc m + k) b))"
    unfolding len bits_val_Suc_shift by (simp add: st(3) cong: bits_val_cong)
  have IH: "V1 div 2 ^ Suc m = d * bits_val (n - Suc m) (\<lambda>k. R (Suc m) (Data Output (Suc m + k) b)) +
      bits_val (n - Suc m) (\<lambda>k. R (Suc m) (Data Rest (Suc m + k) 0))"
    "0 < d \<longrightarrow> bits_val (n - Suc m) (\<lambda>k. R (Suc m) (Data Rest (Suc m + k) 0)) < d"
    "d = 0 \<longrightarrow> bits_val (n - Suc m) (\<lambda>k. R (Suc m) (Data Output (Suc m + k) b)) = 2 ^ (n - Suc m) - 1"
    using step.IH by blast+
  note long = long_division_step [OF IH, where v = "B (Data Vals1 m b)"]
  note new = st(1) [unfolded ins, folded d_def] q [unfolded st(2) [unfolded ins, folded d_def]]
  have "\<forall>a i. a \<in> {Vals1, Vals2} \<longrightarrow> R m (Data a i b) = B (Data a i b)" using ins st(3) by auto
  moreover have "2 ^ (n - m) = (2 ^ Suc (n - Suc m) :: nat)" using len by simp
  ultimately show ?case
    unfolding y new using long by (intro conjI) (simp_all only:)
qed

lemma divu_lane:
  fixes b n :: nat and B :: bitline
  defines "B' \<equiv> lane_run (divu_body n b) B"
  defines "d \<equiv> bits_val n (\<lambda>i. B' (Data Vals2 i b))"
  shows "bits_val n (\<lambda>i. B' (Data Output i b)) =
      (if d = 0 then 2 ^ n - 1 else bits_val n (\<lambda>i. B' (Data Vals1 i b)) div d)"
proof -
  note inv = divu_body_lane [where m = 0 and n = n and b = b and B = B, folded divu_body_def, folded B'_def, simplified]
  have same: "B' (Data Vals1 i b) = B (Data Vals1 i b)" "B' (Data Vals2 i b) = B (Data Vals2 i b)" for i
    using inv by auto
  have "w < d' \<Longrightarrow> (d' * q + w) div d' = q" for d' q w :: nat by simp
  with inv show ?thesis unfolding d_def same by auto
qed

lemma divu_ok: "body_ok (- {Rest, Tmp, Tmp_m}) (divu_body n)"
  by (simp add: body_ok_def divu_body_def divu_stage_def div_step12_def div_step34_def div_step5_def
      div_cmp_step_def div_high_pair_def div_and_pair_def full_sub_def)

context ambit_substrate
begin

lemma divu_program:
  assumes "alloc_ok hw" "R < per_col_rows arg2"
  shows "\<exists>s'. divu_main hw n arg2 s = Some s' \<and>
    column_val peek (dram s') Output n R c =
      (if column_val peek (dram s') Vals2 n R c = 0 then 2 ^ n - 1
       else column_val peek (dram s') Vals1 n R c div column_val peek (dram s') Vals2 n R c)"
proof -
  let ?P = "\<lambda>f. bits_val n (f Output) =
      (if bits_val n (f Vals2) = 0 then 2 ^ n - 1 else bits_val n (f Vals1) div bits_val n (f Vals2))"
  have "?P (\<lambda>a j. lane_run (divu_body n b) B (Data a j b))" for b B
    by (rule divu_lane)
  from program_columns [OF divu_ok assms(2), of ?P, OF this] show ?thesis
    by (auto simp: divu_main_def alloc_simps [OF assms(1)] column_val_def cong: bits_val_cong)
qed

end

end
