(* ===== verification/Logic_Workloads.thy ===== *)
theory Logic_Workloads
  imports Arith_Workloads
begin

text \<open>
  The reduction, comparison and selection workloads (\<open>microworkloads/3*-plus.c\<close>,
  \<open>4*-plus.c\<close>, \<open>60_if_then_else-plus.c\<close>). Reductions fold the rows of a number pairwise into one
  row; comparisons run a carry chain and keep its last carry; the selection is the step shared with
  the minimum and the maximum.
\<close>

section \<open>Reductions\<close>

definition xor_pair :: "addr \<Rightarrow> addr \<Rightarrow> vop list" where
  "xor_pair v1 v2 =
    [ AAPV (at B_DCC0N_T0) v1,
      AAPV (at B_T2) v2,
      AAPV (at B_T3) (at B_DCC0_T1_T2),
      AAPV (at B_T2) (at B_DCC1_T0_T3),
      AAPV (at B_DCC0N) v2,
      AAPV (at B_DCC1N) (at B_DCC0_T1_T2) ]"

definition and_pair :: "addr \<Rightarrow> addr \<Rightarrow> vop list" where
  "and_pair v1 v2 =
    [ AAPV (at B_T0_T1_T2) (at C_0),
      AAPV (at B_DCC1) v1,
      AAPV (at B_T2) (at B_DCC1_T0_T3),
      AAPV (at B_DCC0) v2,
      AAPV (at B_T3) (at B_DCC0_T1_T2) ]"

definition or_pair :: "addr \<Rightarrow> addr \<Rightarrow> vop list" where
  "or_pair v1 v2 =
    [ AAPV (at B_T0_T1_T2) (at C_1),
      AAPV (at B_DCC1) v1,
      AAPV (at B_T2) (at B_DCC1_T0_T3),
      AAPV (at B_DCC0) v2,
      AAPV (at B_T3) (at B_DCC0_T1_T2) ]"

definition xor_reduction_body :: "nat \<Rightarrow> nat \<Rightarrow> vop list" where
  "xor_reduction_body col_length base_row =
     (let (init, j) = (if col_length mod 2 = 0 then (at C_0, 0) else (vec base_row Vals 0, 1)) in
      [AAPV (at B_DCC1N_T1) init] @
      concat (map (\<lambda>j. xor_pair (vec base_row Vals j) (vec base_row Vals (j + 1)))
        (range_step j (col_length - 1) 1)) @
      [AAPV (vec base_row Output 0) (at B_T1)])"

definition and_reduction_body :: "nat \<Rightarrow> nat \<Rightarrow> vop list" where
  "and_reduction_body col_length base_row =
     (let (init, j) = (if col_length mod 2 = 0 then (at C_1, 0) else (vec base_row Vals 0, 1)) in
      [AAPV (at B_T3) init] @
      concat (map (\<lambda>j. and_pair (vec base_row Vals j) (vec base_row Vals (j + 1)))
        (range_step j (col_length - 1) 1)) @
      [AAPV (vec base_row Output 0) (at B_T3)])"

definition or_reduction_body :: "nat \<Rightarrow> nat \<Rightarrow> vop list" where
  "or_reduction_body col_length base_row =
     (let (init, j) = (if col_length mod 2 = 0 then (at C_0, 0) else (vec base_row Vals 0, 1)) in
      [AAPV (at B_T3) init] @
      concat (map (\<lambda>j. or_pair (vec base_row Vals j) (vec base_row Vals (j + 1)))
        (range_step j (col_length - 1) 1)) @
      [AAPV (vec base_row Output 0) (at B_T3)])"

text \<open>The sign tests: the negated top bit, and its conjunction with the disjunction of the rest.\<close>

definition greater_equal_0_body :: "nat \<Rightarrow> nat \<Rightarrow> vop list" where
  "greater_equal_0_body col_length base_row =
     [AAPV (at B_DCC0N) (vec base_row Vals (col_length - 1)), AAPV (vec base_row Output 0) (at B_DCC0)]"

definition greater_than_0_body :: "nat \<Rightarrow> nat \<Rightarrow> vop list" where
  "greater_than_0_body col_length base_row =
     (let (init, j) = (if col_length mod 2 = 1 then (at C_0, 0) else (vec base_row Vals 0, 1)) in
      [AAPV (at B_T3) init] @
      concat (map (\<lambda>j. or_pair (vec base_row Vals j) (vec base_row Vals (j + 1)))
        (range_step j (col_length - 2) 1)) @
      [AAPV (at B_DCC1N) (vec base_row Vals (range_end j (col_length - 2) 1)),
       AAPV (at B_T0) (at C_0),
       AAPV (vec base_row Output 0) (at B_DCC1_T0_T3)])"

text \<open>The five programs allocate one array of operands and one output vector.\<close>

definition reduction_main ::
    "(nat \<Rightarrow> nat \<Rightarrow> vop list) \<Rightarrow> 'm hw \<Rightarrow> nat \<Rightarrow> nat \<Rightarrow> 'm prog \<Rightarrow> 'm prog option" where
  "reduction_main body hw col_length arg2 s = do {
     s \<leftarrow> init_ambit hw s;
     s \<leftarrow> random_vector_array hw Vals (per_col_bytes arg2) col_length s;
     s \<leftarrow> allocate_vector hw Output 0 (per_col_bytes arg2) s;
     Some (two_iterations hw (per_col_rows arg2) (body col_length) s) }"

definition xor_reduction_main :: "'m hw \<Rightarrow> nat \<Rightarrow> nat \<Rightarrow> 'm prog \<Rightarrow> 'm prog option" where
  "xor_reduction_main = reduction_main xor_reduction_body"

definition and_reduction_main :: "'m hw \<Rightarrow> nat \<Rightarrow> nat \<Rightarrow> 'm prog \<Rightarrow> 'm prog option" where
  "and_reduction_main = reduction_main and_reduction_body"

definition or_reduction_main :: "'m hw \<Rightarrow> nat \<Rightarrow> nat \<Rightarrow> 'm prog \<Rightarrow> 'm prog option" where
  "or_reduction_main = reduction_main or_reduction_body"

definition greater_equal_0_main :: "'m hw \<Rightarrow> nat \<Rightarrow> nat \<Rightarrow> 'm prog \<Rightarrow> 'm prog option" where
  "greater_equal_0_main = reduction_main greater_equal_0_body"

definition greater_than_0_main :: "'m hw \<Rightarrow> nat \<Rightarrow> nat \<Rightarrow> 'm prog \<Rightarrow> 'm prog option" where
  "greater_than_0_main = reduction_main greater_than_0_body"

text \<open>The parity of the first \<open>n\<close> bits.\<close>

primrec parity :: "nat \<Rightarrow> (nat \<Rightarrow> bool) \<Rightarrow> bool" where
  "parity 0 f = False"
| "parity (Suc n) f = (parity n f \<noteq> f n)"

text \<open>
  A loop over pairs of rows whose accumulator \<open>G p\<close> is held by some of the designated rows, as
  \<open>St\<close> says, and which leaves the data rows alone.
\<close>

lemma pair_loop:
  fixes b lo :: nat
  assumes step: "\<And>i B x. St x B \<Longrightarrow> St (g x (B (Data Vals (lo + 2 * i) b)) (B (Data Vals (Suc (lo + 2 * i)) b)))
        (lane_run (f (lo + 2 * i)) B)"
    and data: "\<And>i B l. l \<in> data_locs \<Longrightarrow> lane_run (f i) B l = B l"
    and inv: "\<And>p. G (Suc p) = g (G p) (B (Data Vals (lo + 2 * p) b)) (B (Data Vals (Suc (lo + 2 * p)) b))"
    and init: "St (G 0) B"
  shows "St (G ((hi - lo + 1) div 2)) (lane_run (concat (map f (range_step lo hi 1))) B)"
    and "l \<in> data_locs \<Longrightarrow> lane_run (concat (map f (range_step lo hi 1))) B l = B l"
proof -
  let ?R = "\<lambda>p. lane_run (concat (map (\<lambda>i. f (lo + 2 * i)) [0..<p])) B"
  have R: "concat (map f (range_step lo hi 1)) = concat (map (\<lambda>i. f (lo + 2 * i)) [0..<(hi - lo + 1) div 2])"
    by (simp only: range_step_two map_map o_def)
  have keep: "l \<in> data_locs \<Longrightarrow> ?R p l = B l" for l p
    by (induction p) (simp_all add: data)
  then show "l \<in> data_locs \<Longrightarrow> lane_run (concat (map f (range_step lo hi 1))) B l = B l" by (simp only: R)
  have "St (G p) (?R p)" for p
  proof (induction p)
    case (Suc p)
    from step [OF this, of p] show ?case by (simp add: inv keep)
  qed (simp add: init)
  then show "St (G ((hi - lo + 1) div 2)) (lane_run (concat (map f (range_step lo hi 1))) B)" by (simp only: R)
qed

lemma xor_pair:
  "B (Cell T1 0) = x \<and> B (Cell DCC1 0) = (\<not> x) \<Longrightarrow>
   lane_run (xor_pair (Vec a1 j1, o1) (Vec a2 j2, o2)) B (Cell T1 0) = ((x \<noteq> B (Data a1 j1 o1)) \<noteq> B (Data a2 j2 o2)) \<and>
   lane_run (xor_pair (Vec a1 j1, o1) (Vec a2 j2, o2)) B (Cell DCC1 0) = (\<not> ((x \<noteq> B (Data a1 j1 o1)) \<noteq> B (Data a2 j2 o2)))"
  by (cases x; cases "B (Data a1 j1 o1)"; cases "B (Data a2 j2 o2)")
     (simp_all add: xor_pair_def row_simps Let_def maj_def)

lemma and_pair:
  "B (Cell T3 0) = x \<Longrightarrow> lane_run (and_pair (Vec a1 j1, o1) (Vec a2 j2, o2)) B (Cell T3 0) =
     ((x \<and> B (Data a1 j1 o1)) \<and> B (Data a2 j2 o2))"
  by (cases x; cases "B (Data a1 j1 o1)"; cases "B (Data a2 j2 o2)")
     (simp_all add: and_pair_def row_simps Let_def maj_def)

lemma or_pair:
  "B (Cell T3 0) = x \<Longrightarrow> lane_run (or_pair (Vec a1 j1, o1) (Vec a2 j2, o2)) B (Cell T3 0) =
     ((x \<or> B (Data a1 j1 o1)) \<or> B (Data a2 j2 o2))"
  by (cases x; cases "B (Data a1 j1 o1)"; cases "B (Data a2 j2 o2)")
     (simp_all add: or_pair_def row_simps Let_def maj_def)

lemma pair_frames:
  "l \<in> data_locs \<Longrightarrow> lane_run (xor_pair v1 v2) B l = B l"
  "l \<in> data_locs \<Longrightarrow> lane_run (and_pair v1 v2) B l = B l"
  "l \<in> data_locs \<Longrightarrow> lane_run (or_pair v1 v2) B l = B l"
  by (erule data_locsE, hypsubst, rule lane_run_frameI, simp add: xor_pair_def and_pair_def or_pair_def)+

text \<open>Where the pair loop of a reduction over \<open>n\<close> rows starts, and that it reaches row \<open>n\<close>.\<close>

lemma pair_range:
  fixes n :: nat
  defines "lo \<equiv> of_bool (n mod 2 = 1)"
  shows "lo + 2 * ((n - 1 - lo + 1) div 2) = n"
  unfolding lo_def by (cases "n mod 2 = 1") (simp_all, presburger+)

lemma xor_reduction_lane:
  "lane_run (xor_reduction_body n b) B (Data Output 0 b) = parity n (\<lambda>j. B (Data Vals j b))"
  "a \<noteq> Output \<Longrightarrow> lane_run (xor_reduction_body n b) B (Data a j r) = B (Data a j r)"
proof -
  define lo :: nat where "lo = of_bool (n mod 2 = 1)"
  let ?v = "\<lambda>j. B (Data Vals j b)"
  let ?i = "parity lo ?v"
  let ?B = "B(Cell DCC1 0 := (\<not> ?i), Cell T1 0 := ?i)"
  let ?f = "\<lambda>j. xor_pair (Vec Vals j, b) (Vec Vals (j + 1), b)"
  have body: "lane_run (xor_reduction_body n b) B =
      lane_run [AAPV (Vec Output 0, b) (at B_T1)] (lane_run (concat (map ?f (range_step lo (n - 1) 1))) ?B)"
    by (cases "n mod 2 = 1") (simp_all add: xor_reduction_body_def lo_def row_simps)
  have step: "B' (Cell T1 0) = x \<and> B' (Cell DCC1 0) = (\<not> x) \<Longrightarrow>
      lane_run (?f (lo + 2 * i)) B' (Cell T1 0) = ((x \<noteq> B' (Data Vals (lo + 2 * i) b)) \<noteq> B' (Data Vals (Suc (lo + 2 * i)) b)) \<and>
      lane_run (?f (lo + 2 * i)) B' (Cell DCC1 0) = (\<not> ((x \<noteq> B' (Data Vals (lo + 2 * i) b)) \<noteq> B' (Data Vals (Suc (lo + 2 * i)) b)))"
    for i B' x using xor_pair [of B' x] by simp
  note loop = pair_loop [where St = "\<lambda>x B. B (Cell T1 0) = x \<and> B (Cell DCC1 0) = (\<not> x)" and f = ?f and B = ?B
      and lo = lo and hi = "n - 1" and b = b and g = "\<lambda>x y z. (x \<noteq> y) \<noteq> z" and G = "\<lambda>p. parity (lo + 2 * p) ?v",
      OF step pair_frames(1)]
  have "lane_run (concat (map ?f (range_step lo (n - 1) 1))) ?B (Cell T1 0) = parity n ?v"
    using loop(1) pair_range [of n, folded lo_def] by simp
  then show "lane_run (xor_reduction_body n b) B (Data Output 0 b) = parity n ?v"
    by (simp add: body row_simps)
  show "a \<noteq> Output \<Longrightarrow> lane_run (xor_reduction_body n b) B (Data a j r) = B (Data a j r)"
    using loop(2) [of "Data a j r"] by (simp add: body row_simps)
qed

lemma and_reduction_lane:
  "lane_run (and_reduction_body n b) B (Data Output 0 b) \<longleftrightarrow> (\<forall>j<n. B (Data Vals j b))"
  "a \<noteq> Output \<Longrightarrow> lane_run (and_reduction_body n b) B (Data a j r) = B (Data a j r)"
proof -
  define lo :: nat where "lo = of_bool (n mod 2 = 1)"
  let ?G = "\<lambda>n. \<forall>j<n. B (Data Vals j b)"
  let ?B = "B(Cell T3 0 := ?G lo)"
  let ?f = "\<lambda>j. and_pair (Vec Vals j, b) (Vec Vals (j + 1), b)"
  have body: "lane_run (and_reduction_body n b) B =
      lane_run [AAPV (Vec Output 0, b) (at B_T3)] (lane_run (concat (map ?f (range_step lo (n - 1) 1))) ?B)"
    by (cases "n mod 2 = 1") (simp_all add: and_reduction_body_def lo_def row_simps)
  have step: "B' (Cell T3 0) = x \<Longrightarrow> lane_run (?f (lo + 2 * i)) B' (Cell T3 0) =
      ((x \<and> B' (Data Vals (lo + 2 * i) b)) \<and> B' (Data Vals (Suc (lo + 2 * i)) b))" for i B' x
    using and_pair [of B' x] by simp
  note loop = pair_loop [where St = "\<lambda>x B. B (Cell T3 0) = x" and f = ?f and B = ?B and lo = lo and hi = "n - 1"
      and b = b and g = "\<lambda>x y z. (x \<and> y) \<and> z" and G = "\<lambda>p. ?G (lo + 2 * p)", OF step pair_frames(2)]
  have "lane_run (concat (map ?f (range_step lo (n - 1) 1))) ?B (Cell T3 0) \<longleftrightarrow> ?G n"
    using loop(1) pair_range [of n, folded lo_def] by (simp add: All_less_Suc conj_ac)
  then show "lane_run (and_reduction_body n b) B (Data Output 0 b) \<longleftrightarrow> ?G n"
    by (simp add: body row_simps)
  show "a \<noteq> Output \<Longrightarrow> lane_run (and_reduction_body n b) B (Data a j r) = B (Data a j r)"
    using loop(2) [of "Data a j r"] by (simp add: body row_simps All_less_Suc conj_ac)
qed

text \<open>The disjunction loop is shared by the reduction and the sign test.\<close>

lemma or_loop:
  fixes b lo hi :: nat and B :: bitline
  defines "B' \<equiv> lane_run (concat (map (\<lambda>j. or_pair (Vec Vals j, b) (Vec Vals (j + 1), b)) (range_step lo hi 1))) B"
  assumes "B (Cell T3 0) \<longleftrightarrow> (\<exists>j<lo. B (Data Vals j b))"
  shows "B' (Cell T3 0) \<longleftrightarrow> (\<exists>j<range_end lo hi 1. B (Data Vals j b))"
    and "l \<in> data_locs \<Longrightarrow> B' l = B l"
proof -
  let ?G = "\<lambda>n. \<exists>j<n. B (Data Vals j b)"
  let ?f = "\<lambda>j. or_pair (Vec Vals j, b) (Vec Vals (j + 1), b)"
  have step: "B' (Cell T3 0) = x \<Longrightarrow> lane_run (?f (lo + 2 * i)) B' (Cell T3 0) =
      ((x \<or> B' (Data Vals (lo + 2 * i) b)) \<or> B' (Data Vals (Suc (lo + 2 * i)) b))" for i B' x
    using or_pair [of B' x] by simp
  have G: "?G (lo + 2 * Suc p) = ((?G (lo + 2 * p) \<or> B (Data Vals (lo + 2 * p) b)) \<or> B (Data Vals (Suc (lo + 2 * p)) b))" for p
    by (auto simp: Ex_less_Suc)
  have init: "B (Cell T3 0) = ?G (lo + 2 * 0)" using assms(2) by simp
  note loop = pair_loop [where St = "\<lambda>x B. B (Cell T3 0) = x" and f = ?f and B = B and lo = lo and hi = hi
      and b = b and g = "\<lambda>x y z. (x \<or> y) \<or> z" and G = "\<lambda>p. ?G (lo + 2 * p)", OF step pair_frames(3) G init, folded B'_def]
  show "B' (Cell T3 0) \<longleftrightarrow> (\<exists>j<range_end lo hi 1. B (Data Vals j b))"
    unfolding range_end_two by (rule loop(1))
  show "l \<in> data_locs \<Longrightarrow> B' l = B l" by (rule loop(2))
qed

lemma or_reduction_lane:
  "lane_run (or_reduction_body n b) B (Data Output 0 b) \<longleftrightarrow> (\<exists>j<n. B (Data Vals j b))"
  "a \<noteq> Output \<Longrightarrow> lane_run (or_reduction_body n b) B (Data a j r) = B (Data a j r)"
proof -
  define lo :: nat where "lo = of_bool (n mod 2 = 1)"
  let ?B = "B(Cell T3 0 := \<exists>j<lo. B (Data Vals j b))"
  have body: "lane_run (or_reduction_body n b) B = lane_run [AAPV (Vec Output 0, b) (at B_T3)]
      (lane_run (concat (map (\<lambda>j. or_pair (Vec Vals j, b) (Vec Vals (j + 1), b)) (range_step lo (n - 1) 1))) ?B)"
    by (cases "n mod 2 = 1") (simp_all add: or_reduction_body_def lo_def row_simps)
  have "range_end lo (n - 1) 1 = n"
    using pair_range [of n, folded lo_def] by (simp only: range_end_two)
  with or_loop [where B = ?B and lo = lo and b = b and hi = "n - 1"]
  show "lane_run (or_reduction_body n b) B (Data Output 0 b) \<longleftrightarrow> (\<exists>j<n. B (Data Vals j b))"
    and "a \<noteq> Output \<Longrightarrow> lane_run (or_reduction_body n b) B (Data a j r) = B (Data a j r)"
    by (simp_all add: body row_simps)
qed

lemma greater_than_0_lane:
  assumes "0 < n"
  shows "lane_run (greater_than_0_body n b) B (Data Output 0 b) \<longleftrightarrow>
      \<not> B (Data Vals (n - 1) b) \<and> (\<exists>j<n. B (Data Vals j b))"
    and "a \<noteq> Output \<Longrightarrow> lane_run (greater_than_0_body n b) B (Data a j r) = B (Data a j r)"
proof -
  define lo :: nat where "lo = of_bool (n mod 2 = 0)"
  let ?B = "B(Cell T3 0 := \<exists>j<lo. B (Data Vals j b))"
  define C where
    "C = lane_run (concat (map (\<lambda>j. or_pair (Vec Vals j, b) (Vec Vals (j + 1), b)) (range_step lo (n - 2) 1))) ?B"
  have "lo + 2 * ((n - 2 - lo + 1) div 2) = n - 1"
    using assms unfolding lo_def by (cases "n mod 2 = 0") (simp_all, presburger+)
  then have top: "range_end lo (n - 2) 1 = n - 1" by (simp only: range_end_two)
  have body: "lane_run (greater_than_0_body n b) B = lane_run [AAPV (at B_DCC1N) (Vec Vals (n - 1), b),
      AAPV (at B_T0) (at C_0), AAPV (Vec Output 0, b) (at B_DCC1_T0_T3)] C"
    unfolding top [symmetric]
    by (cases "n mod 2 = 1") (simp_all add: greater_than_0_body_def C_def lo_def row_simps)
  have C: "C (Cell T3 0) \<longleftrightarrow> (\<exists>j<n - 1. B (Data Vals j b))" "\<And>a j r. C (Data a j r) = B (Data a j r)"
    using or_loop [where B = ?B and lo = lo and b = b and hi = "n - 2", folded C_def] top by simp_all
  have "\<not> B (Data Vals (n - 1) b) \<and> (\<exists>j<n - 1. B (Data Vals j b)) \<longleftrightarrow>
      \<not> B (Data Vals (n - 1) b) \<and> (\<exists>j<n. B (Data Vals j b))"
    using assms by (cases n) (auto simp: Ex_less_Suc)
  then show "lane_run (greater_than_0_body n b) B (Data Output 0 b) \<longleftrightarrow>
      \<not> B (Data Vals (n - 1) b) \<and> (\<exists>j<n. B (Data Vals j b))"
    by (simp add: body row_simps Let_def maj_def C [simplified])
  show "a \<noteq> Output \<Longrightarrow> lane_run (greater_than_0_body n b) B (Data a j r) = B (Data a j r)"
    by (simp add: body row_simps Let_def C [simplified])
qed

lemma greater_equal_0_lane:
  "lane_run (greater_equal_0_body n b) B (Data Output 0 b) \<longleftrightarrow> \<not> B (Data Vals (n - 1) b)"
  "a \<noteq> Output \<Longrightarrow> lane_run (greater_equal_0_body n b) B (Data a j r) = B (Data a j r)"
  by (simp_all add: greater_equal_0_body_def row_simps)

lemma reduction_ok:
  "body_ok UNIV (xor_reduction_body n)" "body_ok UNIV (and_reduction_body n)" "body_ok UNIV (or_reduction_body n)"
  "body_ok UNIV (greater_equal_0_body n)" "body_ok UNIV (greater_than_0_body n)"
  by (simp_all add: body_ok_def xor_reduction_body_def and_reduction_body_def or_reduction_body_def
      greater_equal_0_body_def greater_than_0_body_def xor_pair_def and_pair_def or_pair_def)

context ambit_substrate
begin

text \<open>
  The shared program: a body that computes one output row from the value rows of its lane.
\<close>

lemma reduction_program:
  assumes "alloc_ok hw" "R < per_col_rows arg2" "body_ok UNIV (body n)"
    and "\<And>b B. lane_run (body n b) B (Data Output 0 b) = F (\<lambda>j. B (Data Vals j b))"
    and "\<And>b B j. lane_run (body n b) B (Data Vals j b) = B (Data Vals j b)"
  shows "\<exists>s'. reduction_main body hw n arg2 s = Some s' \<and>
    peek (dram s') (Data Output 0 R) c = F (\<lambda>j. peek (dram s') (Data Vals j R) c)"
proof -
  let ?P = "\<lambda>f. f Output 0 = F (f Vals)"
  have "?P (\<lambda>a j. lane_run (body n b) B (Data a j b))" for b B
    by (simp add: assms(4,5))
  then have "?P (\<lambda>a j. peek (dram (two_iterations hw (per_col_rows arg2) (body n) s)) (Data a j R) c)" for s
    by (rule program_columns_UNIV [OF assms(3,2), of ?P])
  then show ?thesis
    by (simp add: reduction_main_def alloc_simps [OF assms(1)])
qed

lemma xor_reduction_program:
  assumes "alloc_ok hw" "R < per_col_rows arg2"
  shows "\<exists>s'. xor_reduction_main hw n arg2 s = Some s' \<and>
    peek (dram s') (Data Output 0 R) c = parity n (\<lambda>j. peek (dram s') (Data Vals j R) c)"
  unfolding xor_reduction_main_def
  by (rule reduction_program [OF assms reduction_ok(1), where F = "parity n"]) (simp_all add: xor_reduction_lane)

lemma and_reduction_program:
  assumes "alloc_ok hw" "R < per_col_rows arg2"
  shows "\<exists>s'. and_reduction_main hw n arg2 s = Some s' \<and>
    peek (dram s') (Data Output 0 R) c = (\<forall>j<n. peek (dram s') (Data Vals j R) c)"
  unfolding and_reduction_main_def
  by (rule reduction_program [OF assms reduction_ok(2), where F = "\<lambda>v. \<forall>j<n. v j"]) (simp_all add: and_reduction_lane)

lemma or_reduction_program:
  assumes "alloc_ok hw" "R < per_col_rows arg2"
  shows "\<exists>s'. or_reduction_main hw n arg2 s = Some s' \<and>
    peek (dram s') (Data Output 0 R) c = (\<exists>j<n. peek (dram s') (Data Vals j R) c)"
  unfolding or_reduction_main_def
  by (rule reduction_program [OF assms reduction_ok(3), where F = "\<lambda>v. \<exists>j<n. v j"]) (simp_all add: or_reduction_lane)

lemma greater_equal_0_program:
  assumes "alloc_ok hw" "R < per_col_rows arg2"
  shows "\<exists>s'. greater_equal_0_main hw n arg2 s = Some s' \<and>
    peek (dram s') (Data Output 0 R) c = (\<not> peek (dram s') (Data Vals (n - 1) R) c)"
  unfolding greater_equal_0_main_def
  by (rule reduction_program [OF assms reduction_ok(4), where F = "\<lambda>v. \<not> v (n - 1)"])
     (simp_all add: greater_equal_0_lane)

lemma greater_than_0_program:
  assumes "alloc_ok hw" "R < per_col_rows arg2" "0 < n"
  shows "\<exists>s'. greater_than_0_main hw n arg2 s = Some s' \<and>
    peek (dram s') (Data Output 0 R) c =
      (\<not> peek (dram s') (Data Vals (n - 1) R) c \<and> column_val peek (dram s') Vals n R c \<noteq> 0)"
  unfolding greater_than_0_main_def column_val_def
  by (rule reduction_program [OF assms(1,2) reduction_ok(5), where F = "\<lambda>v. \<not> v (n - 1) \<and> bits_val n v \<noteq> 0"])
     (simp_all add: greater_than_0_lane [OF assms(3)] bits_val_eq_0 del: neq0_conv)

end

section \<open>Comparisons\<close>

definition greater_body :: "nat \<Rightarrow> nat \<Rightarrow> vop list" where
  "greater_body col_length base_row =
     [AAPV (at B_T2) (at C_0)] @
     concat (map (\<lambda>j. cmp_step (vec base_row Vals1 j) (vec base_row Vals2 j)) [0..<col_length]) @
     [AAPV (vec base_row Output 0) (at B_T2)]"

definition greater_equal_body :: "nat \<Rightarrow> nat \<Rightarrow> vop list" where
  "greater_equal_body col_length base_row =
     [AAPV (at B_T2) (at C_1)] @
     concat (map (\<lambda>j. cmp_step (vec base_row Vals1 j) (vec base_row Vals2 j)) [0..<col_length]) @
     [AAPV (vec base_row Output 0) (at B_T2)]"

definition eq_step :: "addr \<Rightarrow> addr \<Rightarrow> vop list" where
  "eq_step v1 v2 =
    [ AAPV (at B_DCC0N_T0) v1,
      AAPV (at B_DCC1N_T1) v2,
      APV (at B_DCC0_T1_T2),
      APV (at B_DCC1_T0_T3) ]"

definition equal_body :: "nat \<Rightarrow> nat \<Rightarrow> vop list" where
  "equal_body col_length base_row =
     [AAPV (at B_T2_T3) (at C_1)] @
     concat (map (\<lambda>j. eq_step (vec base_row Vals1 j) (vec base_row Vals2 j)) [0..<col_length]) @
     [AAPV (at B_T1) (at C_0), AAPV (vec base_row Output 0) (at B_T0_T1_T2)]"

definition comparison_main ::
    "(nat \<Rightarrow> nat \<Rightarrow> vop list) \<Rightarrow> 'm hw \<Rightarrow> nat \<Rightarrow> nat \<Rightarrow> 'm prog \<Rightarrow> 'm prog option" where
  "comparison_main body hw col_length arg2 s = do {
     s \<leftarrow> init_ambit hw s;
     s \<leftarrow> random_vector_array hw Vals1 (per_col_bytes arg2) col_length s;
     s \<leftarrow> random_vector_array hw Vals2 (per_col_bytes arg2) col_length s;
     s \<leftarrow> allocate_vector hw Output 0 (per_col_bytes arg2) s;
     Some (two_iterations hw (per_col_rows arg2) (body col_length) s) }"

definition greater_main :: "'m hw \<Rightarrow> nat \<Rightarrow> nat \<Rightarrow> 'm prog \<Rightarrow> 'm prog option" where
  "greater_main = comparison_main greater_body"

definition greater_equal_main :: "'m hw \<Rightarrow> nat \<Rightarrow> nat \<Rightarrow> 'm prog \<Rightarrow> 'm prog option" where
  "greater_equal_main = comparison_main greater_equal_body"

definition equal_main :: "'m hw \<Rightarrow> nat \<Rightarrow> nat \<Rightarrow> 'm prog \<Rightarrow> 'm prog option" where
  "equal_main = comparison_main equal_body"

lemma cmp_chain:
  fixes b n :: nat and B :: bitline
  defines "C \<equiv> lane_run (concat (map (\<lambda>j. cmp_step (Vec Vals1 j, b) (Vec Vals2 j, b)) [0..<n])) B"
  shows "C (Cell T2 0) \<longleftrightarrow> carry (\<lambda>j. B (Data Vals1 j b)) (\<lambda>j. \<not> B (Data Vals2 j b)) (B (Cell T2 0)) n"
    and "C (Data a j r) = B (Data a j r)"
  unfolding C_def
  by (rule cmp_loop(1) [where b = b, OF cmp_step_T2(1) cmp_step_frame(1)])
     (rule cmp_loop(2) [where b = b, OF cmp_step_T2(1) cmp_step_frame(1)])

lemma greater_lane:
  "lane_run (greater_body n b) B (Data Output 0 b) \<longleftrightarrow>
     bits_val n (\<lambda>j. B (Data Vals2 j b)) < bits_val n (\<lambda>j. B (Data Vals1 j b))"
  "a \<noteq> Output \<Longrightarrow> lane_run (greater_body n b) B (Data a j r) = B (Data a j r)"
  by (simp_all add: greater_body_def row_simps cmp_chain carry_compl_gt)

lemma greater_equal_lane:
  "lane_run (greater_equal_body n b) B (Data Output 0 b) \<longleftrightarrow>
     bits_val n (\<lambda>j. B (Data Vals2 j b)) \<le> bits_val n (\<lambda>j. B (Data Vals1 j b))"
  "a \<noteq> Output \<Longrightarrow> lane_run (greater_equal_body n b) B (Data a j r) = B (Data a j r)"
  by (simp_all add: greater_equal_body_def row_simps cmp_chain carry_compl_ge)

lemma eq_step:
  "lane_run (eq_step (Vec a1 j1, o1) (Vec a2 j2, o2)) B (Cell T2 0) = maj (B (Data a2 j2 o2)) (\<not> B (Data a1 j1 o1)) (B (Cell T2 0))"
  "lane_run (eq_step (Vec a1 j1, o1) (Vec a2 j2, o2)) B (Cell T3 0) = maj (B (Data a1 j1 o1)) (\<not> B (Data a2 j2 o2)) (B (Cell T3 0))"
  "lane_run (eq_step (Vec a1 j1, o1) (Vec a2 j2, o2)) B (Cell T0 0) = lane_run (eq_step (Vec a1 j1, o1) (Vec a2 j2, o2)) B (Cell T3 0)"
  "l \<in> data_locs \<Longrightarrow> lane_run (eq_step v1 v2) B l = B l"
     apply (auto simp: eq_step_def row_simps Let_def maj_def)[3]
  by (erule data_locsE, hypsubst, rule lane_run_frameI) (simp add: eq_step_def)

lemma equal_lane:
  assumes "0 < n"
  shows "lane_run (equal_body n b) B (Data Output 0 b) \<longleftrightarrow>
      bits_val n (\<lambda>j. B (Data Vals1 j b)) = bits_val n (\<lambda>j. B (Data Vals2 j b))"
    and "a \<noteq> Output \<Longrightarrow> lane_run (equal_body n b) B (Data a j r) = B (Data a j r)"
proof -
  let ?B = "B(Cell T2 0 := True, Cell T3 0 := True)"
  let ?f = "\<lambda>j. eq_step (Vec Vals1 j, b) (Vec Vals2 j, b)"
  define C where "C = lane_run (concat (map ?f [0..<n])) ?B"
  have reads: "B1 (Data a1 k b) = B2 (Data a1 k b) \<and> (\<not> B1 (Data a2 k b)) = (\<not> B2 (Data a2 k b))"
    if "\<And>l. l \<in> data_locs \<Longrightarrow> B1 l = B2 l" for k B1 B2 a1 a2
    using that by simp
  have T2: "C (Cell T2 0) \<longleftrightarrow> bits_val n (\<lambda>j. B (Data Vals1 j b)) \<le> bits_val n (\<lambda>j. B (Data Vals2 j b))"
    unfolding C_def by (subst carry_loop(1) [where f = ?f, OF eq_step(1,4) reads]) (simp_all add: carry_compl_ge)
  have T3: "C (Cell T3 0) \<longleftrightarrow> bits_val n (\<lambda>j. B (Data Vals2 j b)) \<le> bits_val n (\<lambda>j. B (Data Vals1 j b))"
    unfolding C_def by (subst carry_loop(1) [where f = ?f, OF eq_step(2,4) reads]) (simp_all add: carry_compl_ge)
  have T0: "C (Cell T0 0) = C (Cell T3 0)"
    using assms unfolding C_def by (cases n) (simp_all add: eq_step(3))
  have data: "C (Data a j r) = B (Data a j r)" for a j r
    unfolding C_def by (subst carry_loop(2) [where f = ?f, OF eq_step(1,4) reads]) simp_all
  have body: "lane_run (equal_body n b) B = lane_run [AAPV (at B_T1) (at C_0), AAPV (Vec Output 0, b) (at B_T0_T1_T2)] C"
    by (simp add: equal_body_def C_def row_simps)
  show "lane_run (equal_body n b) B (Data Output 0 b) \<longleftrightarrow>
      bits_val n (\<lambda>j. B (Data Vals1 j b)) = bits_val n (\<lambda>j. B (Data Vals2 j b))"
    by (auto simp: body row_simps Let_def maj_def T0 T2 T3)
  show "a \<noteq> Output \<Longrightarrow> lane_run (equal_body n b) B (Data a j r) = B (Data a j r)"
    by (simp add: body row_simps Let_def data)
qed

lemma comparison_ok:
  "body_ok UNIV (greater_body n)" "body_ok UNIV (greater_equal_body n)" "body_ok UNIV (equal_body n)"
  by (simp_all add: body_ok_def greater_body_def greater_equal_body_def equal_body_def cmp_step_def eq_step_def)

context ambit_substrate
begin

lemma comparison_program:
  assumes "alloc_ok hw" "R < per_col_rows arg2" "body_ok UNIV (body n)"
    and "\<And>b B. lane_run (body n b) B (Data Output 0 b) =
      F (bits_val n (\<lambda>j. B (Data Vals1 j b))) (bits_val n (\<lambda>j. B (Data Vals2 j b)))"
    and "\<And>b B a j. a \<noteq> Output \<Longrightarrow> lane_run (body n b) B (Data a j b) = B (Data a j b)"
  shows "\<exists>s'. comparison_main body hw n arg2 s = Some s' \<and>
    peek (dram s') (Data Output 0 R) c = F (column_val peek (dram s') Vals1 n R c) (column_val peek (dram s') Vals2 n R c)"
proof -
  let ?P = "\<lambda>f. f Output 0 = F (bits_val n (f Vals1)) (bits_val n (f Vals2))"
  have "?P (\<lambda>a j. lane_run (body n b) B (Data a j b))" for b B
    by (simp add: assms(4,5))
  from program_columns [OF assms(3,2), of ?P, OF this] show ?thesis
    by (auto simp: comparison_main_def alloc_simps [OF assms(1)] column_val_def cong: bits_val_cong)
qed

lemma greater_program:
  assumes "alloc_ok hw" "R < per_col_rows arg2"
  shows "\<exists>s'. greater_main hw n arg2 s = Some s' \<and> peek (dram s') (Data Output 0 R) c =
    (column_val peek (dram s') Vals2 n R c < column_val peek (dram s') Vals1 n R c)"
  unfolding greater_main_def
  by (rule comparison_program [OF assms comparison_ok(1), where F = "\<lambda>x y. y < x"]) (simp_all add: greater_lane)

lemma greater_equal_program:
  assumes "alloc_ok hw" "R < per_col_rows arg2"
  shows "\<exists>s'. greater_equal_main hw n arg2 s = Some s' \<and> peek (dram s') (Data Output 0 R) c =
    (column_val peek (dram s') Vals2 n R c \<le> column_val peek (dram s') Vals1 n R c)"
  unfolding greater_equal_main_def
  by (rule comparison_program [OF assms comparison_ok(2), where F = "\<lambda>x y. y \<le> x"]) (simp_all add: greater_equal_lane)

lemma equal_program:
  assumes "alloc_ok hw" "R < per_col_rows arg2" "0 < n"
  shows "\<exists>s'. equal_main hw n arg2 s = Some s' \<and> peek (dram s') (Data Output 0 R) c =
    (column_val peek (dram s') Vals1 n R c = column_val peek (dram s') Vals2 n R c)"
  unfolding equal_main_def
  by (rule comparison_program [OF assms(1,2) comparison_ok(3), where F = "\<lambda>x y. x = y"])
     (simp_all add: equal_lane [OF assms(3)])

end

section \<open>Selection\<close>

definition if_then_else_body :: "nat \<Rightarrow> nat \<Rightarrow> vop list" where
  "if_then_else_body col_length base_row =
     concat (map (\<lambda>j. select_step (vec base_row Selection 0) (vec base_row Vals1 j) (vec base_row Vals2 j)
       (vec base_row Output j)) [0..<col_length])"

definition if_then_else_main :: "'m hw \<Rightarrow> nat \<Rightarrow> nat \<Rightarrow> 'm prog \<Rightarrow> 'm prog option" where
  "if_then_else_main hw col_length arg2 s = do {
     s \<leftarrow> init_ambit hw s;
     s \<leftarrow> random_vector_array hw Vals1 (per_col_bytes arg2) col_length s;
     s \<leftarrow> random_vector_array hw Vals2 (per_col_bytes arg2) col_length s;
     s \<leftarrow> random_vector hw Selection (per_col_bytes arg2) s;
     s \<leftarrow> allocate_vector_array hw Output (per_col_bytes arg2) col_length s;
     Some (two_iterations hw (per_col_rows arg2) (if_then_else_body col_length) s) }"

lemma if_then_else_ok: "body_ok UNIV (if_then_else_body n)"
  by (simp add: body_ok_def if_then_else_body_def select_step_def)

context ambit_substrate
begin

lemma if_then_else_program:
  assumes "alloc_ok hw" "R < per_col_rows arg2"
  shows "\<exists>s'. if_then_else_main hw n arg2 s = Some s' \<and>
    column_val peek (dram s') Output n R c =
      (if peek (dram s') (Data Selection 0 R) c then 2 ^ n - 1 else column_val peek (dram s') Vals2 n R c)"
proof -
  let ?P = "\<lambda>f. bits_val n (f Output) = (if f Selection 0 then 2 ^ n - 1 else bits_val n (f Vals2))"
  have "?P (\<lambda>a j. lane_run (if_then_else_body n b) B (Data a j b))" for b B
    by (simp add: if_then_else_body_def select_loop bits_val_or_const cong: bits_val_cong)
  from program_columns [OF if_then_else_ok assms(2), of ?P, OF this] show ?thesis
    by (auto simp: if_then_else_main_def alloc_simps [OF assms(1)] column_val_def cong: bits_val_cong)
qed

end

end
