(* ===== verification/Sign_Workloads.thy ===== *)
theory Sign_Workloads
  imports Arith_Workloads
begin

text \<open>
  The two's complement workloads \<open>microworkloads/50_abs-plus.c\<close> and \<open>51_relu-plus.c\<close>. The lemmas
  describe what the command sequences compute on the documented substrate, which is not the absolute
  value and, over the two iterations of the program, not the rectified value either.
\<close>

section \<open>Absolute value\<close>

definition abs_carry_step :: "addr \<Rightarrow> addr \<Rightarrow> vop list" where
  "abs_carry_step v c_out =
    [ AAPV (at B_T3) (at C_0), AAPV (at B_DCC1N) v, AAPV c_out (at B_DCC1_T0_T3) ]"

definition abs_step :: "addr \<Rightarrow> addr \<Rightarrow> addr \<Rightarrow> addr \<Rightarrow> vop list" where
  "abs_step sign c_in v out =
    [ AAPV (at B_DCC0N_T0) sign,
      AAPV (at B_DCC1N_T1) c_in,
      AAPV (at B_T3) v,
      AAPV (at B_T3) (at B_DCC0_T1_T2),
      AAPV (at B_T2) (at B_DCC1_T0_T3),
      AAPV (at B_DCC0N) v,
      AAPV out (at B_DCC0_T1_T2) ]"

definition abs_body :: "nat \<Rightarrow> nat \<Rightarrow> vop list" where
  "abs_body col_length base_row =
     (let sign = vec base_row Vals (col_length - 1) in
      [AAPV (at B_T0) sign, AAPV (at (Vec Carries 0)) (at B_T0)] @
      concat (map (\<lambda>j. abs_carry_step (vec base_row Vals j) (at (Vec Carries (j + 1)))) [0..<col_length - 1]) @
      concat (map (\<lambda>j. abs_step sign (at (Vec Carries j)) (vec base_row Vals j) (vec base_row Output j))
        [0..<col_length]))"

definition abs_main :: "'m hw \<Rightarrow> nat \<Rightarrow> nat \<Rightarrow> 'm prog \<Rightarrow> 'm prog option" where
  "abs_main hw col_length arg2 s = do {
     s \<leftarrow> init_ambit hw s;
     s \<leftarrow> random_vector_array hw Vals (per_col_bytes arg2) col_length s;
     s \<leftarrow> allocate_vector_array hw Output (per_col_bytes arg2) col_length s;
     s \<leftarrow> (if per_col_bytes arg2 \<le> ALIGNMENT
          then allocate_vector_array hw Carries (per_col_bytes arg2) col_length s
          else allocate_vector_array hw Carries ALIGNMENT col_length s);
     Some (two_iterations hw (per_col_rows arg2) (abs_body col_length) s) }"

text \<open>The first loop computes the carries of the negation, kept only where the value is negative.\<close>

lemma abs_carry_loop:
  fixes b :: nat and B :: bitline
  defines "R \<equiv> \<lambda>m. lane_run (concat (map (\<lambda>j. abs_carry_step (Vec Vals j, b) (Vec Carries (Suc j), 0)) [0..<m])) B"
  shows "R m (Cell T0 0) \<longleftrightarrow> B (Cell T0 0) \<and> (\<forall>i<m. \<not> B (Data Vals i b))"
    and "0 < j \<Longrightarrow> j \<le> m \<Longrightarrow> R m (Data Carries j 0) \<longleftrightarrow> B (Cell T0 0) \<and> (\<forall>i<j. \<not> B (Data Vals i b))"
    and "R m (Data Carries 0 0) = B (Data Carries 0 0)"
    and "a \<noteq> Carries \<Longrightarrow> R m (Data a j r) = B (Data a j r)"
    and "R m (Cell T2 0) = B (Cell T2 0)"
proof -
  have R: "R 0 = B" "R (Suc m) = lane_run (abs_carry_step (Vec Vals m, b) (Vec Carries (Suc m), 0)) (R m)" for m
    by (simp_all add: R_def)
  show data: "a \<noteq> Carries \<Longrightarrow> R m (Data a j r) = B (Data a j r)" for a j r m
    by (induction m) (simp_all add: R abs_carry_step_def row_simps Let_def)
  show "R m (Cell T2 0) = B (Cell T2 0)" by (induction m) (simp_all add: R abs_carry_step_def row_simps Let_def)
  show "R m (Data Carries 0 0) = B (Data Carries 0 0)"
    by (induction m) (simp_all add: R abs_carry_step_def row_simps Let_def)
  show T0: "R m (Cell T0 0) \<longleftrightarrow> B (Cell T0 0) \<and> (\<forall>i<m. \<not> B (Data Vals i b))" for m
    by (induction m) (auto simp: R abs_carry_step_def row_simps Let_def maj_def All_less_Suc data)
  show "0 < j \<Longrightarrow> j \<le> m \<Longrightarrow> R m (Data Carries j 0) \<longleftrightarrow> B (Cell T0 0) \<and> (\<forall>i<j. \<not> B (Data Vals i b))"
    by (induction m) (auto simp: R abs_carry_step_def row_simps Let_def maj_def All_less_Suc data T0 le_Suc_eq)
qed

lemma abs_step:
  fixes B :: bitline and b j jc js :: nat
  assumes "B (Data Carries jc 0) \<Longrightarrow> B (Data Vals js b)"
  defines "B' \<equiv> lane_run (abs_step (Vec Vals js, b) (Vec Carries jc, 0) (Vec Vals j, b) (Vec Output j, b)) B"
  shows "B' (Data Output j b) =
      (if B (Data Vals js b) \<and> \<not> B (Data Carries jc 0) then \<not> B (Data Vals j b) else B (Cell T2 0))"
    and "B' (Cell T2 0) = B' (Data Output j b)"
  using assms(1) unfolding B'_def
  by (cases "B (Data Carries jc 0)"; cases "B (Data Vals js b)"; cases "B (Data Vals j b)"; cases "B (Cell T2 0)";
      simp add: abs_step_def row_simps Let_def maj_def)+

lemma abs_step_frame:
  "(a, i, r) \<noteq> (Output, j, b) \<Longrightarrow> lane_run (abs_step s c v (Vec Output j, b)) B (Data a i r) = B (Data a i r)"
  by (rule lane_run_frameI) (auto simp: abs_step_def)

text \<open>
  A negative value is negated above its lowest set bit. Every other output bit is whatever row T2
  held when the body started: the value is written to T3 where the adder reads T2.
\<close>

lemma abs_lane:
  fixes B :: bitline and b n :: nat
  assumes "0 < n"
  defines "B' \<equiv> lane_run (abs_body n b) B"
  shows "j < n \<Longrightarrow> B' (Data Output j b) =
      (if B (Data Vals (n - 1) b) \<and> (\<exists>i<j. B (Data Vals i b)) then \<not> B (Data Vals j b) else B (Cell T2 0))"
    and "B' (Data Vals i r) = B (Data Vals i r)"
proof -
  let ?s = "B (Data Vals (n - 1) b)"
  let ?I = "B(Cell T0 0 := ?s, Data Carries 0 0 := ?s)"
  define C where "C = lane_run (concat (map (\<lambda>j. abs_carry_step (Vec Vals j, b) (Vec Carries (Suc j), 0)) [0..<n - 1])) ?I"
  note carries = abs_carry_loop [where b = b and B = ?I and m = "n - 1", folded C_def]
  define R where "R m = lane_run (concat (map (\<lambda>j. abs_step (Vec Vals (n - 1), b) (Vec Carries j, 0) (Vec Vals j, b)
      (Vec Output j, b)) [0..<m])) C" for m
  have R: "R 0 = C" "R (Suc m) = lane_run (abs_step (Vec Vals (n - 1), b) (Vec Carries m, 0) (Vec Vals m, b) (Vec Output m, b)) (R m)" for m
    by (simp_all add: R_def)
  have body: "B' = R n"
    by (simp add: B'_def abs_body_def C_def R_def Let_def row_simps)
  have frame: "a \<noteq> Output \<Longrightarrow> R m (Data a j r) = C (Data a j r)" for a j r m
    by (induction m) (simp_all add: R abs_step_frame)
  have c: "C (Data Carries j 0) \<longleftrightarrow> ?s \<and> (\<forall>i<j. \<not> B (Data Vals i b))" if "j < n" for j
    using that carries(2) [of j] carries(3) by (cases "j = 0") auto
  have v: "C (Data Vals j r) = B (Data Vals j r)" for j r using carries(4) by simp
  let ?out = "\<lambda>j. if ?s \<and> (\<exists>i<j. B (Data Vals i b)) then \<not> B (Data Vals j b) else B (Cell T2 0)"
  have "m \<le> n \<Longrightarrow> (\<forall>j<m. R m (Data Output j b) = ?out j) \<and>
      (\<not> (?s \<and> (\<exists>i<m. B (Data Vals i b))) \<longrightarrow> R m (Cell T2 0) = B (Cell T2 0))" for m
  proof (induction m)
    case 0
    then show ?case using carries(5) by (simp add: R)
  next
    case (Suc m)
    let ?B = "R m"
    have pre: "?B (Data Carries m 0) \<Longrightarrow> ?B (Data Vals (n - 1) b)"
      using Suc.prems by (simp add: frame c v)
    have out: "R (Suc m) (Data Output m b) = ?out m" and T2: "R (Suc m) (Cell T2 0) = ?out m"
      using abs_step [where B = ?B and jc = m and js = "n - 1" and b = b and j = m, OF pre] Suc
      by (auto simp: R frame c v)
    show ?case
    proof (intro conjI allI impI)
      show "R (Suc m) (Data Output j b) = ?out j" if "j < Suc m" for j
        using that out Suc by (cases "j = m") (auto simp: R(2) abs_step_frame)
      show "R (Suc m) (Cell T2 0) = B (Cell T2 0)" if "\<not> (?s \<and> (\<exists>i<Suc m. B (Data Vals i b)))"
        using that T2 by (auto simp: Ex_less_Suc)
    qed
  qed
  then show "j < n \<Longrightarrow> B' (Data Output j b) = ?out j" by (simp add: body)
  show "B' (Data Vals i r) = B (Data Vals i r)" by (simp add: body frame v)
qed

lemma abs_ok: "body_ok (- {Carries}) (abs_body n)"
  by (simp add: body_ok_def abs_body_def abs_carry_step_def abs_step_def Let_def)

context ambit_substrate
begin

lemma abs_program:
  assumes "alloc_ok hw" "R < per_col_rows arg2" "0 < n"
  shows "\<exists>s' t. abs_main hw n arg2 s = Some s' \<and>
    (\<forall>j<n. peek (dram s') (Data Output j R) c =
      (if peek (dram s') (Data Vals (n - 1) R) c \<and> (\<exists>i<j. peek (dram s') (Data Vals i R) c)
       then \<not> peek (dram s') (Data Vals j R) c else t))"
proof -
  let ?P = "\<lambda>f. \<exists>t. \<forall>j<n. f Output j = (if f Vals (n - 1) \<and> (\<exists>i<j. f Vals i) then \<not> f Vals j else t)"
  have "?P (\<lambda>a j. lane_run (abs_body n b) B (Data a j b))" for b B
    by (rule exI [of _ "B (Cell T2 0)"]) (auto simp: abs_lane [OF assms(3)])
  moreover have "?P g" if "\<And>a j. a \<in> - {Carries} \<Longrightarrow> f a j = g a j" "?P f" for f g
  proof -
    have "f Output = g Output" "f Vals = g Vals" using that(1) by (auto intro!: ext)
    with that(2) show ?thesis by (simp only:)
  qed
  ultimately have "?P (\<lambda>a j. peek (dram (two_iterations hw (per_col_rows arg2) (abs_body n) s)) (Data a j R) c)" for s
    by (rule program_columns [OF abs_ok assms(2), of ?P])
  then show ?thesis
    by (simp add: abs_main_def alloc_simps [OF assms(1)])
qed

end

section \<open>Rectification\<close>

definition relu_pair :: "addr \<Rightarrow> addr \<Rightarrow> addr \<Rightarrow> addr \<Rightarrow> addr \<Rightarrow> vop list" where
  "relu_pair sign v out v' out' =
    [ AAPV (at B_T0_T1_T2) sign,
      AAPV (at B_T2_T3) (at C_0),
      AAPV (at B_DCC0) v,
      AAPV out (at B_DCC0_T1_T2),
      AAPV (at B_DCC1) v',
      AAPV out' (at B_DCC1_T0_T3) ]"

definition relu_body :: "nat \<Rightarrow> nat \<Rightarrow> vop list" where
  "relu_body col_length base_row =
     (let msb = vec base_row Vals (col_length - 1); sign = at (Vec Tmp_sign 0);
          j = range_end 0 (col_length - 2) 1 in
      [AAPV (at B_DCC0N) msb, AAPV sign (at B_DCC0)] @
      concat (map (\<lambda>j. relu_pair sign (vec base_row Vals j) (vec base_row Output j)
          (vec base_row Vals (j + 1)) (vec base_row Output (j + 1)))
        (range_step 0 (col_length - 2) 1)) @
      (if col_length = j + 2
       then [AAPV (at B_T0) sign, AAPV (at B_T1) (at C_0), AAPV (at B_T2) (vec base_row Vals j),
             AAPV (vec base_row Output j) (at B_T0_T1_T2)]
       else []) @
      [AAPV msb (at C_0)])"

definition relu_setup :: "'m hw \<Rightarrow> nat \<Rightarrow> nat \<Rightarrow> 'm prog \<Rightarrow> 'm prog option" where
  "relu_setup hw col_length arg2 s = do {
     s \<leftarrow> init_ambit hw s;
     s \<leftarrow> random_vector_array hw Vals (per_col_bytes arg2) col_length s;
     s \<leftarrow> allocate_vector_array hw Output (per_col_bytes arg2) col_length s;
     if per_col_bytes arg2 \<le> ALIGNMENT then allocate_vector hw Tmp_sign 0 (per_col_bytes arg2) s
     else allocate_vector hw Tmp_sign 0 ALIGNMENT s }"

definition relu_main :: "'m hw \<Rightarrow> nat \<Rightarrow> nat \<Rightarrow> 'm prog \<Rightarrow> 'm prog option" where
  "relu_main hw col_length arg2 s = do {
     s \<leftarrow> relu_setup hw col_length arg2 s;
     Some (two_iterations hw (per_col_rows arg2) (relu_body col_length) s) }"

lemma relu_pair:
  fixes b k :: nat
  defines "B' \<equiv> \<lambda>B. lane_run (relu_pair (Vec Tmp_sign 0, 0) (Vec Vals k, b) (Vec Output k, b)
      (Vec Vals (Suc k), b) (Vec Output (Suc k), b)) B"
  shows "B' B (Data Output i b) =
      (if i = k \<or> i = Suc k then B (Data Tmp_sign 0 0) \<and> B (Data Vals i b) else B (Data Output i b))"
    and "a \<noteq> Output \<Longrightarrow> B' B (Data a j r) = B (Data a j r)"
   apply (auto simp: B'_def relu_pair_def row_simps Let_def maj_def)[1]
  unfolding B'_def by (rule lane_run_frameI) (auto simp: relu_pair_def)

lemma relu_loop:
  fixes b :: nat and B :: bitline
  defines "R \<equiv> \<lambda>p. lane_run (concat (map (\<lambda>i. relu_pair (Vec Tmp_sign 0, 0) (Vec Vals (2 * i), b) (Vec Output (2 * i), b)
      (Vec Vals (Suc (2 * i)), b) (Vec Output (Suc (2 * i)), b)) [0..<p])) B"
  shows "i < 2 * p \<Longrightarrow> R p (Data Output i b) \<longleftrightarrow> B (Data Tmp_sign 0 0) \<and> B (Data Vals i b)"
    and "a \<noteq> Output \<Longrightarrow> R p (Data a j r) = B (Data a j r)"
proof -
  have R: "R 0 = B" "R (Suc p) = lane_run (relu_pair (Vec Tmp_sign 0, 0) (Vec Vals (2 * p), b) (Vec Output (2 * p), b)
      (Vec Vals (Suc (2 * p)), b) (Vec Output (Suc (2 * p)), b)) (R p)" for p
    by (simp_all add: R_def)
  have data: "a \<noteq> Output \<Longrightarrow> R p (Data a j r) = B (Data a j r)" for p a j r
    by (induction p) (simp_all add: R relu_pair)
  then show "a \<noteq> Output \<Longrightarrow> R p (Data a j r) = B (Data a j r)" .
  show "i < 2 * p \<Longrightarrow> R p (Data Output i b) \<longleftrightarrow> B (Data Tmp_sign 0 0) \<and> B (Data Vals i b)"
    by (induction p) (auto simp: R relu_pair data)
qed

text \<open>
  One run of the body masks the low bits with the negated sign, and clears the sign of the
  input.
\<close>

lemma relu_lane:
  fixes B :: bitline and b n :: nat
  assumes "0 < n"
  defines "B' \<equiv> lane_run (relu_body n b) B"
  shows "j < n - 1 \<Longrightarrow> B' (Data Output j b) \<longleftrightarrow> \<not> B (Data Vals (n - 1) b) \<and> B (Data Vals j b)"
    and "B' (Data Vals j b) \<longleftrightarrow> j \<noteq> n - 1 \<and> B (Data Vals j b)"
proof -
  let ?s = "\<not> B (Data Vals (n - 1) b)" and ?j = "2 * ((n - 1) div 2)"
  let ?I = "B(Cell DCC0 0 := ?s, Data Tmp_sign 0 0 := ?s)"
  define C where "C = lane_run (concat (map (\<lambda>i. relu_pair (Vec Tmp_sign 0, 0) (Vec Vals (2 * i), b) (Vec Output (2 * i), b)
      (Vec Vals (Suc (2 * i)), b) (Vec Output (Suc (2 * i)), b)) [0..<(n - 1) div 2])) ?I"
  note loop = relu_loop [where b = b and p = "(n - 1) div 2" and B = ?I, folded C_def]
  have p: "(n - 2 - 0 + 1) div 2 = (n - 1) div 2" using assms(1) by (cases "n = 1") auto
  have body: "B' = lane_run ((if n = ?j + 2 then [AAPV (at B_T0) (at (Vec Tmp_sign 0)), AAPV (at B_T1) (at C_0),
      AAPV (at B_T2) (Vec Vals ?j, b), AAPV (Vec Output ?j, b) (at B_T0_T1_T2)] else []) @ [AAPV (Vec Vals (n - 1), b) (at C_0)]) C"
    unfolding B'_def relu_body_def Let_def range_end_two range_step_two p
    by (simp add: C_def row_simps o_def)
  have C: "C (Data Tmp_sign 0 0) = ?s" "C (Data Vals i b) = B (Data Vals i b)" for i
    using loop(2) by simp_all
  show "B' (Data Vals j b) \<longleftrightarrow> j \<noteq> n - 1 \<and> B (Data Vals j b)"
    by (auto simp: body row_simps Let_def C [simplified])
  show "B' (Data Output j b) \<longleftrightarrow> ?s \<and> B (Data Vals j b)" if "j < n - 1"
  proof (cases "j < ?j")
    case True
    with loop(1) [of j] show ?thesis by (auto simp: body row_simps Let_def)
  next
    case False
    with that have "j = ?j" "n = ?j + 2" by presburger+
    then show ?thesis by (auto simp: body row_simps Let_def maj_def C [simplified])
  qed
qed

lemma relu_ok: "body_ok (- {Tmp_sign}) (relu_body n)"
  by (simp add: body_ok_def relu_body_def relu_pair_def Let_def)

context ambit_substrate
begin

text \<open>Over the two iterations the sign is gone before the second one reads it.\<close>

lemma relu_program:
  assumes "alloc_ok hw" "R < per_col_rows arg2" "0 < n"
  shows "\<exists>s0 s'. relu_setup hw n arg2 s = Some s0 \<and> relu_main hw n arg2 s = Some s' \<and>
    column_val peek (dram s') Output (n - 1) R c = column_val peek (dram s0) Vals (n - 1) R c \<and>
    \<not> peek (dram s') (Data Vals (n - 1) R) c"
proof -
  let ?Q = "\<lambda>f g. (\<forall>j<n - 1. g Output j = (\<not> f Vals (n - 1) \<and> f Vals j)) \<and>
      (\<forall>j. g Vals j = (j \<noteq> n - 1 \<and> f Vals j))"
  have "?Q (\<lambda>a j. B (Data a j b)) (\<lambda>a j. lane_run (relu_body n b) B (Data a j b))" for b B
    by (simp add: relu_lane [OF assms(3)])
  moreover have "?Q f' g'" if "\<And>a j. a \<in> - {Tmp_sign} \<Longrightarrow> f' a j = f a j \<and> g' a j = g a j" "?Q f g" for f f' g g'
    using that by simp
  ultimately have "\<exists>mid. ?Q (\<lambda>a j. peek (dram s0) (Data a j R) c) mid \<and>
      ?Q mid (\<lambda>a j. peek (dram (two_iterations hw (per_col_rows arg2) (relu_body n) s0)) (Data a j R) c)" for s0
    by (rule program_relates [OF relu_ok assms(2), of ?Q])
  then have "(\<forall>j<n - 1. peek (dram (two_iterations hw (per_col_rows arg2) (relu_body n) s0)) (Data Output j R) c =
      peek (dram s0) (Data Vals j R) c) \<and>
      \<not> peek (dram (two_iterations hw (per_col_rows arg2) (relu_body n) s0)) (Data Vals (n - 1) R) c" for s0
    by (metis (mono_tags, lifting) nat_less_le)
  then show ?thesis
    by (auto simp: relu_main_def relu_setup_def alloc_simps [OF assms(1)] column_val_def cong: bits_val_cong)
qed

end

end
