(* ===== verification/Bitweave.thy ===== *)
theory Bitweave
  imports Arith_Workloads
begin

text \<open>
  The range query \<open>microworkloads/90_bitweave-plus.c\<close>: two comparison chains run in parallel over
  the bits of every value, one against each of the two constants drawn at the start, and the
  matching values are counted by the CPU.
\<close>

section \<open>The program\<close>

unbundle bit_operations_syntax

definition upopcount :: "32 word \<Rightarrow> 32 word" where
  "upopcount val =
     (let val = val - (drop_bit 1 val AND 0x55555555);
          val = (val AND 0x33333333) + (drop_bit 2 val AND 0x33333333)
      in drop_bit 24 (((val + drop_bit 4 val) AND 0x0F0F0F0F) * 0x01010101))"

definition bitweave_step :: "bool \<Rightarrow> bool \<Rightarrow> addr \<Rightarrow> vop list" where
  "bitweave_step test1 test2 v =
     [AAPV (at B_DCC0N_T0) v] @
     (if \<not> test1 \<and> \<not> test2 then [AAPV (at B_DCC1N_T1) (at C_0)]
      else if \<not> test1 \<and> test2 then [AAPV (at B_T2_T3) (at C_1)]
      else if test1 \<and> \<not> test2 then [AAPV (at B_T2_T3) (at C_0)]
      else [AAPV (at B_DCC1N_T1) (at C_1)]) @
     [APV (at B_DCC1_T0_T3), APV (at B_DCC0_T1_T2)]"

definition bitweave_body :: "32 word \<Rightarrow> 32 word \<Rightarrow> nat \<Rightarrow> nat \<Rightarrow> vop list" where
  "bitweave_body c1 c2 col_length base_row =
     [AAPV (at B_DCC1) (at C_1), AAPV (at B_T0_T1_T2) (at C_1)] @
     concat (map (\<lambda>j. bitweave_step (bit c1 j) (bit c2 j) (vec base_row Vals j)) [0..<col_length]) @
     [AAPV (at B_T1) (at C_0), AAPV (vec base_row Output 0) (at B_T1_T2_T3)]"

definition count_matches :: "'m hw \<Rightarrow> nat \<Rightarrow> 'm \<Rightarrow> 32 word" where
  "count_matches hw per_col_ints m =
     for_loop 0 per_col_ints 0 (\<lambda>j result. result + upopcount (load32 hw Output 0 j m)) 0"

definition bitweave_main :: "'m hw \<Rightarrow> nat \<Rightarrow> nat \<Rightarrow> 'm prog \<Rightarrow> ('m prog \<times> 32 word) option" where
  "bitweave_main hw col_length arg2 s = do {
     s \<leftarrow> init_ambit hw s;
     let c1 = rand_val hw (drawn s);
     let c2 = rand_val hw (drawn s + 1);
     let s = s\<lparr>drawn := drawn s + 2\<rparr>;
     s \<leftarrow> random_vector_array hw Vals (per_col_bytes arg2) col_length s;
     s \<leftarrow> allocate_vector hw Output 0 (per_col_bytes arg2) s;
     let s = two_iterations hw (per_col_rows arg2) (bitweave_body c1 c2 col_length) s;
     Some (s, count_matches hw (num_vals arg2 div 32) (dram s)) }"

section \<open>The two chains\<close>

lemma bitweave_step:
  fixes a :: arr and j r :: nat
  defines "B' \<equiv> \<lambda>t1 t2 B. lane_run (bitweave_step t1 t2 (Vec a j, r)) B"
  shows "B' t1 t2 B (Cell T3 0) = maj (B (Data a j r)) (\<not> t1) (if t1 = t2 then B (Cell T3 0) else B (Cell DCC1 0))"
    and "B' t1 t2 B (Cell DCC1 0) = B' t1 t2 B (Cell T3 0)"
    and "B' t1 t2 B (Cell T2 0) = maj t2 (\<not> B (Data a j r)) (if t1 = t2 then B (Cell T2 0) else B (Cell T1 0))"
    and "B' t1 t2 B (Cell T1 0) = B' t1 t2 B (Cell T2 0)"
    and "B' t1 t2 B (Data a' j' r') = B (Data a' j' r')"
  unfolding B'_def
  by (cases t1; cases t2; auto simp: bitweave_step_def row_simps Let_def maj_def)+

text \<open>
  The chain of the lower bound starts from row T3 when the lowest bits of the two constants agree,
  and row T3 is never initialised.
\<close>

lemma bitweave_lane:
  "\<exists>t. \<forall>a j r. lane_run (bitweave_body c1 c2 n b) B (Data a j r) =
     (if (a, j, r) = (Output, 0, b)
      then carry (\<lambda>j. B (Data Vals j b)) (\<lambda>j. \<not> bit c1 j) t n \<and>
           carry (bit c2) (\<lambda>j. \<not> B (Data Vals j b)) True n
      else B (Data a j r))"
proof -
  let ?I = "B(Cell DCC1 0 := True, Cell T0 0 := True, Cell T1 0 := True, Cell T2 0 := True)"
  let ?f = "\<lambda>j. bitweave_step (bit c1 j) (bit c2 j) (Vec Vals j, b)"
  define R where "R m = lane_run (concat (map ?f [0..<m])) ?I" for m
  define t where "t = (if n = 0 \<or> bit c1 0 = bit c2 0 then B (Cell T3 0) else True)"
  have R: "R 0 = ?I" "R (Suc m) = lane_run (?f m) (R m)" for m by (simp_all add: R_def)
  have data: "R m (Data a j r) = B (Data a j r)" for m a j r
    by (induction m) (simp_all add: R bitweave_step)
  have hi: "R m (Cell T2 0) = carry (bit c2) (\<lambda>j. \<not> B (Data Vals j b)) True m \<and> R m (Cell T1 0) = R m (Cell T2 0)" for m
    by (induction m) (simp_all add: R bitweave_step data [unfolded R] data)
  have lo: "R (Suc m) (Cell T3 0) = carry (\<lambda>j. B (Data Vals j b)) (\<lambda>j. \<not> bit c1 j)
        (if bit c1 0 = bit c2 0 then B (Cell T3 0) else True) (Suc m) \<and>
      R (Suc m) (Cell DCC1 0) = R (Suc m) (Cell T3 0)" for m
  proof (induction m)
    case 0
    then show ?case by (simp add: R bitweave_step)
  next
    case (Suc m)
    then show ?case by (simp add: R(2) [of "Suc m"] bitweave_step data del: carry.simps(2)) (simp add: data)
  qed
  have lo_n: "R n (Cell T3 0) = carry (\<lambda>j. B (Data Vals j b)) (\<lambda>j. \<not> bit c1 j) t n"
    using lo by (cases n) (simp_all add: t_def R)
  have body: "lane_run (bitweave_body c1 c2 n b) B =
      lane_run [AAPV (at B_T1) (at C_0), AAPV (Vec Output 0, b) (at B_T1_T2_T3)] (R n)"
    by (simp add: bitweave_body_def R_def row_simps)
  show ?thesis
    by (rule exI [of _ t]) (auto simp: body row_simps Let_def maj_def lo_n hi data)
qed

lemma bitweave_ok: "body_ok UNIV (bitweave_body c1 c2 n)"
  by (simp add: body_ok_def bitweave_body_def bitweave_step_def)

lemma bitweave_range:
  fixes v :: "nat \<Rightarrow> bool" and c1 c2 :: "32 word"
  shows "carry v (\<lambda>j. \<not> bit c1 j) t n \<and> carry (bit c2) (\<lambda>j. \<not> v j) True n \<longleftrightarrow>
    (if t then unat c1 mod 2 ^ n \<le> bits_val n v else unat c1 mod 2 ^ n < bits_val n v) \<and>
    bits_val n v \<le> unat c2 mod 2 ^ n"
  by (cases t) (simp_all add: carry_compl_ge carry_compl_gt bits_val_word take_bit_eq_mod)

context ambit_substrate
begin

lemma bitweave_program:
  fixes s :: "'m prog"
  defines "c1 \<equiv> rand_val hw (drawn s)" and "c2 \<equiv> rand_val hw (drawn s + 1)"
  assumes "alloc_ok hw"
  shows "\<exists>s'. bitweave_main hw n arg2 s = Some (s', count_matches hw (num_vals arg2 div 32) (dram s')) \<and>
    (\<forall>R<per_col_rows arg2. \<forall>c. \<exists>t. peek (dram s') (Data Output 0 R) c \<longleftrightarrow>
      (if t then unat c1 mod 2 ^ n \<le> column_val peek (dram s') Vals n R c
       else unat c1 mod 2 ^ n < column_val peek (dram s') Vals n R c) \<and>
      column_val peek (dram s') Vals n R c \<le> unat c2 mod 2 ^ n)"
proof -
  let ?P = "\<lambda>f. \<exists>t. f Output 0 \<longleftrightarrow> (if t then unat c1 mod 2 ^ n \<le> bits_val n (f Vals)
      else unat c1 mod 2 ^ n < bits_val n (f Vals)) \<and> bits_val n (f Vals) \<le> unat c2 mod 2 ^ n"
  have lanes: "?P (\<lambda>a j. lane_run (bitweave_body c1 c2 n b) B (Data a j b))" for b B
    using bitweave_lane [of c1 c2 n b B] unfolding bitweave_range by auto
  have rows: "R < per_col_rows arg2 \<Longrightarrow>
      ?P (\<lambda>a j. peek (dram (two_iterations hw (per_col_rows arg2) (bitweave_body c1 c2 n) s)) (Data a j R) c)" for s R c
    by (rule program_columns_UNIV [where P = ?P, OF bitweave_ok]) (simp_all only: lanes)
  have "\<exists>s0. bitweave_main hw n arg2 s =
      (let s' = two_iterations hw (per_col_rows arg2) (bitweave_body c1 c2 n) s0
       in Some (s', count_matches hw (num_vals arg2 div 32) (dram s')))"
    by (rule exI, simp only: bitweave_main_def alloc_simps [OF assms(3)] c1_def c2_def Let_def bind.simps)
  then obtain s0 where main: "bitweave_main hw n arg2 s =
      (let s' = two_iterations hw (per_col_rows arg2) (bitweave_body c1 c2 n) s0
       in Some (s', count_matches hw (num_vals arg2 div 32) (dram s')))" ..
  show ?thesis
    unfolding main Let_def column_val_def
    by (intro exI [of _ "two_iterations hw (per_col_rows arg2) (bitweave_body c1 c2 n) s0"] conjI refl allI impI) (rule rows)
qed

end

end
