(* ===== verification/Bitcount.thy ===== *)
theory Bitcount
  imports Arith_Workloads
begin

text \<open>
  The bit-counting workloads \<open>microworkloads/91_bitcount-plus.c\<close>, \<open>91_bitcount_faster-plus.c\<close> and
  \<open>92_bitcount-plus.c\<close> (the last two are the same program). A column of \<open>n\<close> one-bit rows is
  counted by divide and conquer: \<open>2 ^ k - 1\<close> rows, the remaining rows but one, and that one row as
  the carry into the addition of the two counts. Each step is a pass over all vectors, so the
  program is a list of passes.
\<close>

unbundle bit_operations_syntax

section \<open>The size computations\<close>

definition foo :: "32 word \<Rightarrow> 32 word" where
  "foo n =
     (let n = n OR signed_drop_bit 1 n;
          n = n OR signed_drop_bit 2 n;
          n = n OR signed_drop_bit 4 n;
          n = n OR signed_drop_bit 8 n;
          n = n OR signed_drop_bit 16 n
      in signed_drop_bit 1 n)"

lemma unat_half: "unat (drop_bit 1 n) = unat (n :: 32 word) div 2"
  by (simp add: drop_bit_eq_div unat_div_distrib)

function floor_log2_loop :: "int \<Rightarrow> 32 word \<Rightarrow> int" where
  "floor_log2_loop result n = (if n > 0 then floor_log2_loop (result + 1) (drop_bit 1 n) else result)"
  by pat_completeness auto
termination
proof (relation "measure (\<lambda>(r, n). unat n)")
  fix n :: "32 word" assume "0 < n"
  then have "0 < unat n" by (simp add: word_less_nat_alt)
  then show "((result + 1, drop_bit 1 n), result, n) \<in> measure (\<lambda>(r, n). unat n)" for result
    unfolding in_measure split unat_half by (simp add: div_less_dividend)
qed simp

declare floor_log2_loop.simps [simp del]

definition floor_log2 :: "32 word \<Rightarrow> int" where
  "floor_log2 n = floor_log2_loop (-1) n"

text \<open>A word is smeared \<open>s\<close> below its top bit \<open>k\<close> when the \<open>s\<close> bits from \<open>k\<close> down are set.\<close>

definition smeared :: "nat \<Rightarrow> nat \<Rightarrow> 32 word \<Rightarrow> bool" where
  "smeared s k x \<longleftrightarrow> (\<forall>i\<le>k. k - i < s \<longrightarrow> bit x i) \<and> (\<forall>i>k. \<not> bit x i)"

lemma smeared_step:
  assumes "smeared s k x" "k < 31"
  shows "smeared (2 * s) k (x OR signed_drop_bit s x)"
  unfolding smeared_def
proof (intro conjI allI impI)
  have top: "\<not> bit x 31" and high: "\<not> bit x i" if "k < i" for i
    using assms that by (auto simp: smeared_def)
  show "bit (x OR signed_drop_bit s x) i" if "i \<le> k" "k - i < 2 * s" for i
  proof (cases "k - i < s")
    case False
    with that have "i + s \<le> k" "k - (i + s) < s" by auto
    with assms have "bit x (i + s)" by (auto simp: smeared_def)
    with \<open>i + s \<le> k\<close> assms(2) show ?thesis by (auto simp: bit_or_iff bit_signed_drop_bit_iff add.commute)
  qed (use assms(1) that in \<open>auto simp: smeared_def bit_or_iff\<close>)
  show "\<not> bit (x OR signed_drop_bit s x) i" if "k < i" for i
    using that high [of i] high [of "s + i"] high [of 31] assms(2)
    by (auto simp: bit_or_iff bit_signed_drop_bit_iff)
qed

definition foo_smear :: "32 word \<Rightarrow> 32 word" where
  "foo_smear n =
     (let n = n OR signed_drop_bit 1 n;
          n = n OR signed_drop_bit 2 n;
          n = n OR signed_drop_bit 4 n;
          n = n OR signed_drop_bit 8 n
      in n OR signed_drop_bit 16 n)"

lemma foo_smear: "foo n = signed_drop_bit 1 (foo_smear n)"
  by (simp add: foo_def foo_smear_def Let_def)

lemma smeared_all:
  assumes "smeared 32 k x" "k < 31"
  shows "unat (signed_drop_bit 1 x) = 2 ^ k - 1"
proof -
  have x: "bit x i \<longleftrightarrow> i \<le> k" for i using assms by (cases "i \<le> k") (auto simp: smeared_def)
  have "bit (signed_drop_bit 1 x) i \<longleftrightarrow> i < k" for i
    using assms(2) unfolding bit_signed_drop_bit_iff x by (simp add: Suc_le_eq)
  then have "unat (signed_drop_bit 1 x) = mask k"
    by (intro bit_eqI) (simp add: bit_unsigned_iff bit_mask_iff)
  then show ?thesis by (simp add: mask_eq_exp_minus_1)
qed

lemma smear_chain:
  assumes "smeared 1 k n" "k < 31"
  shows "smeared 32 k (foo_smear n)"
proof -
  have step: "t = 2 * s \<Longrightarrow> smeared s k x \<Longrightarrow> smeared t k (x OR signed_drop_bit s x)" for s t x
    using smeared_step [OF _ assms(2)] by simp
  show ?thesis
    unfolding foo_smear_def Let_def
    by (rule step [of _ 16], simp, rule step [of _ 8], simp, rule step [of _ 4], simp, rule step [of _ 2], simp,
        rule step [of _ 1], simp, rule assms(1))
qed

lemma top_bit:
  fixes n :: nat
  assumes "2 ^ k \<le> n" "n < 2 ^ Suc k"
  shows "bit n k" "k < i \<Longrightarrow> \<not> bit n i"
proof -
  have "n div 2 ^ k = 1" using assms by (intro div_nat_eqI) simp_all
  then show "bit n k" by (simp add: bit_iff_odd)
  show "\<not> bit n i" if "k < i"
  proof -
    have "n < 2 ^ i" using assms(2) power_increasing [of "Suc k" i "2::nat"] that by simp
    then show ?thesis by (simp add: bit_iff_odd)
  qed
qed

lemma foo:
  assumes "2 ^ k \<le> n" "n < 2 ^ Suc k" "k < 31"
  shows "unat (foo (of_nat n)) = 2 ^ k - 1"
proof -
  note top = top_bit [OF assms(1,2)]
  have "i < 32" if "bit n i" for i using that top(2) [of i] assms(3) by (cases "i \<le> k") auto
  then have bits: "bit (of_nat n :: 32 word) i \<longleftrightarrow> bit n i" for i
    by (auto simp: bit_of_nat_iff)
  have "smeared 1 k (of_nat n)" using top by (auto simp: smeared_def bits)
  then have "smeared 32 k (foo_smear (of_nat n))"
    using assms(3) by (rule smear_chain)
  then show ?thesis using assms(3) unfolding foo_smear by (rule smeared_all)
qed

lemma floor_log2_loop:
  assumes "2 ^ k \<le> n" "n < 2 ^ Suc k" "k < 32"
  shows "floor_log2_loop r (of_nat n) = r + int k + 1"
  using assms
proof (induction k arbitrary: r n)
  case 0
  then have "n = 1" by simp
  then show ?case by (simp add: floor_log2_loop.simps [of _ 1] floor_log2_loop.simps [of _ 0])
next
  case (Suc k)
  have n: "n < 2 ^ 32" using Suc.prems(2,3) power_increasing [of "Suc (Suc k)" 32 "2::nat"] by simp
  then have un: "unat (of_nat n :: 32 word) = n" by (simp add: unsigned_of_nat take_bit_nat_eq_self)
  have "unat (drop_bit 1 (of_nat n :: 32 word)) = unat (of_nat (n div 2) :: 32 word)"
    unfolding unat_half un using n by (simp add: unsigned_of_nat take_bit_nat_eq_self)
  then have "drop_bit 1 (of_nat n :: 32 word) = of_nat (n div 2)" by (rule word_unat_eq_iff [THEN iffD2])
  moreover have "0 < n" using Suc.prems(1) by (rule less_le_trans [rotated]) simp
  then have "0 < (of_nat n :: 32 word)" unfolding word_less_nat_alt un by simp
  moreover have "2 ^ k \<le> n div 2" "n div 2 < 2 ^ Suc k" using Suc.prems(1,2) by auto
  ultimately show ?case
    using Suc.IH [of "n div 2" "r + 1"] Suc.prems(3) by (subst floor_log2_loop.simps) simp
qed

section \<open>The program\<close>

type_synonym pass = "nat \<Rightarrow> vop list"

definition count3 :: "addr \<Rightarrow> addr \<Rightarrow> addr \<Rightarrow> addr \<Rightarrow> addr \<Rightarrow> vop list" where
  "count3 sum_row c_out v1 v2 v3 =
    [ AAPV (at B_T0_T1_T2) v1,
      AAPV (at B_T2_T3) v2,
      AAPV (at B_DCC1) v3,
      AAPV c_out (at B_DCC1_T0_T3),
      AAPV (at B_T0_T3) (at B_DCC1N),
      APV (at B_T0_T1_T2),
      AAPV (at B_T1) v3,
      AAPV sum_row (at B_T1_T2_T3) ]"

text \<open>
  The addition of the two partial counts, as \<open>91_bitcount-plus.c\<close> writes it and as the faster
  versions write it. \<open>inp\<close> and \<open>out\<close> are the offsets of the pointers \<open>input\<close> and \<open>output\<close> of the
  recursive call.
\<close>

definition merge_counts :: "nat \<Rightarrow> nat \<Rightarrow> nat \<Rightarrow> nat \<Rightarrow> nat \<Rightarrow> pass" where
  "merge_counts inp out left b1 b2 base_row =
     [AAPV (at B_DCC1) (vec base_row Vals (inp + left))] @
     concat (map (\<lambda>i.
       let v1 = vec base_row Output (out + i);
           v2 = (if i < b2 then vec base_row Output (out + (i + b1)) else at C_0)
       in full_add v1 v2 v1) [0..<b1]) @
     [AAPV (vec base_row Output (out + b1)) (at B_DCC1)]"

definition fast_step :: "addr \<Rightarrow> addr \<Rightarrow> addr \<Rightarrow> vop \<Rightarrow> vop list" where
  "fast_step c_in v1 v2 keep_carry =
    [ AAPV (at B_T0_T1_T2) c_in,
      AAPV (at B_T2_T3) v1,
      AAPV (at B_DCC1) v2,
      keep_carry,
      AAPV (at B_T0_T3) (at B_DCC1N),
      APV (at B_T0_T1_T2),
      AAPV (at B_T1) v2,
      AAPV v1 (at B_T1_T2_T3) ]"

definition merge_counts_fast :: "nat \<Rightarrow> nat \<Rightarrow> nat \<Rightarrow> nat \<Rightarrow> nat \<Rightarrow> pass" where
  "merge_counts_fast inp out left b1 b2 base_row =
     concat (map (\<lambda>i.
       let v1 = vec base_row Output (out + i);
           v2 = (if i < b2 then vec base_row Output (out + (i + b1)) else at C_0);
           c_in = (if i = 0 then vec base_row Vals (inp + left) else at B_DCC1);
           c_out = vec base_row Output (out + b1)
       in fast_step c_in v1 v2 (if i < b1 - 1 then APV (at B_DCC1_T0_T3) else AAPV c_out (at B_DCC1_T0_T3)))
       [0..<b1])"

text \<open>\<open>bitcount(input, input_size, output)\<close>: the passes it performs, and the number of bits it returns.\<close>

partial_function (option) bitcount ::
    "(nat \<Rightarrow> nat \<Rightarrow> nat \<Rightarrow> nat \<Rightarrow> nat \<Rightarrow> pass) \<Rightarrow> nat \<Rightarrow> nat \<Rightarrow> nat \<Rightarrow> (pass list \<times> nat) option" where
  "bitcount merge inp input_size out =
     (if input_size = 0 then Some ([], 0)
      else if input_size = 1 then
        Some ([\<lambda>base_row. [AAPV (vec base_row Output out) (vec base_row Vals inp)]], 1)
      else if input_size = 2 \<or> input_size = 3 then
        Some ([\<lambda>base_row.
          let v3 = (if input_size = 2 then at C_0 else vec base_row Vals (inp + 2))
          in count3 (vec base_row Output out) (vec base_row Output (out + 1))
               (vec base_row Vals inp) (vec base_row Vals (inp + 1)) v3], 2)
      else
        let left = unat (foo (of_nat input_size)); right = input_size - left - 1 in
        Option.bind (bitcount merge inp left out) (\<lambda>r1.
        Option.bind (bitcount merge (inp + left) right (out + snd r1)) (\<lambda>r2.
        Some (fst r1 @ fst r2 @ [merge inp out left (snd r1) (snd r2)], 1 + snd r1))))"

partial_function (option) necessary_space :: "nat \<Rightarrow> nat option" where
  "necessary_space col_length =
     (if col_length \<le> 2 then Some col_length
      else if col_length = 3 then Some 2
      else
        let left = unat (foo (of_nat col_length)); right = col_length - 1 - left;
            flog2 = nat (floor_log2 (of_nat col_length)) in
        Option.bind (necessary_space right) (\<lambda>s2.
        Option.bind (necessary_space left) (\<lambda>s3.
        let lower_limit1 = flog2 + 1; lower_limit2 = flog2 + s2; lower_limit3 = s3;
            space = lower_limit1;
            space = (if space < lower_limit2 then lower_limit2 else space);
            space = (if space < lower_limit3 then lower_limit3 else space)
        in Some space)))"

definition bitcount_main ::
    "(nat \<Rightarrow> nat \<Rightarrow> nat \<Rightarrow> nat \<Rightarrow> nat \<Rightarrow> pass) \<Rightarrow> 'm hw \<Rightarrow> nat \<Rightarrow> nat \<Rightarrow> 'm prog \<Rightarrow> 'm prog option" where
  "bitcount_main merge hw col_length arg2 s = do {
     s \<leftarrow> init_ambit hw s;
     s \<leftarrow> random_vector_array hw Vals (per_col_bytes arg2) col_length s;
     output_bits \<leftarrow> necessary_space col_length;
     s \<leftarrow> allocate_vector_array hw Output (per_col_bytes arg2) output_bits s;
     (passes, bits) \<leftarrow> bitcount merge 0 col_length 0;
     Some (for_loop 0 2 0 (\<lambda>iter s. s\<lparr>dram := fold (FOR_ALL_VECTORS hw (per_col_rows arg2)) passes (dram s)\<rparr>) s) }"

definition bitcount_plus_main :: "'m hw \<Rightarrow> nat \<Rightarrow> nat \<Rightarrow> 'm prog \<Rightarrow> 'm prog option" where
  "bitcount_plus_main = bitcount_main merge_counts"

definition bitcount_faster_main :: "'m hw \<Rightarrow> nat \<Rightarrow> nat \<Rightarrow> 'm prog \<Rightarrow> 'm prog option" where
  "bitcount_faster_main = bitcount_main merge_counts_fast"

section \<open>The addition of two counts\<close>

text \<open>What the recursion needs of the addition: the sum, with the carry row, and a frame.\<close>

definition merge_ok :: "(nat \<Rightarrow> nat \<Rightarrow> nat \<Rightarrow> nat \<Rightarrow> nat \<Rightarrow> pass) \<Rightarrow> bool" where
  "merge_ok merge \<longleftrightarrow> (\<forall>inp out left b1 b2. 2 \<le> b1 \<and> b2 \<le> b1 \<longrightarrow>
     body_ok UNIV (merge inp out left b1 b2) \<and>
     (\<forall>b B. let B' = lane_run (merge inp out left b1 b2 b) B in
        bits_val (Suc b1) (\<lambda>i. B' (Data Output (out + i) b)) =
          bits_val b1 (\<lambda>i. B (Data Output (out + i) b)) + bits_val b2 (\<lambda>i. B (Data Output (out + b1 + i) b)) +
          of_bool (B (Data Vals (inp + left) b)) \<and>
        (\<forall>a i. a \<noteq> Output \<or> i < out \<or> out + b1 < i \<longrightarrow> B' (Data a i b) = B (Data a i b))))"

lemma full_add_zero:
  "lane_run (full_add (Vec a j, r) (C_0, 0) (Vec a j, r)) B (Cell DCC1 0) = maj (B (Data a j r)) False (B (Cell DCC1 0))"
  "lane_run (full_add (Vec a j, r) (C_0, 0) (Vec a j, r)) B (Data a j r) = xor3 (B (Data a j r)) False (B (Cell DCC1 0))"
  by (cases "B (Data a j r)"; cases "B (Cell DCC1 0)"; simp add: full_add_def row_simps Let_def maj_def xor3_def)+

lemma bits_val_cut: "b2 \<le> b1 \<Longrightarrow> bits_val b1 (\<lambda>i. i < b2 \<and> f i) = bits_val b2 f"
  using bits_val_add [of b2 "b1 - b2" "\<lambda>i. i < b2 \<and> f i"] by (simp cong: bits_val_cong)

lemma merge_counts_lane:
  fixes inp out left b1 b2 r :: nat and B :: bitline
  assumes "b2 \<le> b1"
  defines "B' \<equiv> lane_run (merge_counts inp out left b1 b2 r) B"
  shows "bits_val (Suc b1) (\<lambda>i. B' (Data Output (out + i) r)) =
      bits_val b1 (\<lambda>i. B (Data Output (out + i) r)) + bits_val b2 (\<lambda>i. B (Data Output (out + b1 + i) r)) +
      of_bool (B (Data Vals (inp + left) r))"
    and "a \<noteq> Output \<or> i < out \<or> out + b1 < i \<Longrightarrow> B' (Data a i r) = B (Data a i r)"
proof -
  let ?f = "\<lambda>i. full_add (Vec Output (out + i), r) (if i < b2 then (Vec Output (out + (i + b1)), r) else at C_0) (Vec Output (out + i), r)"
  let ?I = "B(Cell DCC1 0 := B (Data Vals (inp + left) r))"
  let ?X = "\<lambda>i B. B (Data Output (out + i) r)" and ?Y = "\<lambda>i B. i < b2 \<and> B (Data Output (out + (i + b1)) r)"
  define C where "C = lane_run (concat (map ?f [0..<b1])) ?I"
  have v2: "(if i < b2 then vec r Output (out + (i + b1)) else at C_0) = (if i < b2 then (Vec Output (out + (i + b1)), r) else at C_0)" for i
    by simp
  have body: "B' = C(Data Output (out + b1) r := C (Cell DCC1 0))"
    unfolding B'_def merge_counts_def Let_def v2 VECTOR_at by (simp add: C_def row_simps)
  have K: "lane_run (?f k) B (Cell DCC1 0) = maj (?X k B) (?Y k B) (B (Cell DCC1 0))" for k B
    by (cases "k < b2") (simp_all add: full_add_carry full_add_zero)
  have S: "lane_run (?f k) B (Data Output (out + k) r) = xor3 (?X k B) (?Y k B) (B (Cell DCC1 0))" for k B
    by (cases "k < b2") (simp_all add: full_add_sum full_add_zero)
  have D: "inj_on (\<lambda>k. Data Output (out + k) r) {..<b1}" "(\<lambda>k. Data Output (out + k) r) ` {..<b1} \<subseteq> data_locs"
    by (auto simp: inj_on_def)
  have reads: "?X k B1 = ?X k B2 \<and> ?Y k B1 = ?Y k B2"
    if "\<And>l. l \<in> data_locs \<Longrightarrow> l \<notin> (\<lambda>k. Data Output (out + k) r) ` {..<k} \<Longrightarrow> B1 l = B2 l" for k B1 B2
    using that [of "Data Output (out + k) r"] that [of "Data Output (out + (k + b1)) r"] by (simp add: image_iff)
  note loop = ripple_loop [where f = ?f and B = ?I and X = ?X and Y = ?Y and n = b1,
      OF K S full_add_frame_loc reads D, folded C_def]
  let ?x = "\<lambda>i. B (Data Output (out + i) r)" and ?y = "\<lambda>i. i < b2 \<and> B (Data Output (out + (i + b1)) r)"
  have carry: "C (Cell DCC1 0) = carry ?x ?y (B (Data Vals (inp + left) r)) b1" using loop(1) by simp
  have sums: "C (Data Output (out + k) r) = xor3 (?x k) (?y k) (carry ?x ?y (B (Data Vals (inp + left) r)) k)" if "k < b1" for k
    using loop(2) [of k] that by simp
  have keep: "C (Data a i r) = B (Data a i r)" if "a \<noteq> Output \<or> i < out \<or> out + b1 \<le> i" for a i
    using that loop(3) [of "Data a i r"] by (auto simp: image_iff)
  show "a \<noteq> Output \<or> i < out \<or> out + b1 < i \<Longrightarrow> B' (Data a i r) = B (Data a i r)"
    by (auto simp: body keep)
  have "bits_val (Suc b1) (\<lambda>i. B' (Data Output (out + i) r)) =
      bits_val b1 (\<lambda>k. xor3 (?x k) (?y k) (carry ?x ?y (B (Data Vals (inp + left) r)) k)) +
      of_bool (carry ?x ?y (B (Data Vals (inp + left) r)) b1) * 2 ^ b1"
    by (simp add: bits_val_Suc body carry sums cong: bits_val_cong)
  also have "\<dots> = bits_val b1 ?x + bits_val b1 ?y + of_bool (B (Data Vals (inp + left) r))"
    by (rule ripple_add)
  also have "bits_val b1 ?y = bits_val b2 (\<lambda>i. B (Data Output (out + b1 + i) r))"
    using bits_val_cut [OF assms(1), of "\<lambda>i. B (Data Output (out + (i + b1)) r)"] by (simp add: ac_simps)
  finally show "bits_val (Suc b1) (\<lambda>i. B' (Data Output (out + i) r)) =
      bits_val b1 (\<lambda>i. B (Data Output (out + i) r)) + bits_val b2 (\<lambda>i. B (Data Output (out + b1 + i) r)) +
      of_bool (B (Data Vals (inp + left) r))" .
qed

lemma merge_counts_ok: "merge_ok merge_counts"
  unfolding merge_ok_def Let_def
  by (intro allI impI conjI merge_counts_lane) (auto simp: body_ok_def merge_counts_def full_add_def Let_def)

text \<open>The faster addition leaves every row as the plain one does.\<close>

lemma fast_step_middle: "fast_step (at B_DCC1) v1 v2 (APV (at B_DCC1_T0_T3)) = full_add v1 v2 v1"
  by (simp add: fast_step_def full_add_def)

lemma fast_step_first:
  assumes "v1 = (Vec Output i, r)" "v2 = (Vec Output i2, r) \<or> v2 = at C_0"
  shows "lane_run (fast_step (Vec Vals j, r) v1 v2 k) B =
    lane_run (fast_step (at B_DCC1) v1 v2 k) (B(Cell DCC1 0 := B (Data Vals j r)))"
proof -
  have "lane_run [AAPV (at B_T0_T1_T2) (Vec Vals j, r), AAPV (at B_T2_T3) v1, AAPV (at B_DCC1) v2] B =
      lane_run [AAPV (at B_T0_T1_T2) (at B_DCC1), AAPV (at B_T2_T3) v1, AAPV (at B_DCC1) v2] (B(Cell DCC1 0 := B (Data Vals j r)))"
    using assms by (auto simp: row_simps fun_eq_iff)
  then show ?thesis by (simp add: fast_step_def)
qed

lemma fast_step_last:
  assumes "v1 = (Vec Output i, r)" "v2 = (Vec Output i2, r) \<and> i2 \<noteq> ic \<or> v2 = at C_0" "ic \<noteq> i"
  shows "lane_run (fast_step (at B_DCC1) v1 v2 (AAPV (Vec Output ic, r) (at B_DCC1_T0_T3))) B =
    lane_run (full_add v1 v2 v1 @ [AAPV (Vec Output ic, r) (at B_DCC1)]) B"
  using assms by (auto simp: fast_step_def full_add_def row_simps Let_def fun_eq_iff)

lemma merge_counts_fast_lane:
  assumes "2 \<le> b1" "b2 \<le> b1"
  shows "lane_run (merge_counts_fast inp out left b1 b2 r) B = lane_run (merge_counts inp out left b1 b2 r) B"
proof -
  obtain m where m: "b1 = Suc (Suc m)" using assms(1) by (metis add_2_eq_Suc le_Suc_ex)
  let ?v1 = "\<lambda>i. vec r Output (out + i)" and ?v2 = "\<lambda>i. if i < b2 then vec r Output (out + (i + b1)) else at C_0"
  let ?c = "vec r Vals (inp + left)" and ?k = "AAPV (vec r Output (out + b1)) (at B_DCC1_T0_T3)"
  have split: "[0..<b1] = [0] @ [1..<Suc m] @ [Suc m]" by (simp add: m upt_conv_Cons)
  have "merge_counts_fast inp out left b1 b2 r =
      fast_step ?c (?v1 0) (?v2 0) (APV (at B_DCC1_T0_T3)) @
      concat (map (\<lambda>i. full_add (?v1 i) (?v2 i) (?v1 i)) [1..<Suc m]) @
      fast_step (at B_DCC1) (?v1 (Suc m)) (?v2 (Suc m)) ?k"
    unfolding merge_counts_fast_def split map_append concat_append Let_def
    by (simp add: m fast_step_middle del: upt_Suc cong: map_cong) (auto simp: fast_step_middle intro!: arg_cong [where f = concat] map_cong)
  moreover have "merge_counts inp out left b1 b2 r =
      [AAPV (at B_DCC1) ?c] @ full_add (?v1 0) (?v2 0) (?v1 0) @
      concat (map (\<lambda>i. full_add (?v1 i) (?v2 i) (?v1 i)) [1..<Suc m]) @
      full_add (?v1 (Suc m)) (?v2 (Suc m)) (?v1 (Suc m)) @ [AAPV (vec r Output (out + b1)) (at B_DCC1)]"
    unfolding merge_counts_def split map_append concat_append Let_def by simp
  moreover have "lane_run (fast_step ?c (?v1 0) (?v2 0) (APV (at B_DCC1_T0_T3))) B =
      lane_run (full_add (?v1 0) (?v2 0) (?v1 0)) (lane_run [AAPV (at B_DCC1) ?c] B)"
    using fast_step_first [of "?v1 0" out r "?v2 0" "out + b1" "inp + left" "APV (at B_DCC1_T0_T3)" B]
    by (simp add: fast_step_middle row_simps)
  moreover have "lane_run (fast_step (at B_DCC1) (?v1 (Suc m)) (?v2 (Suc m)) ?k) B' =
      lane_run (full_add (?v1 (Suc m)) (?v2 (Suc m)) (?v1 (Suc m)) @ [AAPV (vec r Output (out + b1)) (at B_DCC1)]) B'" for B'
    using fast_step_last [of "?v1 (Suc m)" "out + Suc m" r "?v2 (Suc m)" "out + (Suc m + b1)" "out + b1" B']
    by (simp add: m)
  ultimately show ?thesis by simp
qed

lemma merge_counts_fast_ok: "merge_ok merge_counts_fast"
  unfolding merge_ok_def Let_def
proof (intro allI impI conjI)
  fix inp out left b1 b2 :: nat assume b: "2 \<le> b1 \<and> b2 \<le> b1"
  show "body_ok UNIV (merge_counts_fast inp out left b1 b2)"
    by (simp add: body_ok_def merge_counts_fast_def fast_step_def Let_def)
  fix r B
  show "bits_val (Suc b1) (\<lambda>i. lane_run (merge_counts_fast inp out left b1 b2 r) B (Data Output (out + i) r)) =
      bits_val b1 (\<lambda>i. B (Data Output (out + i) r)) + bits_val b2 (\<lambda>i. B (Data Output (out + b1 + i) r)) +
      of_bool (B (Data Vals (inp + left) r))"
    and "a \<noteq> Output \<or> i < out \<or> out + b1 < i \<Longrightarrow>
      lane_run (merge_counts_fast inp out left b1 b2 r) B (Data a i r) = B (Data a i r)" for a i
    using b by (simp_all only: merge_counts_fast_lane merge_counts_lane)
qed

section \<open>The recursion\<close>

text \<open>
  The rows the recursion adds up. The second call starts at the row that is also passed as the
  carry, so that row is counted twice and the last row not at all, except where the second part is
  empty.
\<close>

function counted :: "nat \<Rightarrow> nat \<Rightarrow> nat list" where
  "counted inp n =
     (let left = unat (foo (of_nat n)) in
      if n \<le> 3 \<or> n \<le> left then [inp..<inp + n]
      else counted inp left @ counted (inp + left) (n - left - 1) @ [inp + left])"
  by pat_completeness auto
termination
  by (relation "measure (\<lambda>(inp, n). n)") auto

declare counted.simps [simp del]

lemma ex_log2: "0 < n \<Longrightarrow> \<exists>k. 2 ^ k \<le> n \<and> n < (2::nat) ^ Suc k"
proof (induction n rule: less_induct)
  case (less n)
  show ?case
  proof (cases "n = 1")
    case False
    with less.prems obtain k where "2 ^ k \<le> n div 2" "n div 2 < 2 ^ Suc k"
      using less.IH [of "n div 2"] by auto
    then have "2 ^ Suc k \<le> n \<and> n < 2 ^ Suc (Suc k)" by auto
    then show ?thesis by blast
  qed (auto intro: exI [of _ 0])
qed

lemma log2_unique:
  assumes "2 ^ j \<le> n" "n < (2::nat) ^ k"
  shows "j < k"
proof (rule ccontr)
  assume "\<not> j < k"
  then have "(2::nat) ^ k \<le> 2 ^ j" by (intro power_increasing) simp_all
  with assms show False by simp
qed

lemma length_counted: "length (counted inp n) = n"
  by (induction inp n rule: counted.induct) (subst counted.simps, auto simp: Let_def)

lemma counted_split:
  assumes "2 ^ k \<le> n" "n < 2 ^ Suc k" "k < 31" "4 \<le> n"
  shows "counted inp n = counted inp (2 ^ k - 1) @ counted (inp + (2 ^ k - 1)) (n - 2 ^ k) @ [inp + (2 ^ k - 1)]"
  using assms foo [OF assms(1-3)] by (subst counted.simps) (simp add: Let_def)

text \<open>The base cases, as passes on the rows of a vector.\<close>

lemma count3:
  fixes r :: nat
  assumes "i0 \<noteq> i1" "v1 = (Vec Vals j1, r)" "v2 = (Vec Vals j2, r)"
    "v3 = (Vec Vals j3, r) \<and> x3 = B (Data Vals j3 r) \<or> v3 = at C_0 \<and> \<not> x3"
  defines "B' \<equiv> lane_run (count3 (Vec Output i0, r) (Vec Output i1, r) v1 v2 v3) B"
  shows "B' (Data Output i0 r) = xor3 (B (Data Vals j1 r)) (B (Data Vals j2 r)) x3"
    and "B' (Data Output i1 r) = maj (B (Data Vals j1 r)) (B (Data Vals j2 r)) x3"
    and "(a, i) \<notin> {(Output, i0), (Output, i1)} \<Longrightarrow> B' (Data a i r) = B (Data a i r)"
proof -
  show "B' (Data Output i0 r) = xor3 (B (Data Vals j1 r)) (B (Data Vals j2 r)) x3"
    "B' (Data Output i1 r) = maj (B (Data Vals j1 r)) (B (Data Vals j2 r)) x3"
    using assms(1-4) unfolding B'_def
    by (cases "B (Data Vals j1 r)"; cases "B (Data Vals j2 r)"; cases x3;
        auto simp: count3_def row_simps Let_def maj_def xor3_def)+
  show "(a, i) \<notin> {(Output, i0), (Output, i1)} \<Longrightarrow> B' (Data a i r) = B (Data a i r)"
    using assms(2-4) unfolding B'_def by (intro lane_run_frameI) (auto simp: count3_def)
qed

text \<open>The number of bits of a number.\<close>

fun width :: "nat \<Rightarrow> nat" where
  "width n = (if n = 0 then 0 else Suc (width (n div 2)))"

declare width.simps [simp del]

lemma width_log: "2 ^ k \<le> n \<Longrightarrow> n < 2 ^ Suc k \<Longrightarrow> width n = Suc k"
proof (induction k arbitrary: n)
  case (Suc k)
  then have "2 ^ k \<le> n div 2" "n div 2 < 2 ^ Suc k" by auto
  moreover have "0 < n" using Suc.prems(1) by (rule less_le_trans [rotated]) simp
  ultimately show ?case using Suc.IH [of "n div 2"] by (subst width.simps) simp
next
  case 0
  then have "n = Suc 0" by simp
  then show ?case by (simp add: width.simps [of "Suc 0"] width.simps [of 0])
qed

lemma width_mono_pow: "n < 2 ^ k \<Longrightarrow> width n \<le> k"
proof (cases "n = 0")
  case False
  assume "n < 2 ^ k"
  obtain j where j: "2 ^ j \<le> n" "n < 2 ^ Suc j" using ex_log2 False by blast
  then show ?thesis using log2_unique [OF j(1) \<open>n < 2 ^ k\<close>] by (simp add: width_log)
qed (simp add: width.simps)

text \<open>What a call promises: its passes sum up the counted rows, within the space computed for it.\<close>

definition bitcount_spec :: "nat \<Rightarrow> nat \<Rightarrow> nat \<Rightarrow> nat \<Rightarrow> pass list \<Rightarrow> nat \<Rightarrow> bool" where
  "bitcount_spec inp n out space ps bits \<longleftrightarrow>
     bits = width n \<and> bits \<le> space \<and> space \<le> n \<and> list_all (body_ok UNIV) ps \<and>
     (\<forall>b f g. passes_rel b ps f g \<longrightarrow>
        bits_val bits (\<lambda>i. g Output (out + i)) = (\<Sum>i\<leftarrow>counted inp n. of_bool (f Vals i)) \<and>
        (\<forall>a i. a \<noteq> Output \<or> i < out \<or> out + space \<le> i \<longrightarrow> g a i = f a i))"

lemma counted_small: "n \<le> 3 \<Longrightarrow> counted inp n = [inp..<inp + n]"
  by (subst counted.simps) (simp add: Let_def)

lemma width_small: "width 0 = 0" "width 1 = 1" "width 2 = 2" "width 3 = 2"
  by (simp_all add: width.simps [of 0] width.simps [of "Suc 0"] width.simps [of 2] width.simps [of 3])

lemma bitcount_spec_count3:
  assumes "n = 2 \<or> n = 3"
  shows "bitcount_spec inp n out 2 [\<lambda>b. let v3 = (if n = 2 then at C_0 else vec b Vals (inp + 2))
     in count3 (vec b Output out) (vec b Output (out + 1)) (vec b Vals inp) (vec b Vals (inp + 1)) v3] 2"
    (is "bitcount_spec _ _ _ _ [?p] _")
proof -
  have "bits_val 2 (\<lambda>i. g Output (out + i)) = (\<Sum>i\<leftarrow>counted inp n. of_bool (f Vals i)) \<and>
      (\<forall>a i. a \<noteq> Output \<or> i < out \<or> out + 2 \<le> i \<longrightarrow> g a i = f a i)"
    if rel: "passes_rel b [?p] f g" for b f g
  proof -
    from rel obtain B where f: "\<forall>a j. B (Data a j b) = f a j" and g: "g = (\<lambda>a j. lane_run (?p b) B (Data a j b))" by auto
    define x3 where "x3 = (n = 3 \<and> B (Data Vals (inp + 2) b))"
    let ?v3 = "if n = 2 then at C_0 else vec b Vals (inp + 2)"
    have v3: "?v3 = (Vec Vals (inp + 2), b) \<and> x3 = B (Data Vals (inp + 2) b) \<or> ?v3 = at C_0 \<and> \<not> x3"
      using assms by (auto simp: x3_def)
    have neq: "out \<noteq> out + 1" by simp
    note c = count3 [where ?i0.0 = out and ?i1.0 = "out + 1" and ?j1.0 = inp and ?j2.0 = "inp + 1" and r = b and B = B, OF neq refl refl v3]
    have g': "g a i = lane_run (count3 (Vec Output out, b) (Vec Output (out + 1), b) (Vec Vals inp, b) (Vec Vals (inp + 1), b) ?v3) B (Data a i b)" for a i
      by (simp add: g Let_def)
    have "bits_val 2 (\<lambda>i. g Output (out + i)) = of_bool (g Output out) + 2 * of_bool (g Output (out + 1))"
      by (simp add: numeral_2_eq_2 bits_val_Suc)
    also have "\<dots> = of_bool (f Vals inp) + of_bool (f Vals (inp + 1)) + of_bool x3"
      unfolding g' c(1,2)
      by (simp add: f [rule_format] maj_def xor3_def of_bool_def)
    also have "\<dots> = (\<Sum>i\<leftarrow>counted inp n. of_bool (f Vals i))"
      using assms f by (auto simp: counted_small x3_def upt_rec [of inp] upt_rec [of "Suc inp"] upt_rec [of "Suc (Suc inp)"])
    finally show ?thesis
      using c(3) f unfolding g' by auto
  qed
  moreover have "body_ok UNIV ?p" using assms by (auto simp: body_ok_def count3_def Let_def)
  ultimately show ?thesis using assms unfolding bitcount_spec_def by (auto simp: width_small simp del: passes_rel.simps)
qed

lemma bitcount_base:
  assumes "n \<le> 3"
  shows "\<exists>space ps bits. necessary_space n = Some space \<and> bitcount merge inp n out = Some (ps, bits) \<and>
    bitcount_spec inp n out space ps bits"
proof -
  consider "n = 0" | "n = 1" | "n = 2 \<or> n = 3" using assms by linarith
  then show ?thesis
  proof cases
    case 1
    then show ?thesis
      by (subst necessary_space.simps, subst bitcount.simps) (simp add: bitcount_spec_def counted_small width_small)
  next
    case 2
    then show ?thesis
      by (subst necessary_space.simps, subst bitcount.simps)
         (auto simp: bitcount_spec_def counted_small width_small [simplified] body_ok_def row_simps bits_val_Suc)
  next
    case 3
    then have "necessary_space n = Some 2" by (subst necessary_space.simps) auto
    moreover from 3 have "bitcount merge inp n out = Some ([\<lambda>b. let v3 = (if n = 2 then at C_0 else vec b Vals (inp + 2))
       in count3 (vec b Output out) (vec b Output (out + 1)) (vec b Vals inp) (vec b Vals (inp + 1)) v3], 2)"
      by (subst bitcount.simps) auto
    ultimately show ?thesis using bitcount_spec_count3 [OF 3] by blast
  qed
qed

text \<open>The step of the recursion: from the two calls to the whole.\<close>

lemma bitcount_spec_merge:
  assumes "merge_ok merge" and k: "2 ^ k \<le> n" "n < 2 ^ Suc k" "k < 31" "4 \<le> n"
    and 1: "bitcount_spec inp (2 ^ k - 1) out s1 ps1 b1"
    and 2: "bitcount_spec (inp + (2 ^ k - 1)) (n - 2 ^ k) (out + b1) s2 ps2 b2"
  shows "bitcount_spec inp n out (max (max (k + 1) (k + s2)) s1) (ps1 @ ps2 @ [merge inp out (2 ^ k - 1) b1 b2]) (1 + b1)"
proof -
  have k2: "2 \<le> k" using log2_unique [of 2 n "Suc k"] k by auto
  have half: "2 ^ (k - 1) \<le> 2 ^ k - (1::nat)" using k2 by (cases k) auto
  have b1: "b1 = k"
    using 1 width_log [of "k - 1" "2 ^ k - 1"] half k2 unfolding bitcount_spec_def by simp
  have b2: "b2 \<le> b1" using 2 width_mono_pow [of "n - 2 ^ k" k] k unfolding bitcount_spec_def b1 by auto
  let ?m = "merge inp out (2 ^ k - 1) b1 b2"
  have m: "body_ok UNIV ?m"
    "\<And>b B. bits_val (Suc b1) (\<lambda>i. lane_run (?m b) B (Data Output (out + i) b)) =
        bits_val b1 (\<lambda>i. B (Data Output (out + i) b)) + bits_val b2 (\<lambda>i. B (Data Output (out + b1 + i) b)) +
        of_bool (B (Data Vals (inp + (2 ^ k - 1)) b))"
    "\<And>a i b B. a \<noteq> Output \<or> i < out \<or> out + b1 < i \<Longrightarrow> lane_run (?m b) B (Data a i b) = B (Data a i b)"
    using assms(1) k2 b1 b2 unfolding merge_ok_def Let_def by blast+
  have sums: "bits_val (1 + b1) (\<lambda>i. g Output (out + i)) = (\<Sum>i\<leftarrow>counted inp n. of_bool (f Vals i)) \<and>
      (\<forall>a i. a \<noteq> Output \<or> i < out \<or> out + max (max (k + 1) (k + s2)) s1 \<le> i \<longrightarrow> g a i = f a i)"
    if "passes_rel b (ps1 @ ps2 @ [?m]) f g" for b f g
  proof -
    from that obtain h1 h2 B where h1: "passes_rel b ps1 f h1" and h2: "passes_rel b ps2 h1 h2"
      and B: "\<And>a j. B (Data a j b) = h2 a j" and g: "g = (\<lambda>a j. lane_run (?m b) B (Data a j b))"
      unfolding passes_rel_append by auto
    have r1: "bits_val b1 (\<lambda>i. h1 Output (out + i)) = (\<Sum>i\<leftarrow>counted inp (2 ^ k - 1). of_bool (f Vals i))"
        "\<And>a i. a \<noteq> Output \<or> i < out \<or> out + s1 \<le> i \<Longrightarrow> h1 a i = f a i"
      using 1 h1 unfolding bitcount_spec_def by blast+
    have r2: "bits_val b2 (\<lambda>i. h2 Output (out + b1 + i)) = (\<Sum>i\<leftarrow>counted (inp + (2 ^ k - 1)) (n - 2 ^ k). of_bool (h1 Vals i))"
        "\<And>a i. a \<noteq> Output \<or> i < out + b1 \<or> out + b1 + s2 \<le> i \<Longrightarrow> h2 a i = h1 a i"
      using 2 h2 unfolding bitcount_spec_def by blast+
    have "bits_val (1 + b1) (\<lambda>i. g Output (out + i)) =
        bits_val b1 (\<lambda>i. h2 Output (out + i)) + bits_val b2 (\<lambda>i. h2 Output (out + b1 + i)) + of_bool (h2 Vals (inp + (2 ^ k - 1)))"
      using m(2) [of b B] by (simp add: g B)
    also have "bits_val b1 (\<lambda>i. h2 Output (out + i)) = bits_val b1 (\<lambda>i. h1 Output (out + i))"
      by (rule bits_val_cong) (simp_all add: r2(2))
    finally have "bits_val (1 + b1) (\<lambda>i. g Output (out + i)) = (\<Sum>i\<leftarrow>counted inp n. of_bool (f Vals i))"
      by (simp add: r1 r2 counted_split [OF k])
    moreover have "g a i = f a i" if "a \<noteq> Output \<or> i < out \<or> out + max (max (k + 1) (k + s2)) s1 \<le> i" for a i
    proof -
      from that consider "a \<noteq> Output" | "i < out" | "out + k < i" "out + s1 \<le> i" "out + k + s2 \<le> i"
        by (auto simp: max_def split: if_splits)
      then show ?thesis
        using m(3) [of a i b B] r1(2) [of a i] r2(2) [of a i] by cases (simp_all add: g B b1)
    qed
    ultimately show ?thesis by blast
  qed
  have "s1 \<le> 2 ^ k - 1" "s2 \<le> n - 2 ^ k" using 1 2 unfolding bitcount_spec_def by auto
  moreover have "k + 1 \<le> 2 ^ k" using less_exp [of k] by (simp add: Suc_le_eq)
  ultimately have "max (max (k + 1) (k + s2)) s1 \<le> n" using k(1) by auto
  with sums m(1) 1 2 show ?thesis
    unfolding bitcount_spec_def [of inp n] using width_log [OF k(1,2)] b1
    by (simp add: bitcount_spec_def del: passes_rel.simps)
qed

theorem bitcount_sound:
  assumes "merge_ok merge" "n < 2 ^ 31"
  shows "\<exists>space ps bits. necessary_space n = Some space \<and> bitcount merge inp n out = Some (ps, bits) \<and>
    bitcount_spec inp n out space ps bits"
  using assms(2)
proof (induction n arbitrary: inp out rule: less_induct)
  case (less n)
  show ?case
  proof (cases "n \<le> 3")
    case True
    then show ?thesis by (rule bitcount_base)
  next
    case False
    then obtain k where k: "2 ^ k \<le> n" "n < 2 ^ Suc k" using ex_log2 [of n] by auto
    have k31: "k < 31" using log2_unique [OF k(1) less.prems] .
    define L :: nat where "L = 2 ^ k - 1"
    note left = foo [OF k k31, folded L_def]
    have flog: "floor_log2 (of_nat n) = int k" using floor_log2_loop [OF k, of "-1"] k31 by (simp add: floor_log2_def)
    have smaller: "L < n" "n - 2 ^ k < n" using k(1) False by (auto simp: L_def)
    obtain s1 ps1 b1 where 1: "necessary_space L = Some s1" "bitcount merge inp L out = Some (ps1, b1)"
      "bitcount_spec inp L out s1 ps1 b1"
      using less.IH [OF smaller(1)] less.prems smaller by (meson less_trans)
    obtain s2 ps2 b2 where 2: "necessary_space (n - 2 ^ k) = Some s2"
      "bitcount merge (inp + L) (n - 2 ^ k) (out + b1) = Some (ps2, b2)"
      "bitcount_spec (inp + L) (n - 2 ^ k) (out + b1) s2 ps2 b2"
      using less.IH [OF smaller(2)] less.prems smaller by (meson less_trans)
    have right: "n - L - 1 = n - 2 ^ k" "n - 1 - L = n - 2 ^ k" "n - Suc L = n - 2 ^ k" using k(1) by (auto simp: L_def)
    have "necessary_space n = Some (max (max (k + 1) (k + s2)) s1)"
      using False by (subst necessary_space.simps) (simp add: left flog right 1(1) 2(1) Let_def max_def)
    moreover have "bitcount merge inp n out = Some (ps1 @ ps2 @ [merge inp out L b1 b2], 1 + b1)"
      using False by (subst bitcount.simps) (simp add: left right 1(2) 2(2) Let_def)
    moreover have "4 \<le> n" using False by simp
    ultimately show ?thesis using bitcount_spec_merge [OF assms(1) k k31, folded L_def, OF _ 1(3) 2(3)] by blast
  qed
qed

section \<open>The programs\<close>

context ambit_substrate
begin

lemma bitcount_program:
  assumes "alloc_ok hw" "R < per_col_rows arg2" "n < 2 ^ 31" "merge_ok merge"
  shows "\<exists>s'. bitcount_main merge hw n arg2 s = Some s' \<and>
    column_val peek (dram s') Output (width n) R c = (\<Sum>i\<leftarrow>counted 0 n. of_bool (peek (dram s') (Data Vals i R) c))"
proof -
  obtain space ps bits where ns: "necessary_space n = Some space" and bc: "bitcount merge 0 n 0 = Some (ps, bits)"
    and spec: "bitcount_spec 0 n 0 space ps bits"
    using bitcount_sound [OF assms(4,3), of 0 0] by blast
  let ?pass = "fold (FOR_ALL_VECTORS hw (per_col_rows arg2)) ps" and ?rows = "\<lambda>m a j. peek m (Data a j R) c"
  have ok: "list_all (body_ok UNIV) ps"
    and sums: "\<And>b f g. passes_rel b ps f g \<Longrightarrow> bits_val bits (\<lambda>i. g Output (0 + i)) = (\<Sum>i\<leftarrow>counted 0 n. of_bool (f Vals i))"
    and keep: "\<And>b f g a i. passes_rel b ps f g \<Longrightarrow> a \<noteq> Output \<Longrightarrow> g a i = f a i"
    using spec unfolding bitcount_spec_def by blast+
  have "bits_val bits (\<lambda>i. ?rows (?pass m) Output (0 + i)) = (\<Sum>i\<leftarrow>counted 0 n. of_bool (?rows m Vals i)) \<and>
      (\<forall>i. ?rows (?pass m) Vals i = ?rows m Vals i)" for m
    using sums [OF fold_passes [OF ok assms(2)]] keep [OF fold_passes [OF ok assms(2)], of Vals] by simp
  moreover have "bits = width n" using spec by (simp add: bitcount_spec_def)
  ultimately have "column_val peek (?pass m) Output (width n) R c = (\<Sum>i\<leftarrow>counted 0 n. of_bool (?rows (?pass m) Vals i))" for m
    by (simp add: column_val_def)
  moreover have "dram (for_loop 0 2 0 (\<lambda>iter s. s\<lparr>dram := ?pass (dram s)\<rparr>) s) = ?pass (?pass (dram s))" for s :: "'m prog"
    by (simp add: for_loop_step)
  ultimately show ?thesis
    by (simp add: bitcount_main_def alloc_simps [OF assms(1)] ns bc)
qed

lemma bitcount_plus_program:
  assumes "alloc_ok hw" "R < per_col_rows arg2" "n < 2 ^ 31"
  shows "\<exists>s'. bitcount_plus_main hw n arg2 s = Some s' \<and>
    column_val peek (dram s') Output (width n) R c = (\<Sum>i\<leftarrow>counted 0 n. of_bool (peek (dram s') (Data Vals i R) c))"
  unfolding bitcount_plus_main_def by (rule bitcount_program [OF assms merge_counts_ok])

lemma bitcount_faster_program:
  assumes "alloc_ok hw" "R < per_col_rows arg2" "n < 2 ^ 31"
  shows "\<exists>s'. bitcount_faster_main hw n arg2 s = Some s' \<and>
    column_val peek (dram s') Output (width n) R c = (\<Sum>i\<leftarrow>counted 0 n. of_bool (peek (dram s') (Data Vals i R) c))"
  unfolding bitcount_faster_main_def by (rule bitcount_program [OF assms merge_counts_fast_ok])

end

text \<open>Up to four rows every row is counted once; from five rows on the last one is not counted.\<close>

lemma counted_up_to_4: "n \<le> 4 \<Longrightarrow> counted inp n = [inp..<inp + n]"
proof -
  assume n: "n \<le> 4"
  show ?thesis
  proof (cases "n = 4")
    case True
    then show ?thesis
      using counted_split [of 2 4 inp] counted_small [of 3 inp] counted_small [of 0 "inp + 3"]
      by (simp add: upt_rec [of inp] upt_rec [of "Suc inp"] upt_rec [of "Suc (Suc inp)"] upt_rec [of "Suc (Suc (Suc inp))"])
  qed (use n counted_small in simp)
qed

lemma counted_5: "counted 0 5 = [0, 1, 2, 3, 3]"
  using counted_split [of 2 5 0] counted_small [of 3 0] counted_small [of 1 3]
  by (simp add: upt_rec [of 0] upt_rec [of "Suc 0"] upt_rec [of "Suc (Suc 0)"] upt_rec [of 3])

lemma set_counted: "set (counted inp n) \<subseteq> {inp..<inp + n}"
proof (induction inp n rule: counted.induct)
  case (1 inp n)
  let ?left = "unat (foo (of_nat n))"
  show ?case
  proof (cases "n \<le> 3 \<or> n \<le> ?left")
    case False
    then have "set (counted inp n) =
        set (counted inp ?left) \<union> set (counted (inp + ?left) (n - ?left - 1)) \<union> {inp + ?left}"
      by (subst counted.simps) (simp add: Let_def)
    also have "\<dots> \<subseteq> {inp..<inp + ?left} \<union> {inp + ?left..<inp + ?left + (n - ?left - 1)} \<union> {inp + ?left}"
      by (rule Un_mono [OF Un_mono [OF "1.IH"(1) [OF refl False] "1.IH"(2) [OF refl False]] subset_refl])
    also have "\<dots> \<subseteq> {inp..<inp + n}" using False by auto
    finally show ?thesis .
  qed (subst counted.simps, simp add: Let_def)
qed

lemma counted_misses_last:
  assumes "2 ^ k < n" "n < 2 ^ Suc k" "k < 31" "5 \<le> n"
  shows "inp + n - 1 \<notin> set (counted inp n)"
proof -
  have split: "set (counted inp n) = set (counted inp (2 ^ k - 1)) \<union>
      set (counted (inp + (2 ^ k - 1)) (n - 2 ^ k)) \<union> {inp + (2 ^ k - 1)}"
    using assms by (simp add: counted_split [of k n])
  have left: "set (counted inp (2 ^ k - 1)) \<subseteq> {inp..<inp + (2 ^ k - 1)}"
    and right: "set (counted (inp + (2 ^ k - 1)) (n - 2 ^ k)) \<subseteq> {inp + (2 ^ k - 1)..<inp + (2 ^ k - 1) + (n - 2 ^ k)}"
    by (rule set_counted)+
  have before: "inp + (2 ^ k - 1) < inp + n - 1" and ends: "inp + (2 ^ k - 1) + (n - 2 ^ k) = inp + n - 1"
  proof -
    have "(1::nat) \<le> 2 ^ k" by simp
    with assms(1) show "inp + (2 ^ k - 1) < inp + n - 1" "inp + (2 ^ k - 1) + (n - 2 ^ k) = inp + n - 1" by linarith+
  qed
  have "inp + n - 1 \<notin> set (counted inp (2 ^ k - 1))" using left before by (meson atLeastLessThan_iff less_asym subsetD)
  moreover have "inp + n - 1 \<notin> set (counted (inp + (2 ^ k - 1)) (n - 2 ^ k))"
    using right unfolding ends by (meson atLeastLessThan_iff less_irrefl subsetD)
  moreover have "inp + n - 1 \<noteq> inp + (2 ^ k - 1)" using before by (rule less_imp_neq [symmetric])
  ultimately show ?thesis unfolding split Un_iff singleton_iff by (intro notI) (elim disjE notE, assumption+)
qed

lemma counted_misses:
  assumes "5 \<le> n" "n < 2 ^ 31"
  shows "\<exists>i<n. i \<notin> set (counted 0 n)"
proof -
  obtain k where k: "2 ^ k \<le> n" "n < 2 ^ Suc k" using ex_log2 [of n] assms(1) by auto
  have k31: "k < 31" using log2_unique [OF k(1) assms(2)] .
  show ?thesis
  proof (cases "n = 2 ^ k")
    case False
    then have "n - 1 \<notin> set (counted 0 n)" using counted_misses_last [of k n 0] k k31 assms(1) by simp
    with assms(1) show ?thesis by (intro exI [of _ "n - 1"]) simp
  next
    case True
    obtain m where m: "k = Suc (Suc (Suc m))"
    proof -
      have "\<not> k < 3"
      proof
        assume "k < 3"
        then have "(2::nat) ^ k \<le> 2 ^ 2" by (intro power_increasing) simp_all
        with True assms(1) show False by simp
      qed
      then have "k = Suc (Suc (Suc (k - 3)))" by simp
      then show thesis by (rule that)
    qed
    have "n = 8 * 2 ^ m" "2 ^ (k - 1) = 4 * (2::nat) ^ m" "2 ^ Suc (k - 1) = 8 * (2::nat) ^ m" "(1::nat) \<le> 2 ^ m"
      by (simp_all add: True m)
    then have "2 ^ (k - 1) < n - 1" "n - 1 < 2 ^ Suc (k - 1)" "5 \<le> n - 1" by linarith+
    then have "n - 1 - 1 \<notin> set (counted 0 (n - 1))" using counted_misses_last [of "k - 1" "n - 1" 0] k31 by simp
    moreover have "counted 0 n = counted 0 (n - 1) @ [n - 1]"
      using counted_split [OF k k31, of 0] assms(1) counted_small [of 0 "n - 1"] True by simp
    ultimately show ?thesis using assms(1) by (intro exI [of _ "n - 2"]) (simp add: numeral_2_eq_2)
  qed
qed

end
