(* ===== verification/C_Arrays.thy ===== *)
theory C_Arrays
  imports Pud_Prelude "HOL-Library.Monad_Syntax"
begin

text \<open>
  The C arrays of the baseline workloads (\<open>microworkloads/baseline.h\<close>). A block returned by
  \<open>malloc\<close> is a list of bytes; a null pointer is the empty block. An access through a pointer of a
  \<open>w\<close>-bit type is little-endian at the width of the type, and fails outside the block. The library
  functions \<open>malloc\<close> and \<open>rand\<close> are fields of the record \<open>libc\<close>.
\<close>

type_synonym byte = "8 word"

record libc =
  malloc :: "nat \<Rightarrow> nat \<Rightarrow> byte list"
  rand :: "nat \<Rightarrow> 32 word"

text \<open>The number of calls of \<open>malloc\<close> and of \<open>rand\<close> so far.\<close>

record calls =
  mallocs :: nat
  rands :: nat

text \<open>An allocation that succeeds returns a block of the size asked for.\<close>

definition malloc_ok :: "libc \<Rightarrow> bool" where
  "malloc_ok lc \<longleftrightarrow> (\<forall>k sz. length (malloc lc k sz) = sz)"

section \<open>Elements of an array\<close>

primrec nat_of_bytes :: "byte list \<Rightarrow> nat" where
  "nat_of_bytes [] = 0"
| "nat_of_bytes (b # bs) = unat b + 256 * nat_of_bytes bs"

primrec bytes_of_nat :: "nat \<Rightarrow> nat \<Rightarrow> byte list" where
  "bytes_of_nat 0 x = []"
| "bytes_of_nat (Suc k) x = of_nat x # bytes_of_nat k (x div 256)"

text \<open>Element \<open>i\<close> of a block read as an array of \<open>k\<close>-byte numbers.\<close>

definition elem :: "nat \<Rightarrow> byte list \<Rightarrow> nat \<Rightarrow> nat" where
  "elem k a i = nat_of_bytes (take k (drop (k * i) a))"

definition load_elem :: "byte list \<Rightarrow> nat \<Rightarrow> 'w::len word option" where
  "load_elem a i =
     (let k = LENGTH('w) div 8 in if k * i + k \<le> length a then Some (of_nat (elem k a i)) else None)"

definition store_elem :: "nat \<Rightarrow> 'w::len word \<Rightarrow> byte list \<Rightarrow> byte list option" where
  "store_elem i x a =
     (let k = LENGTH('w) div 8 in
      if k * i + k \<le> length a then Some (take (k * i) a @ bytes_of_nat k (unat x) @ drop (k * i + k) a) else None)"

text \<open>A counting loop whose body may fail.\<close>

primrec for_each :: "nat list \<Rightarrow> (nat \<Rightarrow> 's \<Rightarrow> 's option) \<Rightarrow> 's \<Rightarrow> 's option" where
  "for_each [] body s = Some s"
| "for_each (i # idx) body s = Option.bind (body i s) (for_each idx body)"

lemma for_each_append: "for_each (idx @ js) body s = Option.bind (for_each idx body s) (for_each js body)"
  by (induction idx arbitrary: s) (auto split: Option.bind_split)

section \<open>Allocation\<close>

definition allocate_array :: "libc \<Rightarrow> nat \<Rightarrow> calls \<Rightarrow> byte list \<times> calls" where
  "allocate_array lc sz s = (malloc lc (mallocs s) sz, s\<lparr>mallocs := mallocs s + 1\<rparr>)"

definition random_array :: "libc \<Rightarrow> nat \<Rightarrow> calls \<Rightarrow> (byte list \<times> calls) option" where
  "random_array lc sz s =
     (let (arr, s) = allocate_array lc sz s in
      for_each [0..<sz div 4] (\<lambda>i (arr, s).
        map_option (\<lambda>arr. (arr, s\<lparr>rands := rands s + 1\<rparr>)) (store_elem i (rand lc (rands s)) arr)) (arr, s))"

section \<open>Reading back what was written\<close>

lemma length_bytes_of_nat [simp]: "length (bytes_of_nat k x) = k"
  by (induction k arbitrary: x) auto

lemma nat_of_bytes_of_nat: "nat_of_bytes (bytes_of_nat k x) = x mod 256 ^ k"
  by (induction k arbitrary: x) (simp_all add: unsigned_of_nat take_bit_eq_mod mod_mult2_eq mult.commute)

lemma nat_of_bytes_less: "nat_of_bytes bs < 256 ^ length bs"
proof (induction bs)
  case (Cons b bs)
  have "unat b < 256" using unsigned_less [of b] by simp
  with Cons show ?case by simp
qed simp

lemma elem_less: "elem k a i < 256 ^ k"
proof -
  have "nat_of_bytes (take k (drop (k * i) a)) < 256 ^ min (length a - k * i) k"
    using nat_of_bytes_less [of "take k (drop (k * i) a)"] by simp
  also have "\<dots> \<le> 256 ^ k" by (rule power_increasing) simp_all
  finally show ?thesis by (simp add: elem_def)
qed

text \<open>The types the arrays are accessed at are whole bytes wide.\<close>

definition whole_bytes :: "'w::len itself \<Rightarrow> bool" where
  "whole_bytes T \<longleftrightarrow> 8 * (LENGTH('w) div 8) = LENGTH('w)"

lemma whole_bytes_pow: "whole_bytes TYPE('w::len) \<Longrightarrow> 256 ^ (LENGTH('w) div 8) = (2::nat) ^ LENGTH('w)"
  using power_mult [of "2::nat" 8 "LENGTH('w) div 8"] by (simp add: whole_bytes_def)

lemma whole_bytes_types [simp]:
  "whole_bytes TYPE(8)" "whole_bytes TYPE(16)" "whole_bytes TYPE(32)" "whole_bytes TYPE(64)"
  by (simp_all add: whole_bytes_def)

lemma unat_of_nat_elem:
  "whole_bytes TYPE('w::len) \<Longrightarrow> unat (of_nat (elem (LENGTH('w) div 8) a i) :: 'w word) = elem (LENGTH('w) div 8) a i"
  using elem_less [of "LENGTH('w) div 8" a i]
  by (simp add: unsigned_of_nat take_bit_nat_eq_self whole_bytes_pow)

lemma length_store_elem: "store_elem i x a = Some a' \<Longrightarrow> length a' = length a"
  by (auto simp: store_elem_def Let_def split: if_splits)

lemma elem_store_same:
  fixes x :: "'w::len word"
  assumes "store_elem i x a = Some a'" "whole_bytes TYPE('w)"
  shows "elem (LENGTH('w) div 8) a' i = unat x"
proof -
  have "nat_of_bytes (bytes_of_nat (LENGTH('w) div 8) (unat x)) = unat x"
    using assms(2) by (simp add: nat_of_bytes_of_nat whole_bytes_pow unsigned_less)
  with assms(1) show ?thesis
    by (auto simp: store_elem_def elem_def Let_def split: if_splits)
qed

lemma elem_store_other:
  fixes x :: "'w::len word"
  assumes "store_elem i x a = Some a'" "j \<noteq> i"
  shows "elem (LENGTH('w) div 8) a' j = elem (LENGTH('w) div 8) a j"
proof -
  define k where "k = LENGTH('w) div 8"
  from assms(1) have a': "a' = take (k * i) a @ bytes_of_nat k (unat x) @ drop (k * i + k) a" and le: "k * i + k \<le> length a"
    by (auto simp: store_elem_def Let_def k_def split: if_splits)
  have "take k (drop (k * j) a') = take k (drop (k * j) a)"
  proof (cases "j < i")
    case True
    then have "k * j + k \<le> k * i" by (metis Suc_leI add.commute mult_Suc_right mult_le_mono2)
    then show ?thesis using le by (simp add: a' take_drop min_absorb2)
  next
    case False
    with assms(2) have "k * i + k \<le> k * j" by (metis Suc_leI add.commute linorder_neqE_nat mult_Suc_right mult_le_mono2)
    then obtain d where "k * j = k * i + k + d" using le_Suc_ex by blast
    then show ?thesis using le by (simp add: a' add.commute)
  qed
  then show ?thesis by (simp add: elem_def k_def)
qed

lemma load_elem_Some:
  "LENGTH('w::len) div 8 * n \<le> length a \<Longrightarrow> i < n \<Longrightarrow>
    load_elem a i = Some (of_nat (elem (LENGTH('w) div 8) a i) :: 'w word)"
  using mult_le_mono2 [of "Suc i" n "LENGTH('w) div 8"] by (simp add: load_elem_def Let_def add.commute)

lemma store_elem_Some:
  "LENGTH('w::len) div 8 * n \<le> length a \<Longrightarrow> i < n \<Longrightarrow> \<exists>a'. store_elem i (x :: 'w word) a = Some a'"
  using mult_le_mono2 [of "Suc i" n "LENGTH('w) div 8"] by (simp add: store_elem_def Let_def add.commute)

section \<open>Loops over an array\<close>

text \<open>One iteration of an elementwise loop stores an element, or leaves it.\<close>

definition put :: "nat \<Rightarrow> 'w::len word option \<Rightarrow> byte list \<Rightarrow> byte list option" where
  "put i x a = (case x of None \<Rightarrow> Some a | Some x \<Rightarrow> store_elem i x a)"

lemma put_ok:
  fixes x :: "'w::len word option"
  assumes "whole_bytes TYPE('w)" "LENGTH('w) div 8 * n \<le> length a" "i < n"
  shows "\<exists>a'. put i x a = Some a' \<and> length a' = length a \<and>
    (\<forall>j. elem (LENGTH('w) div 8) a' j = (case (if j = i then x else None) of None \<Rightarrow> elem (LENGTH('w) div 8) a j | Some y \<Rightarrow> unat y))"
proof (cases x)
  case (Some y)
  obtain a' where "store_elem i y a = Some a'" using store_elem_Some [OF assms(2,3)] by blast
  with Some show ?thesis
    using length_store_elem elem_store_same [OF _ assms(1)] elem_store_other by (fastforce simp: put_def)
qed (simp add: put_def)

lemma for_each_put:
  fixes g :: "nat \<Rightarrow> 'w::len word option"
  assumes "whole_bytes TYPE('w)" "LENGTH('w) div 8 * n \<le> length a"
    and body: "\<And>i b. i < n \<Longrightarrow> length b = length a \<Longrightarrow> body i b = put i (g i) b"
  shows "\<exists>a'. for_each [0..<n] body a = Some a' \<and> length a' = length a \<and>
    (\<forall>j. elem (LENGTH('w) div 8) a' j =
      (case (if j < n then g j else None) of None \<Rightarrow> elem (LENGTH('w) div 8) a j | Some y \<Rightarrow> unat y))"
proof -
  let ?k = "LENGTH('w) div 8"
  have "\<exists>a'. for_each [0..<m] body a = Some a' \<and> length a' = length a \<and>
    (\<forall>j. elem ?k a' j = (case (if j < m then g j else None) of None \<Rightarrow> elem ?k a j | Some y \<Rightarrow> unat y))" if "m \<le> n" for m
    using that
  proof (induction m)
    case (Suc m)
    then obtain b where b: "for_each [0..<m] body a = Some b" "length b = length a"
      "\<forall>j. elem ?k b j = (case (if j < m then g j else None) of None \<Rightarrow> elem ?k a j | Some y \<Rightarrow> unat y)" by auto
    have "?k * n \<le> length b" "m < n" using b(2) assms(2) Suc.prems by simp_all
    from put_ok [OF assms(1) this, of "g m"] obtain a' where a': "put m (g m) b = Some a'" "length a' = length b"
      "\<forall>j. elem ?k a' j = (case (if j = m then g m else None) of None \<Rightarrow> elem ?k b j | Some y \<Rightarrow> unat y)" by blast
    have "for_each [0..<Suc m] body a = Some a'"
      using body [of m b] b(1,2) a'(1) Suc.prems by (simp add: for_each_append)
    moreover have "elem ?k a' j = (case (if j < Suc m then g j else None) of None \<Rightarrow> elem ?k a j | Some y \<Rightarrow> unat y)" for j
      using a'(3) b(3) by (cases "j = m") (auto simp: less_Suc_eq split: option.splits)
    ultimately show ?case using a'(2) b(2) by auto
  qed simp
  then show ?thesis by blast
qed

lemma for_each_invariant:
  assumes "\<And>s i. i \<in> set idx \<Longrightarrow> P s \<Longrightarrow> \<exists>s'. body i s = Some s' \<and> P s'" "P s"
  shows "\<exists>s'. for_each idx body s = Some s' \<and> P s'"
  using assms
proof (induction idx arbitrary: s)
  case (Cons i idx)
  obtain s' where "body i s = Some s'" "P s'" using Cons.prems(1) [OF list.set_intros(1) Cons.prems(2)] by blast
  moreover have "\<exists>s''. for_each idx body s' = Some s'' \<and> P s''"
    using Cons.IH [OF Cons.prems(1) \<open>P s'\<close>] by simp
  ultimately show ?case by auto
qed simp

lemma random_array_ok:
  assumes "malloc_ok lc"
  shows "\<exists>arr. random_array lc sz s = Some (arr, s\<lparr>mallocs := mallocs s + 1, rands := rands s + sz div 4\<rparr>) \<and>
    length arr = sz \<and> (\<forall>i < sz div 4. elem 4 arr i = unat (rand lc (rands s + i)))"
proof -
  let ?b = "\<lambda>i (arr, s :: calls). map_option (\<lambda>arr. (arr, s\<lparr>rands := rands s + 1\<rparr>)) (store_elem i (rand lc (rands s)) arr)"
  define s1 where "s1 = s\<lparr>mallocs := mallocs s + 1\<rparr>"
  have "\<exists>arr. for_each [0..<m] ?b (malloc lc (mallocs s) sz, s1) = Some (arr, s1\<lparr>rands := rands s1 + m\<rparr>) \<and>
    length arr = sz \<and> (\<forall>i<m. elem 4 arr i = unat (rand lc (rands s1 + i)))" if "m \<le> sz div 4" for m
    using that
  proof (induction m)
    case (Suc m)
    then obtain arr where arr: "for_each [0..<m] ?b (malloc lc (mallocs s) sz, s1) = Some (arr, s1\<lparr>rands := rands s1 + m\<rparr>)"
      "length arr = sz" "\<forall>i<m. elem 4 arr i = unat (rand lc (rands s1 + i))" by auto
    have le: "LENGTH(32) div 8 * (sz div 4) \<le> length arr" and "m < sz div 4" using arr(2) Suc.prems by simp_all
    from store_elem_Some [OF this, of "rand lc (rands s1 + m)"]
    obtain a' where a': "store_elem m (rand lc (rands s1 + m)) arr = Some a'" by blast
    have "elem 4 a' i = unat (rand lc (rands s1 + i))" if "i < Suc m" for i
      using elem_store_same [OF a'] elem_store_other [OF a', of i] arr(3) that by (cases "i = m") (auto simp: less_Suc_eq)
    with a' arr show ?case by (simp add: for_each_append length_store_elem)
  qed (use assms in \<open>simp add: malloc_ok_def\<close>)
  from this [of "sz div 4"] show ?thesis
    by (simp add: random_array_def allocate_array_def s1_def)
qed

section \<open>The checksum\<close>

text \<open>Every workload ends by adding up its output as 64-bit numbers and printing the sum.\<close>

definition dummy_output :: "nat \<Rightarrow> byte list \<Rightarrow> 64 word option" where
  "dummy_output n output = for_each [0..<n] (\<lambda>i s. map_option (\<lambda>x. s + x) (load_elem output i)) 0"

lemma dummy_output_ok:
  assumes "8 * n \<le> length output"
  shows "dummy_output n output = Some (of_nat (\<Sum>i<n. elem 8 output i))"
proof -
  have "for_each [0..<m] (\<lambda>i s. map_option (\<lambda>x. s + x) (load_elem output i)) 0 =
      Some (of_nat (\<Sum>i<m. elem 8 output i) :: 64 word)" if "m \<le> n" for m
    using that
  proof (induction m)
    case (Suc m)
    have "load_elem output m = Some (of_nat (elem 8 output m) :: 64 word)"
      using load_elem_Some [where 'w = 64, of n "output" m] assms Suc.prems by simp
    with Suc show ?case by (simp add: for_each_append)
  qed simp
  then show ?thesis by (simp add: dummy_output_def)
qed

end
