(* ===== verification/Baseline.thy ===== *)
theory Baseline
  imports C_Arrays Row_Ops
begin

text \<open>
  The elementwise baseline workloads (\<open>microworkloads/*-baseline.c\<close>): the same computations as
  the row-operation workloads, on C arrays of 8, 16, 32 or 64 bit numbers. \<open>ITERATE2\<close> and
  \<open>ITERATE1\<close> are the loop of the macro \<open>ITERATE(type_t)\<close>; the \<open>*_elem\<close> functions are the
  expressions assigned in it, at the type the macro is given; the switch on \<open>col_length\<close> picks the type. An
  operation whose behaviour C leaves undefined is a failure.
\<close>

section \<open>The programs\<close>

definition ITERATE2 :: "('w::len word \<Rightarrow> 'w word \<Rightarrow> 'o::len word) \<Rightarrow> nat \<Rightarrow>
    byte list \<Rightarrow> byte list \<Rightarrow> byte list \<Rightarrow> byte list option" where
  "ITERATE2 f n v1 v2 out = for_each [0..<n] (\<lambda>i out. do {
     x \<leftarrow> load_elem v1 i;
     y \<leftarrow> load_elem v2 i;
     store_elem i (f x y) out }) out"

definition ITERATE1 :: "('w::len word \<Rightarrow> 'o::len word option) \<Rightarrow> nat \<Rightarrow> byte list \<Rightarrow> byte list \<Rightarrow> byte list option" where
  "ITERATE1 f n v1 out = for_each [0..<n] (\<lambda>i out. do {
     x \<leftarrow> load_elem v1 i;
     r \<leftarrow> f x;
     store_elem i r out }) out"

text \<open>The switch on the column length; other lengths run nothing.\<close>

definition switch_width :: "nat \<Rightarrow> 'a \<Rightarrow> 'a \<Rightarrow> 'a \<Rightarrow> 'a \<Rightarrow> 'a \<Rightarrow> 'a" where
  "switch_width col_length c8 c16 c32 c64 other =
     (if col_length = 8 then c8 else if col_length = 16 then c16
      else if col_length = 32 then c32 else if col_length = 64 then c64 else other)"

definition total_bytes :: "nat \<Rightarrow> nat \<Rightarrow> nat" where
  "total_bytes col_length arg2 = (let col_length_bytes = col_length div 8 in col_length_bytes * num_vals arg2)"

text \<open>
  The mains of the programs with two operands and with one: allocate and fill the operands, allocate
  the output, run the kernel twice, print the checksum.
\<close>

definition binary_main :: "libc \<Rightarrow> nat \<Rightarrow> nat \<Rightarrow> nat \<Rightarrow> (byte list \<Rightarrow> byte list \<Rightarrow> byte list \<Rightarrow> byte list option) \<Rightarrow>
    calls \<Rightarrow> (byte list \<times> byte list \<times> byte list \<times> 64 word) option" where
  "binary_main lc bytes out_bytes sum_words body s = do {
     (vals1, s) \<leftarrow> random_array lc bytes s;
     (vals2, s) \<leftarrow> random_array lc bytes s;
     let (output, s) = allocate_array lc out_bytes s;
     output \<leftarrow> for_each [0..<2] (\<lambda>iter. body vals1 vals2) output;
     printed \<leftarrow> dummy_output sum_words output;
     Some (vals1, vals2, output, printed) }"

definition unary_main :: "libc \<Rightarrow> nat \<Rightarrow> nat \<Rightarrow> nat \<Rightarrow> (byte list \<Rightarrow> byte list \<Rightarrow> byte list option) \<Rightarrow>
    calls \<Rightarrow> (byte list \<times> byte list \<times> 64 word) option" where
  "unary_main lc bytes out_bytes sum_words body s = do {
     (vals1, s) \<leftarrow> random_array lc bytes s;
     let (output, s) = allocate_array lc out_bytes s;
     output \<leftarrow> for_each [0..<2] (\<lambda>iter. body vals1) output;
     printed \<leftarrow> dummy_output sum_words output;
     Some (vals1, output, printed) }"

subsection \<open>Addition, subtraction, minimum, maximum\<close>

definition addition_elem :: "'w::len word \<Rightarrow> 'w word \<Rightarrow> 'w word" where
  "addition_elem v1 v2 = v1 + v2"

definition subtraction_elem :: "'w::len word \<Rightarrow> 'w word \<Rightarrow> 'w word" where
  "subtraction_elem v1 v2 = v1 - v2"

definition min_elem :: "'w::len word \<Rightarrow> 'w word \<Rightarrow> 'w word" where
  "min_elem v1 v2 = (if v1 < v2 then v1 else v2)"

definition max_elem :: "'w::len word \<Rightarrow> 'w word \<Rightarrow> 'w word" where
  "max_elem v1 v2 = (if v1 > v2 then v1 else v2)"

definition addition_baseline_main where
  "addition_baseline_main lc col_length arg2 =
     (let n = num_vals arg2; bytes = total_bytes col_length arg2 in
      binary_main lc bytes bytes (bytes div 8)
        (switch_width col_length
          (ITERATE2 (addition_elem :: 8 word \<Rightarrow> _) n) (ITERATE2 (addition_elem :: 16 word \<Rightarrow> _) n)
          (ITERATE2 (addition_elem :: 32 word \<Rightarrow> _) n) (ITERATE2 (addition_elem :: 64 word \<Rightarrow> _) n) (\<lambda>_ _. Some)))"

definition subtraction_baseline_main where
  "subtraction_baseline_main lc col_length arg2 =
     (let n = num_vals arg2; bytes = total_bytes col_length arg2 in
      binary_main lc bytes bytes (bytes div 8)
        (switch_width col_length
          (ITERATE2 (subtraction_elem :: 8 word \<Rightarrow> _) n) (ITERATE2 (subtraction_elem :: 16 word \<Rightarrow> _) n)
          (ITERATE2 (subtraction_elem :: 32 word \<Rightarrow> _) n) (ITERATE2 (subtraction_elem :: 64 word \<Rightarrow> _) n) (\<lambda>_ _. Some)))"

definition min_baseline_main where
  "min_baseline_main lc col_length arg2 =
     (let n = num_vals arg2; bytes = total_bytes col_length arg2 in
      binary_main lc bytes bytes (bytes div 8)
        (switch_width col_length
          (ITERATE2 (min_elem :: 8 word \<Rightarrow> _) n) (ITERATE2 (min_elem :: 16 word \<Rightarrow> _) n)
          (ITERATE2 (min_elem :: 32 word \<Rightarrow> _) n) (ITERATE2 (min_elem :: 64 word \<Rightarrow> _) n) (\<lambda>_ _. Some)))"

definition max_baseline_main where
  "max_baseline_main lc col_length arg2 =
     (let n = num_vals arg2; bytes = total_bytes col_length arg2 in
      binary_main lc bytes bytes (bytes div 8)
        (switch_width col_length
          (ITERATE2 (max_elem :: 8 word \<Rightarrow> _) n) (ITERATE2 (max_elem :: 16 word \<Rightarrow> _) n)
          (ITERATE2 (max_elem :: 32 word \<Rightarrow> _) n) (ITERATE2 (max_elem :: 64 word \<Rightarrow> _) n) (\<lambda>_ _. Some)))"

subsection \<open>Comparisons\<close>

text \<open>The output of a comparison is an array of \<open>uint8_t\<close>, zero or one.\<close>

definition greater_elem :: "'w::len word \<Rightarrow> 'w word \<Rightarrow> 8 word" where
  "greater_elem v1 v2 = of_bool (v1 > v2)"

definition greater_equal_elem :: "'w::len word \<Rightarrow> 'w word \<Rightarrow> 8 word" where
  "greater_equal_elem v1 v2 = of_bool (v1 \<ge> v2)"

definition equal_elem :: "'w::len word \<Rightarrow> 'w word \<Rightarrow> 8 word" where
  "equal_elem v1 v2 = of_bool (v1 = v2)"

definition greater_baseline_main where
  "greater_baseline_main lc col_length arg2 =
     (let n = num_vals arg2 in
      binary_main lc (total_bytes col_length arg2) n (n div 8)
        (switch_width col_length
          (ITERATE2 (greater_elem :: 8 word \<Rightarrow> _) n) (ITERATE2 (greater_elem :: 16 word \<Rightarrow> _) n)
          (ITERATE2 (greater_elem :: 32 word \<Rightarrow> _) n) (ITERATE2 (greater_elem :: 64 word \<Rightarrow> _) n) (\<lambda>_ _. Some)))"

definition greater_equal_baseline_main where
  "greater_equal_baseline_main lc col_length arg2 =
     (let n = num_vals arg2 in
      binary_main lc (total_bytes col_length arg2) n (n div 8)
        (switch_width col_length
          (ITERATE2 (greater_equal_elem :: 8 word \<Rightarrow> _) n) (ITERATE2 (greater_equal_elem :: 16 word \<Rightarrow> _) n)
          (ITERATE2 (greater_equal_elem :: 32 word \<Rightarrow> _) n) (ITERATE2 (greater_equal_elem :: 64 word \<Rightarrow> _) n) (\<lambda>_ _. Some)))"

definition equal_baseline_main where
  "equal_baseline_main lc col_length arg2 =
     (let n = num_vals arg2 in
      binary_main lc (total_bytes col_length arg2) n (n div 8)
        (switch_width col_length
          (ITERATE2 (equal_elem :: 8 word \<Rightarrow> _) n) (ITERATE2 (equal_elem :: 16 word \<Rightarrow> _) n)
          (ITERATE2 (equal_elem :: 32 word \<Rightarrow> _) n) (ITERATE2 (equal_elem :: 64 word \<Rightarrow> _) n) (\<lambda>_ _. Some)))"

subsection \<open>Multiplication\<close>

text \<open>The product is formed at the output type, twice as wide as the operands.\<close>

definition multu_elem :: "'w::len word \<Rightarrow> 'w word \<Rightarrow> 'o::len word" where
  "multu_elem v1 v2 = ucast v1 * ucast v2"

definition multu_baseline_main where
  "multu_baseline_main lc col_length arg2 =
     (let n = num_vals arg2; bytes = total_bytes col_length arg2 in
      binary_main lc bytes (2 * bytes) (bytes div 8)
        (switch_width col_length
          (ITERATE2 (multu_elem :: 8 word \<Rightarrow> _ \<Rightarrow> 16 word) n) (ITERATE2 (multu_elem :: 16 word \<Rightarrow> _ \<Rightarrow> 32 word) n)
          (ITERATE2 (multu_elem :: 32 word \<Rightarrow> _ \<Rightarrow> 64 word) n) (\<lambda>_ _. Some) (\<lambda>_ _. Some)))"

definition multc_elem :: "32 word \<Rightarrow> 'w::len word \<Rightarrow> 'o::len word option" where
  "multc_elem constant v1 = (let c = (ucast constant :: 'o word) in Some (c * ucast v1))"

definition multu_by_const_baseline_main ::
    "libc \<Rightarrow> nat \<Rightarrow> nat \<Rightarrow> calls \<Rightarrow> (32 word \<times> byte list \<times> byte list \<times> 64 word) option" where
  "multu_by_const_baseline_main lc col_length arg2 s = do {
     let n = num_vals arg2;
     let bytes = total_bytes col_length arg2;
     (vals1, s) \<leftarrow> random_array lc bytes s;
     let constant = rand lc (rands s);
     let (output, s) = allocate_array lc (2 * bytes) (s\<lparr>rands := rands s + 1\<rparr>);
     output \<leftarrow> for_each [0..<2] (\<lambda>iter. switch_width col_length
       (ITERATE1 (multc_elem constant :: 8 word \<Rightarrow> 16 word option) n)
       (ITERATE1 (multc_elem constant :: 16 word \<Rightarrow> 32 word option) n)
       (ITERATE1 (multc_elem constant :: 32 word \<Rightarrow> 64 word option) n) (\<lambda>_. Some) (\<lambda>_. Some) vals1) output;
     printed \<leftarrow> dummy_output (bytes div 8) output;
     Some (constant, vals1, output, printed) }"

subsection \<open>Division\<close>

text \<open>An element whose divisor is zero is left. Pointers that were never assigned are null blocks.\<close>

definition divu_ITERATE :: "'w::len itself \<Rightarrow> nat \<Rightarrow> byte list \<Rightarrow> byte list \<Rightarrow> byte list \<Rightarrow> byte list option" where
  "divu_ITERATE T n v1 v2 out = for_each [0..<n] (\<lambda>i out. do {
     y \<leftarrow> load_elem v2 i;
     if y \<noteq> (0 :: 'w word) then do { x \<leftarrow> load_elem v1 i; store_elem i (x div y) out } else Some out }) out"

definition divu_baseline_main ::
    "libc \<Rightarrow> nat \<Rightarrow> nat \<Rightarrow> calls \<Rightarrow> (byte list \<times> byte list \<times> byte list \<times> 64 word) option" where
  "divu_baseline_main lc col_length arg2 s = do {
     let n = num_vals arg2;
     let bytes = total_bytes col_length arg2;
     (vals1, vals2, output) \<leftarrow>
       (if col_length = 8 \<or> col_length = 16 \<or> col_length = 32 \<or> col_length = 64 then do {
          (vals1, s) \<leftarrow> random_array lc bytes s;
          (vals2, s) \<leftarrow> random_array lc bytes s;
          let (output, s) = allocate_array lc bytes s;
          Some (vals1, vals2, output) }
        else Some ([], [], []));
     output \<leftarrow> for_each [0..<2] (\<lambda>iter. switch_width col_length
       (divu_ITERATE TYPE(8) n) (divu_ITERATE TYPE(16) n) (divu_ITERATE TYPE(32) n) (divu_ITERATE TYPE(64) n)
       (\<lambda>_ _. Some) vals1 vals2) output;
     printed \<leftarrow> dummy_output (bytes div 8) output;
     Some (vals1, vals2, output, printed) }"

subsection \<open>Tests against zero\<close>

definition greater_equal_0_elem :: "'w::len word \<Rightarrow> 8 word option" where
  "greater_equal_0_elem v1 = Some (of_bool (v1 \<ge> 0))"

definition greater_equal_0_baseline_main where
  "greater_equal_0_baseline_main lc col_length arg2 =
     (let n = num_vals arg2 in
      unary_main lc (total_bytes col_length arg2) n (n div 8)
        (switch_width col_length
          (ITERATE1 (greater_equal_0_elem :: 8 word \<Rightarrow> _) n) (ITERATE1 (greater_equal_0_elem :: 16 word \<Rightarrow> _) n)
          (ITERATE1 (greater_equal_0_elem :: 32 word \<Rightarrow> _) n) (ITERATE1 (greater_equal_0_elem :: 64 word \<Rightarrow> _) n) (\<lambda>_. Some)))"

text \<open>The statement \<open>output[i] = v1[i] = 0\<close> assigns to both arrays.\<close>

definition greater_than_0_ITERATE ::
    "'w::len itself \<Rightarrow> nat \<Rightarrow> byte list \<times> byte list \<Rightarrow> (byte list \<times> byte list) option" where
  "greater_than_0_ITERATE T n st = for_each [0..<n] (\<lambda>i (v1, output). do {
     v1 \<leftarrow> store_elem i (0 :: 'w word) v1;
     output \<leftarrow> store_elem i (0 :: 8 word) output;
     Some (v1, output) }) st"

definition greater_than_0_baseline_main ::
    "libc \<Rightarrow> nat \<Rightarrow> nat \<Rightarrow> calls \<Rightarrow> (byte list \<times> byte list \<times> 64 word) option" where
  "greater_than_0_baseline_main lc col_length arg2 s = do {
     let n = num_vals arg2;
     (vals1, s) \<leftarrow> random_array lc (total_bytes col_length arg2) s;
     let (output, s) = allocate_array lc n s;
     (vals1, output) \<leftarrow> for_each [0..<2] (\<lambda>iter. switch_width col_length
       (greater_than_0_ITERATE TYPE(8) n) (greater_than_0_ITERATE TYPE(16) n)
       (greater_than_0_ITERATE TYPE(32) n) (greater_than_0_ITERATE TYPE(64) n) Some) (vals1, output);
     printed \<leftarrow> dummy_output (n div 8) output;
     Some (vals1, output, printed) }"

subsection \<open>Absolute value and rectification\<close>

text \<open>
  Here the types are signed. A negation at \<open>int32_t\<close> or \<open>int64_t\<close> overflows at the least value;
  the narrower types are negated as \<open>int\<close> and truncated.
\<close>

definition least :: "'w::len word" where
  "least = push_bit (LENGTH('w) - 1) 1"

definition abs_elem :: "'w::len word \<Rightarrow> 'w word option" where
  "abs_elem t = (if 0 \<le>s t then Some t
     else if 32 \<le> LENGTH('w) \<and> t = least then None else Some (- t))"

definition relu_elem :: "'w::len word \<Rightarrow> 'w word option" where
  "relu_elem t = Some (if 0 \<le>s t then t else 0)"

definition abs_baseline_main where
  "abs_baseline_main lc col_length arg2 =
     (let n = num_vals arg2; bytes = total_bytes col_length arg2 in
      unary_main lc bytes bytes (bytes div 8)
        (switch_width col_length
          (ITERATE1 (abs_elem :: 8 word \<Rightarrow> _) n) (ITERATE1 (abs_elem :: 16 word \<Rightarrow> _) n)
          (ITERATE1 (abs_elem :: 32 word \<Rightarrow> _) n) (ITERATE1 (abs_elem :: 64 word \<Rightarrow> _) n) (\<lambda>_. Some)))"

definition relu_baseline_main where
  "relu_baseline_main lc col_length arg2 =
     (let n = num_vals arg2; bytes = total_bytes col_length arg2 in
      unary_main lc bytes bytes (bytes div 8)
        (switch_width col_length
          (ITERATE1 (relu_elem :: 8 word \<Rightarrow> _) n) (ITERATE1 (relu_elem :: 16 word \<Rightarrow> _) n)
          (ITERATE1 (relu_elem :: 32 word \<Rightarrow> _) n) (ITERATE1 (relu_elem :: 64 word \<Rightarrow> _) n) (\<lambda>_. Some)))"

subsection \<open>Selection\<close>

text \<open>
  The macro declares \<open>type_t *out = (type_t *)out\<close>: the pointer is initialised by itself, so the
  stores do not go to \<open>output\<close> but through an indeterminate pointer, here the null block.
\<close>

definition if_then_else_ITERATE ::
    "'w::len itself \<Rightarrow> nat \<Rightarrow> byte list \<Rightarrow> byte list \<Rightarrow> byte list \<Rightarrow> byte list option" where
  "if_then_else_ITERATE T n sel v1 v2 = (let out = [] in for_each [0..<n] (\<lambda>i out. do {
     c \<leftarrow> load_elem sel i;
     if bit (c :: 8 word) 0 then do { x \<leftarrow> load_elem v1 i; store_elem i (x :: 'w word) out }
     else do { y \<leftarrow> load_elem v2 i; store_elem i (y :: 'w word) out } }) out)"

definition if_then_else_baseline_main ::
    "libc \<Rightarrow> nat \<Rightarrow> nat \<Rightarrow> calls \<Rightarrow> (byte list \<times> byte list \<times> byte list \<times> byte list \<times> 64 word) option" where
  "if_then_else_baseline_main lc col_length arg2 s = do {
     let n = num_vals arg2;
     let bytes = total_bytes col_length arg2;
     (vals1, s) \<leftarrow> random_array lc bytes s;
     (vals2, s) \<leftarrow> random_array lc bytes s;
     (sel, s) \<leftarrow> random_array lc n s;
     let (output, s) = allocate_array lc bytes s;
     _ \<leftarrow> for_each [0..<2] (\<lambda>iter out. switch_width col_length
       (if_then_else_ITERATE TYPE(8) n) (if_then_else_ITERATE TYPE(16) n)
       (if_then_else_ITERATE TYPE(32) n) (if_then_else_ITERATE TYPE(64) n) (\<lambda>_ _ _. Some out) sel vals1 vals2) [];
     printed \<leftarrow> dummy_output (bytes div 8) output;
     Some (sel, vals1, vals2, output, printed) }"

section \<open>The loops\<close>

lemma ITERATE2_elem:
  fixes f :: "'w::len word \<Rightarrow> 'w word \<Rightarrow> 'o::len word"
  assumes "whole_bytes TYPE('w)" "whole_bytes TYPE('o)"
    "LENGTH('w) div 8 * n \<le> length v1" "LENGTH('w) div 8 * n \<le> length v2" "LENGTH('o) div 8 * n \<le> length out"
    and f: "\<And>x y. unat (f x y) = h (unat x) (unat y)"
  shows "\<exists>out'. ITERATE2 f n v1 v2 out = Some out' \<and> length out' = length out \<and>
    (\<forall>i<n. elem (LENGTH('o) div 8) out' i = h (elem (LENGTH('w) div 8) v1 i) (elem (LENGTH('w) div 8) v2 i))"
proof -
  let ?x = "\<lambda>v i. of_nat (elem (LENGTH('w) div 8) v i) :: 'w word"
  have "\<exists>a'. ITERATE2 f n v1 v2 out = Some a' \<and> length a' = length out \<and>
    (\<forall>j. elem (LENGTH('o) div 8) a' j = (case (if j < n then Some (f (?x v1 j) (?x v2 j)) else None) of
      None \<Rightarrow> elem (LENGTH('o) div 8) out j | Some y \<Rightarrow> unat y))"
    unfolding ITERATE2_def
    by (rule for_each_put [OF assms(2,5)]) (simp add: load_elem_Some [OF assms(3)] load_elem_Some [OF assms(4)] put_def)
  then show ?thesis by (auto simp: f unat_of_nat_elem [OF assms(1)])
qed

lemma ITERATE1_elem:
  fixes f :: "'w::len word \<Rightarrow> 'o::len word option"
  assumes "whole_bytes TYPE('w)" "whole_bytes TYPE('o)"
    "LENGTH('w) div 8 * n \<le> length v1" "LENGTH('o) div 8 * n \<le> length out"
    and f: "\<And>i. i < n \<Longrightarrow> \<exists>y. f (of_nat (elem (LENGTH('w) div 8) v1 i)) = Some y \<and> unat y = h (elem (LENGTH('w) div 8) v1 i)"
  shows "\<exists>out'. ITERATE1 f n v1 out = Some out' \<and> length out' = length out \<and>
    (\<forall>i<n. elem (LENGTH('o) div 8) out' i = h (elem (LENGTH('w) div 8) v1 i))"
proof -
  let ?x = "\<lambda>i. f (of_nat (elem (LENGTH('w) div 8) v1 i))"
  have "\<exists>a'. ITERATE1 f n v1 out = Some a' \<and> length a' = length out \<and>
    (\<forall>j. elem (LENGTH('o) div 8) a' j = (case (if j < n then ?x j else None) of
      None \<Rightarrow> elem (LENGTH('o) div 8) out j | Some y \<Rightarrow> unat y))"
    unfolding ITERATE1_def
    by (rule for_each_put [OF assms(2,4)]) (auto simp: load_elem_Some [OF assms(3)] put_def dest!: f)
  then obtain a' where "ITERATE1 f n v1 out = Some a'" "length a' = length out"
    "\<forall>j. elem (LENGTH('o) div 8) a' j = (case (if j < n then ?x j else None) of
      None \<Rightarrow> elem (LENGTH('o) div 8) out j | Some y \<Rightarrow> unat y)" by blast
  with f show ?thesis by (intro exI [of _ a']) fastforce
qed


lemma divu_ITERATE_elem:
  assumes "whole_bytes TYPE('w::len)"
    "LENGTH('w) div 8 * n \<le> length v1" "LENGTH('w) div 8 * n \<le> length v2" "LENGTH('w) div 8 * n \<le> length out"
  shows "\<exists>out'. divu_ITERATE TYPE('w) n v1 v2 out = Some out' \<and> length out' = length out \<and>
    (\<forall>i<n. elem (LENGTH('w) div 8) out' i = (if elem (LENGTH('w) div 8) v2 i = 0 then elem (LENGTH('w) div 8) out i
      else elem (LENGTH('w) div 8) v1 i div elem (LENGTH('w) div 8) v2 i))"
proof -
  let ?x = "\<lambda>v i. of_nat (elem (LENGTH('w) div 8) v i) :: 'w word"
  have nz: "?x v i = 0 \<longleftrightarrow> elem (LENGTH('w) div 8) v i = 0" for v i
    using unat_of_nat_elem [OF assms(1), of v i] unat_eq_0 [of "?x v i"] by (simp del: unat_eq_0)
  have "\<exists>a'. divu_ITERATE TYPE('w) n v1 v2 out = Some a' \<and> length a' = length out \<and>
    (\<forall>j. elem (LENGTH('w) div 8) a' j = (case (if j < n then (if ?x v2 j = 0 then None else Some (?x v1 j div ?x v2 j)) else None) of
      None \<Rightarrow> elem (LENGTH('w) div 8) out j | Some y \<Rightarrow> unat y))"
    unfolding divu_ITERATE_def
    by (rule for_each_put [OF assms(1,4)]) (simp add: load_elem_Some [OF assms(2)] load_elem_Some [OF assms(3)] put_def)
  then show ?thesis by (auto simp: unat_div_distrib unat_of_nat_elem [OF assms(1)] nz)
qed

lemma for_each_two: "for_each [0..<2] body s = Option.bind (body 0 s) (body 1)"
  by (simp add: numeral_2_eq_2 Option.bind_assoc) (cases "body 0 s", auto split: Option.bind_split)

lemma for_each_2_establishes:
  assumes "\<And>s. P s \<Longrightarrow> \<exists>s'. body s = Some s' \<and> P s' \<and> Q s'" "P s"
  shows "\<exists>s'. for_each [0..<2] (\<lambda>iter. body) s = Some s' \<and> P s' \<and> Q s'"
proof -
  obtain s1 where "body s = Some s1" "P s1" using assms by blast
  moreover obtain s2 where "body s1 = Some s2" "P s2" "Q s2" using assms(1) [OF \<open>P s1\<close>] by blast
  ultimately show ?thesis by (simp add: for_each_two)
qed

section \<open>The mains\<close>

lemma binary_main_ok:
  assumes "malloc_ok lc" "8 * sum_words \<le> out_bytes"
    and "\<And>v1 v2 out. length v1 = bytes \<Longrightarrow> length v2 = bytes \<Longrightarrow> length out = out_bytes \<Longrightarrow>
      \<exists>out'. body v1 v2 out = Some out' \<and> length out' = out_bytes \<and> Q v1 v2 out'"
  shows "\<exists>v1 v2 out. binary_main lc bytes out_bytes sum_words body s =
      Some (v1, v2, out, of_nat (\<Sum>i < sum_words. elem 8 out i)) \<and> Q v1 v2 out"
proof -
  obtain v1 s1 where v1: "random_array lc bytes s = Some (v1, s1)" "length v1 = bytes"
    using random_array_ok [OF assms(1)] by blast
  obtain v2 s2 where v2: "random_array lc bytes s1 = Some (v2, s2)" "length v2 = bytes"
    using random_array_ok [OF assms(1)] by blast
  obtain out0 s3 where out0: "allocate_array lc out_bytes s2 = (out0, s3)" "length out0 = out_bytes"
    using assms(1) by (simp add: allocate_array_def malloc_ok_def)
  obtain out where out: "for_each [0..<2] (\<lambda>iter. body v1 v2) out0 = Some out" "length out = out_bytes" "Q v1 v2 out"
    using for_each_2_establishes [of "\<lambda>b. length b = out_bytes" "body v1 v2" "Q v1 v2" out0] assms(3) v1 v2 out0 by blast
  show ?thesis
    using v1 v2 out0 out dummy_output_ok [of sum_words out] assms(2) by (auto simp: binary_main_def)
qed

lemma unary_main_ok:
  assumes "malloc_ok lc" "8 * sum_words \<le> out_bytes"
    and "\<And>v out. length v = bytes \<Longrightarrow> (\<forall>i < bytes div 4. elem 4 v i = unat (rand lc (rands s + i))) \<Longrightarrow> length out = out_bytes \<Longrightarrow>
      \<exists>out'. body v out = Some out' \<and> length out' = out_bytes \<and> Q v out'"
  shows "\<exists>v out. unary_main lc bytes out_bytes sum_words body s =
      Some (v, out, of_nat (\<Sum>i < sum_words. elem 8 out i)) \<and> Q v out"
proof -
  obtain v s1 where v: "random_array lc bytes s = Some (v, s1)" "length v = bytes"
    and drawn: "\<forall>i < bytes div 4. elem 4 v i = unat (rand lc (rands s + i))"
    using random_array_ok [OF assms(1)] by blast
  obtain out0 s3 where out0: "allocate_array lc out_bytes s1 = (out0, s3)" "length out0 = out_bytes"
    using assms(1) by (simp add: allocate_array_def malloc_ok_def)
  obtain out where out: "for_each [0..<2] (\<lambda>iter. body v) out0 = Some out" "length out = out_bytes" "Q v out"
    using for_each_2_establishes [of "\<lambda>b. length b = out_bytes" "body v" "Q v" out0] assms(3) v drawn out0 by blast
  show ?thesis
    using v out0 out dummy_output_ok [of sum_words out] assms(2) by (auto simp: unary_main_def)
qed

lemma width_cases:
  assumes "n \<in> {8, 16, 32, 64}"
  obtains "n = (8::nat)" | "n = 16" | "n = 32" | "n = 64"
  using assms by blast

lemma switch_ITERATE2:
  fixes f8 :: "8 word \<Rightarrow> 8 word \<Rightarrow> 'a::len word" and f16 :: "16 word \<Rightarrow> 16 word \<Rightarrow> 'b::len word"
    and f32 :: "32 word \<Rightarrow> 32 word \<Rightarrow> 'c::len word" and f64 :: "64 word \<Rightarrow> 64 word \<Rightarrow> 'd::len word"
  assumes n: "n \<in> {8, 16, 32, 64}"
    and len: "n div 8 * m \<le> length v1" "n div 8 * m \<le> length v2" "ko n * m \<le> length out"
    and ko: "LENGTH('a) = 8 * ko 8" "LENGTH('b) = 8 * ko 16" "LENGTH('c) = 8 * ko 32" "LENGTH('d) = 8 * ko 64"
    and f: "\<And>x y. unat (f8 x y) = h 8 (unat x) (unat y)" "\<And>x y. unat (f16 x y) = h 16 (unat x) (unat y)"
      "\<And>x y. unat (f32 x y) = h 32 (unat x) (unat y)" "\<And>x y. unat (f64 x y) = h 64 (unat x) (unat y)"
  shows "\<exists>out'. switch_width n (ITERATE2 f8 m) (ITERATE2 f16 m) (ITERATE2 f32 m) (ITERATE2 f64 m) other v1 v2 out = Some out' \<and>
    length out' = length out \<and> (\<forall>i<m. elem (ko n) out' i = h n (elem (n div 8) v1 i) (elem (n div 8) v2 i))"
  using n
proof (cases rule: width_cases)
  case 1
  then show ?thesis using ITERATE2_elem [of m v1 v2 out f8 "h 8"] len f ko by (simp add: switch_width_def whole_bytes_def)
next
  case 2
  then show ?thesis using ITERATE2_elem [of m v1 v2 out f16 "h 16"] len f ko by (simp add: switch_width_def whole_bytes_def)
next
  case 3
  then show ?thesis using ITERATE2_elem [of m v1 v2 out f32 "h 32"] len f ko by (simp add: switch_width_def whole_bytes_def)
next
  case 4
  then show ?thesis using ITERATE2_elem [of m v1 v2 out f64 "h 64"] len f ko by (simp add: switch_width_def whole_bytes_def)
qed


lemma switch_ITERATE1:
  fixes f8 :: "8 word \<Rightarrow> 'a::len word option" and f16 :: "16 word \<Rightarrow> 'b::len word option"
    and f32 :: "32 word \<Rightarrow> 'c::len word option" and f64 :: "64 word \<Rightarrow> 'd::len word option"
  assumes n: "n \<in> {8, 16, 32, 64}"
    and len: "n div 8 * m \<le> length v" "ko n * m \<le> length out"
    and ko: "LENGTH('a) = 8 * ko 8" "LENGTH('b) = 8 * ko 16" "LENGTH('c) = 8 * ko 32" "LENGTH('d) = 8 * ko 64"
    and f: "\<And>i. n = 8 \<Longrightarrow> i < m \<Longrightarrow> \<exists>y. f8 (of_nat (elem 1 v i)) = Some y \<and> unat y = h 8 (elem 1 v i)"
      "\<And>i. n = 16 \<Longrightarrow> i < m \<Longrightarrow> \<exists>y. f16 (of_nat (elem 2 v i)) = Some y \<and> unat y = h 16 (elem 2 v i)"
      "\<And>i. n = 32 \<Longrightarrow> i < m \<Longrightarrow> \<exists>y. f32 (of_nat (elem 4 v i)) = Some y \<and> unat y = h 32 (elem 4 v i)"
      "\<And>i. n = 64 \<Longrightarrow> i < m \<Longrightarrow> \<exists>y. f64 (of_nat (elem 8 v i)) = Some y \<and> unat y = h 64 (elem 8 v i)"
  shows "\<exists>out'. switch_width n (ITERATE1 f8 m) (ITERATE1 f16 m) (ITERATE1 f32 m) (ITERATE1 f64 m) other v out = Some out' \<and>
    length out' = length out \<and> (\<forall>i<m. elem (ko n) out' i = h n (elem (n div 8) v i))"
  using n
proof (cases rule: width_cases)
  case 1
  then show ?thesis using ITERATE1_elem [of m v out f8 "h 8"] len f(1) ko by (simp add: switch_width_def whole_bytes_def)
next
  case 2
  then show ?thesis using ITERATE1_elem [of m v out f16 "h 16"] len f(2) ko by (simp add: switch_width_def whole_bytes_def)
next
  case 3
  then show ?thesis using ITERATE1_elem [of m v out f32 "h 32"] len f(3) ko by (simp add: switch_width_def whole_bytes_def)
next
  case 4
  then show ?thesis using ITERATE1_elem [of m v out f64 "h 64"] len f(4) ko by (simp add: switch_width_def whole_bytes_def)
qed

section \<open>What the programs compute\<close>

text \<open>The two shapes of program with two operands: results as wide as the operands, and truth values.\<close>

lemma same_width_program:
  fixes f8 :: "8 word \<Rightarrow> 8 word \<Rightarrow> 8 word" and f16 :: "16 word \<Rightarrow> 16 word \<Rightarrow> 16 word"
    and f32 :: "32 word \<Rightarrow> 32 word \<Rightarrow> 32 word" and f64 :: "64 word \<Rightarrow> 64 word \<Rightarrow> 64 word"
  assumes "malloc_ok lc" "n \<in> {8, 16, 32, 64}"
    and "\<And>x y. unat (f8 x y) = h 8 (unat x) (unat y)" "\<And>x y. unat (f16 x y :: 16 word) = h 16 (unat x) (unat y)"
      "\<And>x y. unat (f32 x y :: 32 word) = h 32 (unat x) (unat y)" "\<And>x y. unat (f64 x y :: 64 word) = h 64 (unat x) (unat y)"
  shows "\<exists>v1 v2 out. binary_main lc (total_bytes n arg2) (total_bytes n arg2) (total_bytes n arg2 div 8)
      (switch_width n (ITERATE2 f8 (num_vals arg2)) (ITERATE2 f16 (num_vals arg2)) (ITERATE2 f32 (num_vals arg2))
        (ITERATE2 f64 (num_vals arg2)) other) s =
      Some (v1, v2, out, of_nat (\<Sum>i<total_bytes n arg2 div 8. elem 8 out i)) \<and>
    (\<forall>i<num_vals arg2. elem (n div 8) out i = h n (elem (n div 8) v1 i) (elem (n div 8) v2 i))"
proof (rule binary_main_ok [OF assms(1)])
  fix v1 v2 out :: "byte list"
  assume "length v1 = total_bytes n arg2" "length v2 = total_bytes n arg2" "length out = total_bytes n arg2"
  then show "\<exists>out'. switch_width n (ITERATE2 f8 (num_vals arg2)) (ITERATE2 f16 (num_vals arg2)) (ITERATE2 f32 (num_vals arg2))
        (ITERATE2 f64 (num_vals arg2)) other v1 v2 out = Some out' \<and> length out' = total_bytes n arg2 \<and>
      (\<forall>i<num_vals arg2. elem (n div 8) out' i = h n (elem (n div 8) v1 i) (elem (n div 8) v2 i))"
    using switch_ITERATE2 [of n "num_vals arg2" v1 v2 "\<lambda>n. n div 8" out f8 h f16 f32 f64 other] assms(2-) by (simp add: total_bytes_def)
qed simp

lemma truth_value_program:
  fixes f8 :: "8 word \<Rightarrow> 8 word \<Rightarrow> 8 word" and f16 :: "16 word \<Rightarrow> 16 word \<Rightarrow> 8 word"
    and f32 :: "32 word \<Rightarrow> 32 word \<Rightarrow> 8 word" and f64 :: "64 word \<Rightarrow> 64 word \<Rightarrow> 8 word"
  assumes "malloc_ok lc" "n \<in> {8, 16, 32, 64}"
    and "\<And>x y. unat (f8 x y) = h 8 (unat x) (unat y)" "\<And>x y. unat (f16 x y :: 8 word) = h 16 (unat x) (unat y)"
      "\<And>x y. unat (f32 x y :: 8 word) = h 32 (unat x) (unat y)" "\<And>x y. unat (f64 x y :: 8 word) = h 64 (unat x) (unat y)"
  shows "\<exists>v1 v2 out. binary_main lc (total_bytes n arg2) (num_vals arg2) (num_vals arg2 div 8)
      (switch_width n (ITERATE2 f8 (num_vals arg2)) (ITERATE2 f16 (num_vals arg2)) (ITERATE2 f32 (num_vals arg2))
        (ITERATE2 f64 (num_vals arg2)) other) s =
      Some (v1, v2, out, of_nat (\<Sum>i<num_vals arg2 div 8. elem 8 out i)) \<and>
    (\<forall>i<num_vals arg2. elem 1 out i = h n (elem (n div 8) v1 i) (elem (n div 8) v2 i))"
proof (rule binary_main_ok [OF assms(1)])
  fix v1 v2 out :: "byte list"
  assume "length v1 = total_bytes n arg2" "length v2 = total_bytes n arg2" "length out = num_vals arg2"
  then show "\<exists>out'. switch_width n (ITERATE2 f8 (num_vals arg2)) (ITERATE2 f16 (num_vals arg2)) (ITERATE2 f32 (num_vals arg2))
        (ITERATE2 f64 (num_vals arg2)) other v1 v2 out = Some out' \<and> length out' = num_vals arg2 \<and>
      (\<forall>i<num_vals arg2. elem 1 out' i = h n (elem (n div 8) v1 i) (elem (n div 8) v2 i))"
    using switch_ITERATE2 [of n "num_vals arg2" v1 v2 "\<lambda>n. 1" out f8 h f16 f32 f64 other] assms(2-) by (simp add: total_bytes_def)
qed simp

lemma addition_baseline:
  assumes "malloc_ok lc" "n \<in> {8, 16, 32, 64}"
  shows "\<exists>v1 v2 out. addition_baseline_main lc n arg2 s =
      Some (v1, v2, out, of_nat (\<Sum>i<total_bytes n arg2 div 8. elem 8 out i)) \<and>
    (\<forall>i<num_vals arg2. elem (n div 8) out i = (elem (n div 8) v1 i + elem (n div 8) v2 i) mod 2 ^ n)"
  unfolding addition_baseline_main_def Let_def
  by (rule same_width_program [OF assms, where h = "\<lambda>n x y. (x + y) mod 2 ^ n"]) (simp_all add: addition_elem_def unat_word_ariths)

lemma unat_diff_mod: "unat (x - y :: 'w::len word) = (2 ^ LENGTH('w) + unat x - unat y) mod 2 ^ LENGTH('w)"
proof -
  have less: "unat x < 2 ^ LENGTH('w)" "unat y < 2 ^ LENGTH('w)" by simp_all
  show ?thesis
  proof (cases "unat y \<le> unat x")
    case True
    then have "2 ^ LENGTH('w) + unat x - unat y = unat x - unat y + 2 ^ LENGTH('w)" by linarith
    with True less show ?thesis by (simp only: unat_sub_if' if_True mod_add_self2 mod_less less_imp_diff_less)
  next
    case False
    with less have "2 ^ LENGTH('w) + unat x - unat y < 2 ^ LENGTH('w)" by linarith
    with False show ?thesis by (simp add: unat_sub_if' add.commute)
  qed
qed

lemma subtraction_baseline:
  assumes "malloc_ok lc" "n \<in> {8, 16, 32, 64}"
  shows "\<exists>v1 v2 out. subtraction_baseline_main lc n arg2 s =
      Some (v1, v2, out, of_nat (\<Sum>i<total_bytes n arg2 div 8. elem 8 out i)) \<and>
    (\<forall>i<num_vals arg2. elem (n div 8) out i = (2 ^ n + elem (n div 8) v1 i - elem (n div 8) v2 i) mod 2 ^ n)"
  unfolding subtraction_baseline_main_def Let_def
  by (rule same_width_program [OF assms, where h = "\<lambda>n x y. (2 ^ n + x - y) mod 2 ^ n"]) (simp_all add: subtraction_elem_def unat_diff_mod)

lemma min_baseline:
  assumes "malloc_ok lc" "n \<in> {8, 16, 32, 64}"
  shows "\<exists>v1 v2 out. min_baseline_main lc n arg2 s =
      Some (v1, v2, out, of_nat (\<Sum>i<total_bytes n arg2 div 8. elem 8 out i)) \<and>
    (\<forall>i<num_vals arg2. elem (n div 8) out i = min (elem (n div 8) v1 i) (elem (n div 8) v2 i))"
  unfolding min_baseline_main_def Let_def
  by (rule same_width_program [OF assms, where h = "\<lambda>n. min"]) (simp_all add: min_elem_def word_less_nat_alt)

lemma max_baseline:
  assumes "malloc_ok lc" "n \<in> {8, 16, 32, 64}"
  shows "\<exists>v1 v2 out. max_baseline_main lc n arg2 s =
      Some (v1, v2, out, of_nat (\<Sum>i<total_bytes n arg2 div 8. elem 8 out i)) \<and>
    (\<forall>i<num_vals arg2. elem (n div 8) out i = max (elem (n div 8) v1 i) (elem (n div 8) v2 i))"
  unfolding max_baseline_main_def Let_def
  by (rule same_width_program [OF assms, where h = "\<lambda>n. max"]) (simp_all add: max_elem_def word_less_nat_alt)

lemma greater_baseline:
  assumes "malloc_ok lc" "n \<in> {8, 16, 32, 64}"
  shows "\<exists>v1 v2 out. greater_baseline_main lc n arg2 s =
      Some (v1, v2, out, of_nat (\<Sum>i<num_vals arg2 div 8. elem 8 out i)) \<and>
    (\<forall>i<num_vals arg2. elem 1 out i = of_bool (elem (n div 8) v2 i < elem (n div 8) v1 i))"
  unfolding greater_baseline_main_def Let_def
  by (rule truth_value_program [OF assms, where h = "\<lambda>n x y. of_bool (y < x)"]) (simp_all add: greater_elem_def word_less_nat_alt)

lemma greater_equal_baseline:
  assumes "malloc_ok lc" "n \<in> {8, 16, 32, 64}"
  shows "\<exists>v1 v2 out. greater_equal_baseline_main lc n arg2 s =
      Some (v1, v2, out, of_nat (\<Sum>i<num_vals arg2 div 8. elem 8 out i)) \<and>
    (\<forall>i<num_vals arg2. elem 1 out i = of_bool (elem (n div 8) v2 i \<le> elem (n div 8) v1 i))"
  unfolding greater_equal_baseline_main_def Let_def
  by (rule truth_value_program [OF assms, where h = "\<lambda>n x y. of_bool (y \<le> x)"]) (simp_all add: greater_equal_elem_def word_le_nat_alt)

lemma equal_baseline:
  assumes "malloc_ok lc" "n \<in> {8, 16, 32, 64}"
  shows "\<exists>v1 v2 out. equal_baseline_main lc n arg2 s =
      Some (v1, v2, out, of_nat (\<Sum>i<num_vals arg2 div 8. elem 8 out i)) \<and>
    (\<forall>i<num_vals arg2. elem 1 out i = of_bool (elem (n div 8) v1 i = elem (n div 8) v2 i))"
  unfolding equal_baseline_main_def Let_def
  by (rule truth_value_program [OF assms, where h = "\<lambda>n x y. of_bool (x = y)"]) (simp_all add: equal_elem_def word_unat_eq_iff)


lemma unat_multu_elem:
  assumes "LENGTH('o::len) = 2 * LENGTH('w::len)"
  shows "unat (multu_elem (x :: 'w word) y :: 'o word) = unat x * unat y"
proof -
  have "unat x * unat y < 2 ^ LENGTH('w) * 2 ^ LENGTH('w)" by (rule mult_strict_mono) simp_all
  then have "unat x * unat y < 2 ^ LENGTH('o)" by (simp add: assms mult_2 power_add)
  moreover have "unat (ucast z :: 'o word) = unat z" for z :: "'w word"
    by (simp add: unsigned_ucast_eq take_bit_nat_eq_self less_le_trans [OF unsigned_less] assms power_increasing)
  ultimately show ?thesis by (simp add: multu_elem_def unat_word_ariths)
qed

lemma multu_baseline:
  assumes "malloc_ok lc" "n \<in> {8, 16, 32}"
  shows "\<exists>v1 v2 out. multu_baseline_main lc n arg2 s =
      Some (v1, v2, out, of_nat (\<Sum>i<total_bytes n arg2 div 8. elem 8 out i)) \<and>
    (\<forall>i<num_vals arg2. elem (2 * (n div 8)) out i = elem (n div 8) v1 i * elem (n div 8) v2 i)"
  unfolding multu_baseline_main_def Let_def
proof (rule binary_main_ok [OF assms(1)])
  fix v1 v2 out :: "byte list"
  assume "length v1 = total_bytes n arg2" "length v2 = total_bytes n arg2" "length out = 2 * total_bytes n arg2"
  then have len: "n div 8 * num_vals arg2 \<le> length v1" "n div 8 * num_vals arg2 \<le> length v2"
    "length out = 2 * total_bytes n arg2" "2 * (n div 8) * num_vals arg2 \<le> length out" by (simp_all add: total_bytes_def)
  from assms(2) consider "n = 8" | "n = 16" | "n = 32" by blast
  then show "\<exists>out'. switch_width n (ITERATE2 (multu_elem :: 8 word \<Rightarrow> _ \<Rightarrow> 16 word) (num_vals arg2))
       (ITERATE2 (multu_elem :: 16 word \<Rightarrow> _ \<Rightarrow> 32 word) (num_vals arg2))
       (ITERATE2 (multu_elem :: 32 word \<Rightarrow> _ \<Rightarrow> 64 word) (num_vals arg2)) (\<lambda>_ _. Some) (\<lambda>_ _. Some) v1 v2 out = Some out' \<and>
     length out' = 2 * total_bytes n arg2 \<and>
     (\<forall>i<num_vals arg2. elem (2 * (n div 8)) out' i = elem (n div 8) v1 i * elem (n div 8) v2 i)"
  proof cases
    case 1
    with len show ?thesis using ITERATE2_elem [of "num_vals arg2" v1 v2 out "multu_elem :: 8 word \<Rightarrow> _ \<Rightarrow> 16 word" "(*)"]
      by (simp add: switch_width_def unat_multu_elem)
  next
    case 2
    with len show ?thesis using ITERATE2_elem [of "num_vals arg2" v1 v2 out "multu_elem :: 16 word \<Rightarrow> _ \<Rightarrow> 32 word" "(*)"]
      by (simp add: switch_width_def unat_multu_elem)
  next
    case 3
    with len show ?thesis using ITERATE2_elem [of "num_vals arg2" v1 v2 out "multu_elem :: 32 word \<Rightarrow> _ \<Rightarrow> 64 word" "(*)"]
      by (simp add: switch_width_def unat_multu_elem)
  qed
qed arith

lemma unat_multc_elem:
  assumes "LENGTH('o::len) = 2 * LENGTH('w::len)"
  shows "\<exists>y. multc_elem c (x :: 'w word) = Some (y :: 'o word) \<and> unat y = unat c * unat x mod 2 ^ LENGTH('o)"
proof -
  have "unat (ucast x :: 'o word) = unat x"
    by (simp add: unsigned_ucast_eq take_bit_nat_eq_self less_le_trans [OF unsigned_less] assms power_increasing)
  moreover have "unat (ucast c :: 'o word) = unat c mod 2 ^ LENGTH('o)"
    by (simp add: unsigned_ucast_eq take_bit_eq_mod)
  ultimately show ?thesis by (simp add: multc_elem_def Let_def unat_word_ariths mod_mult_left_eq)
qed

lemma multc_elem_array:
  assumes "whole_bytes TYPE('w::len)" "LENGTH('o::len) = 2 * LENGTH('w)"
  shows "\<exists>y. multc_elem c (of_nat (elem (LENGTH('w) div 8) v i) :: 'w word) = Some (y :: 'o word) \<and>
    unat y = unat c * elem (LENGTH('w) div 8) v i mod 2 ^ LENGTH('o)"
  using unat_multc_elem [OF assms(2), of c "of_nat (elem (LENGTH('w) div 8) v i)"] unat_of_nat_elem [OF assms(1)] by simp

lemma multc_loop:
  assumes n: "n \<in> {8, 16, 32}" and len: "n div 8 * m \<le> length v" "2 * (n div 8) * m \<le> length out"
  shows "\<exists>out'. switch_width n (ITERATE1 (multc_elem c :: 8 word \<Rightarrow> 16 word option) m)
       (ITERATE1 (multc_elem c :: 16 word \<Rightarrow> 32 word option) m)
       (ITERATE1 (multc_elem c :: 32 word \<Rightarrow> 64 word option) m) (\<lambda>_. Some) (\<lambda>_. Some) v out = Some out' \<and> length out' = length out \<and>
     (\<forall>i<m. elem (2 * (n div 8)) out' i = unat c * elem (n div 8) v i mod 2 ^ (2 * n))"
proof -
  from n consider "n = 8" | "n = 16" | "n = 32" by blast
  then show ?thesis
  proof cases
    case 1
    with len show ?thesis using multc_elem_array [where 'w = 8 and 'o = 16]
      ITERATE1_elem [of m v out "multc_elem c :: 8 word \<Rightarrow> 16 word option" "\<lambda>x. unat c * x mod 2 ^ 16"]
      by (simp add: switch_width_def)
  next
    case 2
    with len show ?thesis using multc_elem_array [where 'w = 16 and 'o = 32]
      ITERATE1_elem [of m v out "multc_elem c :: 16 word \<Rightarrow> 32 word option" "\<lambda>x. unat c * x mod 2 ^ 32"]
      by (simp add: switch_width_def)
  next
    case 3
    with len show ?thesis using multc_elem_array [where 'w = 32 and 'o = 64]
      ITERATE1_elem [of m v out "multc_elem c :: 32 word \<Rightarrow> 64 word option" "\<lambda>x. unat c * x mod 2 ^ 64"]
      by (simp add: switch_width_def)
  qed
qed

lemma multu_by_const_baseline:
  assumes "malloc_ok lc" "n \<in> {8, 16, 32}"
  shows "\<exists>c v out. multu_by_const_baseline_main lc n arg2 s =
      Some (c, v, out, of_nat (\<Sum>i<total_bytes n arg2 div 8. elem 8 out i)) \<and>
    (\<forall>i<num_vals arg2. elem (2 * (n div 8)) out i = unat c * elem (n div 8) v i mod 2 ^ (2 * n))"
proof -
  let ?b = "total_bytes n arg2" and ?m = "num_vals arg2"
  obtain v s1 where v: "random_array lc ?b s = Some (v, s1)" "length v = ?b"
    using random_array_ok [OF assms(1)] by blast
  define c where "c = rand lc (rands s1)"
  obtain out0 s3 where out0: "allocate_array lc (2 * ?b) (s1\<lparr>rands := rands s1 + 1\<rparr>) = (out0, s3)" "length out0 = 2 * ?b"
    using assms(1) by (simp add: allocate_array_def malloc_ok_def)
  let ?body = "switch_width n (ITERATE1 (multc_elem c :: 8 word \<Rightarrow> 16 word option) ?m)
     (ITERATE1 (multc_elem c :: 16 word \<Rightarrow> 32 word option) ?m)
     (ITERATE1 (multc_elem c :: 32 word \<Rightarrow> 64 word option) ?m) (\<lambda>_. Some) (\<lambda>_. Some) v"
  have "\<exists>out'. ?body out = Some out' \<and> length out' = 2 * ?b \<and>
     (\<forall>i<?m. elem (2 * (n div 8)) out' i = unat c * elem (n div 8) v i mod 2 ^ (2 * n))" if "length out = 2 * ?b" for out
    using multc_loop [OF assms(2), of ?m v out c] v that by (simp add: total_bytes_def)
  then obtain out where out: "for_each [0..<2] (\<lambda>iter. ?body) out0 = Some out" "length out = 2 * ?b"
      "\<forall>i<?m. elem (2 * (n div 8)) out i = unat c * elem (n div 8) v i mod 2 ^ (2 * n)"
    using for_each_2_establishes [of "\<lambda>b. length b = 2 * ?b" ?body "\<lambda>out. \<forall>i<?m. elem (2 * (n div 8)) out i = unat c * elem (n div 8) v i mod 2 ^ (2 * n)" out0] out0 by blast
  have "8 * (?b div 8) \<le> length out" unfolding out(2) by arith
  then show ?thesis
    using v out0 out dummy_output_ok [of "?b div 8" out] by (simp add: multu_by_const_baseline_main_def c_def)
qed

lemma divu_baseline:
  assumes "malloc_ok lc" "n \<in> {8, 16, 32, 64}"
  shows "\<exists>v1 v2 out. divu_baseline_main lc n arg2 s =
      Some (v1, v2, out, of_nat (\<Sum>i<total_bytes n arg2 div 8. elem 8 out i)) \<and>
    (\<forall>i<num_vals arg2. elem (n div 8) v2 i \<noteq> 0 \<longrightarrow> elem (n div 8) out i = elem (n div 8) v1 i div elem (n div 8) v2 i)"
proof -
  let ?b = "total_bytes n arg2" and ?m = "num_vals arg2"
  let ?body = "switch_width n (divu_ITERATE TYPE(8) ?m) (divu_ITERATE TYPE(16) ?m) (divu_ITERATE TYPE(32) ?m) (divu_ITERATE TYPE(64) ?m) (\<lambda>_ _. Some)"
  have "divu_baseline_main lc n arg2 s = binary_main lc ?b ?b (?b div 8) ?body s"
    using assms(2) by (auto simp: divu_baseline_main_def binary_main_def split: Option.bind_splits prod.splits)
  moreover have "\<exists>v1 v2 out. binary_main lc ?b ?b (?b div 8) ?body s = Some (v1, v2, out, of_nat (\<Sum>i<?b div 8. elem 8 out i)) \<and>
    (\<forall>i<?m. elem (n div 8) v2 i \<noteq> 0 \<longrightarrow> elem (n div 8) out i = elem (n div 8) v1 i div elem (n div 8) v2 i)"
  proof (rule binary_main_ok [OF assms(1)])
    fix v1 v2 out :: "byte list"
    assume "length v1 = ?b" "length v2 = ?b" "length out = ?b"
    with assms(2) show "\<exists>out'. ?body v1 v2 out = Some out' \<and> length out' = ?b \<and>
      (\<forall>i<?m. elem (n div 8) v2 i \<noteq> 0 \<longrightarrow> elem (n div 8) out' i = elem (n div 8) v1 i div elem (n div 8) v2 i)"
      using divu_ITERATE_elem [where 'w = 8, of ?m v1 v2 out] divu_ITERATE_elem [where 'w = 16, of ?m v1 v2 out]
        divu_ITERATE_elem [where 'w = 32, of ?m v1 v2 out] divu_ITERATE_elem [where 'w = 64, of ?m v1 v2 out]
      by (elim width_cases) (simp_all add: switch_width_def total_bytes_def, auto)
  qed simp
  ultimately show ?thesis by simp
qed

lemma divu_baseline_undefined:
  assumes "n \<notin> {8, 16, 32, 64}" "8 \<le> n"
  shows "divu_baseline_main lc n arg2 s = None"
proof -
  have "8 \<le> num_vals arg2" by (simp add: num_vals_def)
  with assms(2) have "8 \<le> total_bytes n arg2"
    unfolding total_bytes_def Let_def using mult_le_mono [of 1 "n div 8" 8 "num_vals arg2"] by simp
  then have "0 < total_bytes n arg2 div 8" by (simp add: div_greater_zero_iff)
  then have "dummy_output (total_bytes n arg2 div 8) [] = None"
    by (simp add: dummy_output_def upt_rec [of 0] load_elem_def)
  with assms(1) show ?thesis
    by (simp add: divu_baseline_main_def switch_width_def for_each_two)
qed


subsection \<open>One operand\<close>

lemma unary_program:
  fixes f8 :: "8 word \<Rightarrow> 'a::len word option" and f16 :: "16 word \<Rightarrow> 'b::len word option"
    and f32 :: "32 word \<Rightarrow> 'c::len word option" and f64 :: "64 word \<Rightarrow> 'd::len word option"
  assumes "malloc_ok lc" "n \<in> {8, 16, 32, 64}" "out_bytes = ko n * num_vals arg2" "8 * sum_words \<le> out_bytes"
    and ko: "LENGTH('a) = 8 * ko 8" "LENGTH('b) = 8 * ko 16" "LENGTH('c) = 8 * ko 32" "LENGTH('d) = 8 * ko 64"
    and f: "\<And>x. x < 2 ^ 8 \<Longrightarrow> \<exists>y. f8 (of_nat x) = Some y \<and> unat y = h 8 x"
      "\<And>x. x < 2 ^ 16 \<Longrightarrow> \<exists>y. f16 (of_nat x) = Some y \<and> unat y = h 16 x"
      "\<And>v i. n = 32 \<Longrightarrow> length v = total_bytes n arg2 \<Longrightarrow> (\<forall>i < total_bytes n arg2 div 4. elem 4 v i = unat (rand lc (rands s + i))) \<Longrightarrow> i < num_vals arg2 \<Longrightarrow>
        \<exists>y. f32 (of_nat (elem 4 v i)) = Some y \<and> unat y = h 32 (elem 4 v i)"
      "\<And>v i. n = 64 \<Longrightarrow> length v = total_bytes n arg2 \<Longrightarrow> (\<forall>i < total_bytes n arg2 div 4. elem 4 v i = unat (rand lc (rands s + i))) \<Longrightarrow> i < num_vals arg2 \<Longrightarrow>
        \<exists>y. f64 (of_nat (elem 8 v i)) = Some y \<and> unat y = h 64 (elem 8 v i)"
  shows "\<exists>v out. unary_main lc (total_bytes n arg2) out_bytes sum_words
      (switch_width n (ITERATE1 f8 (num_vals arg2)) (ITERATE1 f16 (num_vals arg2)) (ITERATE1 f32 (num_vals arg2))
        (ITERATE1 f64 (num_vals arg2)) other) s =
      Some (v, out, of_nat (\<Sum>i < sum_words. elem 8 out i)) \<and>
    (\<forall>i<num_vals arg2. elem (ko n) out i = h n (elem (n div 8) v i))"
proof (rule unary_main_ok [OF assms(1,4)])
  fix v out :: "byte list"
  assume v: "length v = total_bytes n arg2" "\<forall>i < total_bytes n arg2 div 4. elem 4 v i = unat (rand lc (rands s + i))"
    and out: "length out = out_bytes"
  have "\<exists>y. f8 (of_nat (elem 1 v i)) = Some y \<and> unat y = h 8 (elem 1 v i)"
    "\<exists>y. f16 (of_nat (elem 2 v i)) = Some y \<and> unat y = h 16 (elem 2 v i)" for i
    using f(1) [of "elem 1 v i"] f(2) [of "elem 2 v i"] elem_less [of 1 v i] elem_less [of 2 v i] by simp_all
  with f(3,4) [OF _ v] show "\<exists>out'. switch_width n (ITERATE1 f8 (num_vals arg2)) (ITERATE1 f16 (num_vals arg2)) (ITERATE1 f32 (num_vals arg2))
      (ITERATE1 f64 (num_vals arg2)) other v out = Some out' \<and> length out' = out_bytes \<and>
      (\<forall>i<num_vals arg2. elem (ko n) out' i = h n (elem (n div 8) v i))"
    using switch_ITERATE1 [of n "num_vals arg2" v ko out f8 h f16 f32 f64 other, OF assms(2) _ _ ko] v out assms(3)
    by (simp add: total_bytes_def)
qed

lemma greater_equal_0_baseline:
  assumes "malloc_ok lc" "n \<in> {8, 16, 32, 64}"
  shows "\<exists>v out. greater_equal_0_baseline_main lc n arg2 s =
      Some (v, out, of_nat (\<Sum>i<num_vals arg2 div 8. elem 8 out i)) \<and> (\<forall>i<num_vals arg2. elem 1 out i = 1)"
  unfolding greater_equal_0_baseline_main_def Let_def
  by (rule unary_program [OF assms, where ko = "\<lambda>n. 1" and h = "\<lambda>n x. 1"]) (simp_all add: greater_equal_0_elem_def)

text \<open>Signed values.\<close>

definition signed_val :: "nat \<Rightarrow> nat \<Rightarrow> int" where
  "signed_val n x = (if x < 2 ^ (n - 1) then int x else int x - 2 ^ n)"

lemma zero_sle_iff: "0 \<le>s (t :: 'w::len word) \<longleftrightarrow> unat t < 2 ^ (LENGTH('w) - 1)"
proof -
  have "(2::nat) * 2 ^ (LENGTH('w) - 1) = 2 ^ LENGTH('w)" by (simp flip: power_Suc)
  then have "unat t div 2 ^ (LENGTH('w) - 1) < 2" by (intro less_mult_imp_div_less) simp
  then have "odd (unat t div 2 ^ (LENGTH('w) - 1)) \<longleftrightarrow> unat t div 2 ^ (LENGTH('w) - 1) \<noteq> 0"
    using not_less_eq by fastforce
  moreover have "bit t (LENGTH('w) - 1) \<longleftrightarrow> odd (unat t div 2 ^ (LENGTH('w) - 1))"
    using bit_unsigned_iff [where 'a = nat, of t "LENGTH('w) - 1"] by (simp add: bit_iff_odd [where 'a = nat])
  ultimately have "bit t (LENGTH('w) - 1) \<longleftrightarrow> \<not> unat t < 2 ^ (LENGTH('w) - 1)"
    by (simp add: div_eq_0_iff)
  then show ?thesis
    by (simp add: word_sle_eq sint_uint signed_take_bit_nonnegative_iff bit_uint_iff bit_unsigned_iff)
qed


lemma of_nat_array:
  fixes x :: nat
  assumes "x < 2 ^ LENGTH('w::len)"
  shows "unat (of_nat x :: 'w word) = x"
  using assms by (simp add: unsigned_of_nat take_bit_nat_eq_self)

lemma unat_least: "unat (least :: 'w::len word) = 2 ^ (LENGTH('w) - 1)"
  using of_nat_array [where 'w = 'w, of "2 ^ (LENGTH('w) - 1)"] by (simp add: least_def push_bit_eq_mult)

lemma nat_abs_diff: "x < 2 ^ k \<Longrightarrow> nat \<bar>int x - 2 ^ k\<bar> = 2 ^ k - x"
  using of_nat_less_iff [where 'a = int, of x "2 ^ k"] by (simp add: nat_diff_distrib nat_power_eq)

lemma abs_elem_signed:
  fixes t :: "'w::len word"
  assumes "LENGTH('w) < 32 \<or> t \<noteq> least"
  shows "\<exists>y. abs_elem t = Some y \<and> unat y = nat \<bar>signed_val LENGTH('w) (unat t)\<bar>"
proof (cases "0 \<le>s t")
  case True
  then show ?thesis by (simp add: abs_elem_def signed_val_def zero_sle_iff)
next
  case False
  then have high: "\<not> unat t < 2 ^ (LENGTH('w) - 1)" by (simp add: zero_sle_iff)
  have less: "unat t < 2 ^ LENGTH('w)" by simp
  then have "nat \<bar>int (unat t) - 2 ^ LENGTH('w)\<bar> = 2 ^ LENGTH('w) - unat t" by (rule nat_abs_diff)
  moreover have "unat (- t) = 2 ^ LENGTH('w) - unat t"
  proof -
    have "0 < unat t" using high by (cases "unat t = 0") auto
    then have "2 ^ LENGTH('w) - unat t < 2 ^ LENGTH('w)" by simp
    then show ?thesis using unat_diff_mod [of 0 t] by simp
  qed
  moreover have "abs_elem t = Some (- t)" using assms False by (auto simp: abs_elem_def)
  ultimately show ?thesis using high by (simp add: signed_val_def)
qed

lemma relu_elem_signed:
  "\<exists>y. relu_elem (t :: 'w::len word) = Some y \<and> unat y = (if unat t < 2 ^ (LENGTH('w) - 1) then unat t else 0)"
  by (simp add: relu_elem_def zero_sle_iff)

lemma nat_of_bytes_append: "nat_of_bytes (xs @ ys) = nat_of_bytes xs + 256 ^ length xs * nat_of_bytes ys"
  by (induction xs) (simp_all add: algebra_simps)

lemma elem_double: "elem (2 * k) a i = elem k a (2 * i) + 256 ^ k * elem k a (2 * i + 1)"
proof -
  let ?d = "drop (2 * k * i) a"
  have "take (2 * k) ?d = take k ?d @ take k (drop k ?d)" by (simp only: mult_2 take_add)
  then have "elem (2 * k) a i = nat_of_bytes (take k ?d) + 256 ^ min (length ?d) k * nat_of_bytes (take k (drop k ?d))"
    by (simp only: elem_def nat_of_bytes_append length_take)
  moreover have "256 ^ min (length ?d) k * nat_of_bytes (take k (drop k ?d)) = 256 ^ k * nat_of_bytes (take k (drop k ?d))"
    by (cases "length ?d < k") (simp_all add: min_def)
  moreover have "k * (2 * i + 1) = k + 2 * k * i" "k * (2 * i) = 2 * k * i" by (simp_all add: algebra_simps)
  ultimately show ?thesis by (simp only: elem_def drop_drop)
qed

text \<open>\<open>rand\<close> returns a number between zero and \<open>RAND_MAX\<close>, so 32-bit and 64-bit operands are not negative.\<close>

definition rand_ok :: "libc \<Rightarrow> bool" where
  "rand_ok lc \<longleftrightarrow> (\<forall>i. unat (rand lc i) < 2 ^ 31)"

lemma random_32:
  assumes "rand_ok lc" "\<forall>i < total_bytes 32 arg2 div 4. elem 4 v i = unat (rand lc (k + i))" "i < num_vals arg2"
  shows "elem 4 v i < 2 ^ 31"
  using assms by (simp add: rand_ok_def total_bytes_def)

lemma random_64:
  assumes "rand_ok lc" "\<forall>i < total_bytes 64 arg2 div 4. elem 4 v i = unat (rand lc (k + i))" "i < num_vals arg2"
  shows "elem 8 v i < 2 ^ 63"
proof -
  have "elem 4 v (2 * i + 1) < 2 ^ 31" "elem 4 v (2 * i) < 2 ^ 32"
    using assms elem_less [of 4 v "2 * i"] by (simp_all add: rand_ok_def total_bytes_def)
  then show ?thesis using elem_double [of 4 v i] by simp
qed

lemma abs_elem_small:
  "x < 2 ^ LENGTH('w::len) \<Longrightarrow> LENGTH('w) < 32 \<or> x < 2 ^ (LENGTH('w) - 1) \<Longrightarrow>
    \<exists>y. abs_elem (of_nat x :: 'w word) = Some y \<and> unat y = nat \<bar>signed_val LENGTH('w) x\<bar>"
  using abs_elem_signed [of "of_nat x :: 'w word"] of_nat_array [where 'w = 'w, of x] unat_least [where 'w = 'w] by fastforce

lemma relu_elem_nat:
  "x < 2 ^ LENGTH('w::len) \<Longrightarrow>
    \<exists>y. relu_elem (of_nat x :: 'w word) = Some y \<and> unat y = (if x < 2 ^ (LENGTH('w) - 1) then x else 0)"
  using relu_elem_signed [of "of_nat x :: 'w word"] of_nat_array [where 'w = 'w, of x]
  by (cases "x < 2 ^ (LENGTH('w) - 1)") simp_all

lemma abs_baseline:
  assumes "malloc_ok lc" "rand_ok lc" "n \<in> {8, 16, 32, 64}"
  shows "\<exists>v out. abs_baseline_main lc n arg2 s =
      Some (v, out, of_nat (\<Sum>i<total_bytes n arg2 div 8. elem 8 out i)) \<and>
    (\<forall>i<num_vals arg2. elem (n div 8) out i = nat \<bar>signed_val n (elem (n div 8) v i)\<bar>)"
  unfolding abs_baseline_main_def Let_def
proof (rule unary_program [OF assms(1,3), where ko = "\<lambda>n. n div 8" and h = "\<lambda>n x. nat \<bar>signed_val n x\<bar>"], goal_cases)
  case (9 v i)
  then have "elem 4 v i < 2 ^ 31" using random_32 [OF assms(2)] by simp
  then show ?case using abs_elem_small [where 'w = 32, of "elem 4 v i"] by simp
next
  case (10 v i)
  then have "elem 8 v i < 2 ^ 63" using random_64 [OF assms(2)] by simp
  then show ?case using abs_elem_small [where 'w = 64, of "elem 8 v i"] by simp
qed (use abs_elem_small [where 'w = 8] abs_elem_small [where 'w = 16] in \<open>simp_all add: total_bytes_def\<close>)

lemma relu_baseline:
  assumes "malloc_ok lc" "n \<in> {8, 16, 32, 64}"
  shows "\<exists>v out. relu_baseline_main lc n arg2 s =
      Some (v, out, of_nat (\<Sum>i<total_bytes n arg2 div 8. elem 8 out i)) \<and>
    (\<forall>i<num_vals arg2. elem (n div 8) out i = (if elem (n div 8) v i < 2 ^ (n - 1) then elem (n div 8) v i else 0))"
  unfolding relu_baseline_main_def Let_def
proof (rule unary_program [OF assms, where ko = "\<lambda>n. n div 8" and h = "\<lambda>n x. if x < 2 ^ (n - 1) then x else 0"], goal_cases)
  case (9 v i)
  show ?case using relu_elem_nat [where 'w = 32, of "elem 4 v i"] elem_less [of 4 v i] by simp
next
  case (10 v i)
  show ?case using relu_elem_nat [where 'w = 64, of "elem 8 v i"] elem_less [of 8 v i] by simp
qed (use relu_elem_nat [where 'w = 8] relu_elem_nat [where 'w = 16] in \<open>simp_all add: total_bytes_def\<close>)

subsection \<open>The two programs that fail\<close>

text \<open>The test \<open>> 0\<close> clears its operand and its output; the selection never returns.\<close>

lemma for_each_pair:
  "for_each idx (\<lambda>i (a, b). do { a \<leftarrow> f i a; b \<leftarrow> g i b; Some (a, b) }) (a, b) =
    do { a \<leftarrow> for_each idx f a; b \<leftarrow> for_each idx g b; Some (a, b) }"
proof (induction idx arbitrary: a b)
  case (Cons i idx)
  show ?case by (cases "f i a"; cases "g i b") (simp_all add: Cons split: Option.bind_split)
qed simp

lemma clear_loop:
  assumes "whole_bytes TYPE('w::len)" "LENGTH('w) div 8 * n \<le> length a"
  shows "\<exists>a'. for_each [0..<n] (\<lambda>i. store_elem i (0 :: 'w word)) a = Some a' \<and> length a' = length a \<and>
    (\<forall>i<n. elem (LENGTH('w) div 8) a' i = 0)"
proof -
  have "\<exists>a'. for_each [0..<n] (\<lambda>i. store_elem i (0 :: 'w word)) a = Some a' \<and> length a' = length a \<and>
    (\<forall>j. elem (LENGTH('w) div 8) a' j =
      (case (if j < n then Some (0 :: 'w word) else None) of None \<Rightarrow> elem (LENGTH('w) div 8) a j | Some y \<Rightarrow> unat y))"
    by (rule for_each_put [OF assms]) (simp add: put_def)
  then show ?thesis by auto
qed

lemma greater_than_0_ITERATE_clears:
  assumes "whole_bytes TYPE('w::len)" "LENGTH('w) div 8 * n \<le> length v" "n \<le> length out"
  shows "\<exists>v' out'. greater_than_0_ITERATE TYPE('w) n (v, out) = Some (v', out') \<and> length v' = length v \<and> length out' = length out \<and>
    (\<forall>i<n. elem (LENGTH('w) div 8) v' i = 0 \<and> elem 1 out' i = 0)"
  using clear_loop [OF assms(1,2)] clear_loop [where 'w = 8, of n out] assms(3)
  by (auto simp: greater_than_0_ITERATE_def for_each_pair)

lemma greater_than_0_baseline:
  assumes "malloc_ok lc" "n \<in> {8, 16, 32, 64}"
  shows "\<exists>v out. greater_than_0_baseline_main lc n arg2 s =
      Some (v, out, of_nat (\<Sum>i<num_vals arg2 div 8. elem 8 out i)) \<and>
    (\<forall>i<num_vals arg2. elem (n div 8) v i = 0 \<and> elem 1 out i = 0)"
proof -
  let ?b = "total_bytes n arg2" and ?m = "num_vals arg2"
  let ?body = "switch_width n (greater_than_0_ITERATE TYPE(8) ?m) (greater_than_0_ITERATE TYPE(16) ?m)
    (greater_than_0_ITERATE TYPE(32) ?m) (greater_than_0_ITERATE TYPE(64) ?m) Some"
  let ?P = "\<lambda>(v, out). length v = ?b \<and> length out = ?m"
  let ?Q = "\<lambda>(v, out). \<forall>i<?m. elem (n div 8) v i = 0 \<and> elem 1 out i = 0"
  obtain v0 s1 where v0: "random_array lc ?b s = Some (v0, s1)" "length v0 = ?b"
    using random_array_ok [OF assms(1)] by blast
  obtain out0 s3 where out0: "allocate_array lc ?m s1 = (out0, s3)" "length out0 = ?m"
    using assms(1) by (simp add: allocate_array_def malloc_ok_def)
  have "\<exists>st'. ?body st = Some st' \<and> ?P st' \<and> ?Q st'" if "?P st" for st
    using assms(2) that greater_than_0_ITERATE_clears [where 'w = 8, of ?m "fst st" "snd st"]
      greater_than_0_ITERATE_clears [where 'w = 16, of ?m "fst st" "snd st"]
      greater_than_0_ITERATE_clears [where 'w = 32, of ?m "fst st" "snd st"]
      greater_than_0_ITERATE_clears [where 'w = 64, of ?m "fst st" "snd st"]
    by (cases st) (elim width_cases; auto simp: switch_width_def total_bytes_def)
  from for_each_2_establishes [of ?P ?body ?Q "(v0, out0)", OF this] v0 out0
  obtain v out where "for_each [0..<2] (\<lambda>iter. ?body) (v0, out0) = Some (v, out)" "length out = ?m"
    "\<forall>i<?m. elem (n div 8) v i = 0 \<and> elem 1 out i = 0" by auto
  then show ?thesis
    using v0 out0 dummy_output_ok [of "?m div 8" out] by (simp add: greater_than_0_baseline_main_def)
qed

lemma if_then_else_ITERATE_fails:
  assumes "8 \<le> LENGTH('w::len)" "0 < n"
  shows "if_then_else_ITERATE TYPE('w) n sel v1 v2 = None"
proof -
  have "0 < LENGTH('w) div 8" using assms(1) by (simp add: div_greater_zero_iff)
  then have "store_elem 0 (x :: 'w word) [] = None" for x by (simp add: store_elem_def)
  with assms(2) show ?thesis
    by (simp add: if_then_else_ITERATE_def Let_def upt_rec [of 0] split: Option.bind_split)
qed

lemma if_then_else_baseline:
  assumes "n \<in> {8, 16, 32, 64}"
  shows "if_then_else_baseline_main lc n arg2 s = None"
proof -
  have "0 < num_vals arg2" by (simp add: num_vals_def)
  with assms show ?thesis
    by (elim width_cases)
      (simp_all add: if_then_else_baseline_main_def switch_width_def for_each_two if_then_else_ITERATE_fails Let_def split: Option.bind_split prod.split)
qed

end
