(* ===== verification/Swar.thy ===== *)
theory Swar
  imports Baseline Logic_Workloads Bitweave
begin

text \<open>
  The programs that combine the bits of one number inside a machine word: the baseline reductions
  (\<open>30_xor_reduction-baseline.c\<close>, \<open>31_and_reduction-baseline.c\<close>, \<open>32_or_reduction-baseline.c\<close>)
  fold a word onto itself, the baseline bit count (\<open>91_bitcount-baseline.c\<close>) and the population
  counts \<open>upopcount\<close> and \<open>numberOfSetBits\<close> add neighbouring digits. A word is read as a list of
  \<open>k\<close>-bit digits; one step halves the number of digits and keeps their sum.
\<close>

unbundle bit_operations_syntax

section \<open>The reductions\<close>

definition xor_reduction8 :: "8 word \<Rightarrow> 8 word" where
  "xor_reduction8 x =
     (let x = x XOR drop_bit 4 x;
          x = x XOR drop_bit 2 x;
          x = x XOR drop_bit 1 x
      in x AND 1)"

definition xor_reduction16 :: "16 word \<Rightarrow> 8 word" where
  "xor_reduction16 x =
     (let x = x XOR drop_bit 8 x;
          x = x XOR drop_bit 4 x;
          x = x XOR drop_bit 2 x;
          x = x XOR drop_bit 1 x
      in ucast x AND 1)"

definition xor_reduction32 :: "32 word \<Rightarrow> 8 word" where
  "xor_reduction32 x =
     (let x = x XOR drop_bit 16 x;
          x = x XOR drop_bit 8 x;
          x = x XOR drop_bit 4 x;
          x = x XOR drop_bit 2 x;
          x = x XOR drop_bit 1 x
      in ucast x AND 1)"

definition xor_reduction64 :: "64 word \<Rightarrow> 8 word" where
  "xor_reduction64 x =
     (let x = x XOR drop_bit 32 x;
          x = x XOR drop_bit 16 x;
          x = x XOR drop_bit 8 x;
          x = x XOR drop_bit 4 x;
          x = x XOR drop_bit 2 x;
          x = x XOR drop_bit 1 x
      in ucast x AND 1)"

text \<open>The conjunction is returned without a final mask.\<close>

definition and_reduction8 :: "8 word \<Rightarrow> 8 word" where
  "and_reduction8 x =
     (let x = x AND drop_bit 4 x;
          x = x AND drop_bit 2 x;
          x = x AND drop_bit 1 x
      in x)"

definition and_reduction16 :: "16 word \<Rightarrow> 8 word" where
  "and_reduction16 x =
     (let x = x AND drop_bit 8 x;
          x = x AND drop_bit 4 x;
          x = x AND drop_bit 2 x;
          x = x AND drop_bit 1 x
      in ucast x)"

definition and_reduction32 :: "32 word \<Rightarrow> 8 word" where
  "and_reduction32 x =
     (let x = x AND drop_bit 16 x;
          x = x AND drop_bit 8 x;
          x = x AND drop_bit 4 x;
          x = x AND drop_bit 2 x;
          x = x AND drop_bit 1 x
      in ucast x)"

definition and_reduction64 :: "64 word \<Rightarrow> 8 word" where
  "and_reduction64 x =
     (let x = x AND drop_bit 32 x;
          x = x AND drop_bit 16 x;
          x = x AND drop_bit 8 x;
          x = x AND drop_bit 4 x;
          x = x AND drop_bit 2 x;
          x = x AND drop_bit 1 x
      in ucast x)"

definition or_reduction8 :: "8 word \<Rightarrow> 8 word" where
  "or_reduction8 x =
     (let x = x OR drop_bit 4 x;
          x = x OR drop_bit 2 x;
          x = x OR drop_bit 1 x
      in x AND 1)"

definition or_reduction16 :: "16 word \<Rightarrow> 8 word" where
  "or_reduction16 x =
     (let x = x OR drop_bit 8 x;
          x = x OR drop_bit 4 x;
          x = x OR drop_bit 2 x;
          x = x OR drop_bit 1 x
      in ucast x AND 1)"

definition or_reduction32 :: "32 word \<Rightarrow> 8 word" where
  "or_reduction32 x =
     (let x = x OR drop_bit 16 x;
          x = x OR drop_bit 8 x;
          x = x OR drop_bit 4 x;
          x = x OR drop_bit 2 x;
          x = x OR drop_bit 1 x
      in ucast x AND 1)"

definition or_reduction64 :: "64 word \<Rightarrow> 8 word" where
  "or_reduction64 x =
     (let x = x OR drop_bit 32 x;
          x = x OR drop_bit 16 x;
          x = x OR drop_bit 8 x;
          x = x OR drop_bit 4 x;
          x = x OR drop_bit 2 x;
          x = x OR drop_bit 1 x
      in ucast x AND 1)"

section \<open>The bit counts\<close>

definition bitcount8 :: "8 word \<Rightarrow> 8 word" where
  "bitcount8 x =
     (let x = (x AND 0x55) + (drop_bit 1 x AND 0x55);
          x = (x AND 0x33) + (drop_bit 2 x AND 0x33);
          x = (x AND 0x0F) + (drop_bit 4 x AND 0x0F)
      in x)"

definition bitcount16 :: "16 word \<Rightarrow> 8 word" where
  "bitcount16 x =
     (let x = (x AND 0x5555) + (drop_bit 1 x AND 0x5555);
          x = (x AND 0x3333) + (drop_bit 2 x AND 0x3333);
          x = (x AND 0x0F0F) + (drop_bit 4 x AND 0x0F0F)
      in ucast x + ucast (drop_bit 8 x))"

definition bitcount32 :: "32 word \<Rightarrow> 8 word" where
  "bitcount32 x =
     (let x = (x AND 0x55555555) + (drop_bit 1 x AND 0x55555555);
          x = (x AND 0x33333333) + (drop_bit 2 x AND 0x33333333);
          x = (x AND 0x0F0F0F0F) + (drop_bit 4 x AND 0x0F0F0F0F);
          x = (x AND 0x00FF00FF) + (drop_bit 8 x AND 0x00FF00FF)
      in ucast x + ucast (drop_bit 16 x))"

definition bitcount64 :: "64 word \<Rightarrow> 8 word" where
  "bitcount64 x =
     (let x = (x AND 0x5555555555555555) + (drop_bit 1 x AND 0x5555555555555555);
          x = (x AND 0x3333333333333333) + (drop_bit 2 x AND 0x3333333333333333);
          x = (x AND 0x0F0F0F0F0F0F0F0F) + (drop_bit 4 x AND 0x0F0F0F0F0F0F0F0F);
          x = (x AND 0x00FF00FF00FF00FF) + (drop_bit 8 x AND 0x00FF00FF00FF00FF);
          x = (x AND 0x0000FFFF0000FFFF) + (drop_bit 16 x AND 0x0000FFFF0000FFFF)
      in ucast x + ucast (drop_bit 32 x))"

definition numberOfSetBits :: "32 word \<Rightarrow> 32 word" where
  "numberOfSetBits i =
     (let i = i - (drop_bit 1 i AND 0x55555555);
          i = (i AND 0x33333333) + (drop_bit 2 i AND 0x33333333)
      in drop_bit 24 (((i + drop_bit 4 i) AND 0x0F0F0F0F) * 0x01010101))"

section \<open>The programs\<close>

text \<open>The four programs differ only in the function applied to each element.\<close>

definition word_main where
  "word_main f8 f16 f32 f64 lc col_length arg2 =
     (let n = num_vals arg2 in
      unary_main lc (total_bytes col_length arg2) n (n div 8)
        (switch_width col_length
          (ITERATE1 (\<lambda>x :: 8 word. Some (f8 x :: 8 word)) n) (ITERATE1 (\<lambda>x :: 16 word. Some (f16 x :: 8 word)) n)
          (ITERATE1 (\<lambda>x :: 32 word. Some (f32 x :: 8 word)) n) (ITERATE1 (\<lambda>x :: 64 word. Some (f64 x :: 8 word)) n) (\<lambda>_. Some)))"

definition xor_reduction_baseline_main where
  "xor_reduction_baseline_main = word_main xor_reduction8 xor_reduction16 xor_reduction32 xor_reduction64"

definition and_reduction_baseline_main where
  "and_reduction_baseline_main = word_main and_reduction8 and_reduction16 and_reduction32 and_reduction64"

definition or_reduction_baseline_main where
  "or_reduction_baseline_main = word_main or_reduction8 or_reduction16 or_reduction32 or_reduction64"

definition bitcount_baseline_main where
  "bitcount_baseline_main = word_main bitcount8 bitcount16 bitcount32 bitcount64"

section \<open>Folding a word onto itself\<close>

lemma parity_add: "parity (m + k) b \<longleftrightarrow> parity m b \<noteq> parity k (\<lambda>j. b (m + j))"
  by (induction k) auto

lemma parity_xor: "parity m (\<lambda>j. f j \<noteq> g j) \<longleftrightarrow> parity m f \<noteq> parity m g"
  by (induction m) auto

lemma parity_fold: "parity (2 * m) (bit x) \<longleftrightarrow> parity m (bit (x XOR drop_bit m x))" for x :: "'w::len word"
proof -
  have "bit (x XOR drop_bit m x) = (\<lambda>j. bit x j \<noteq> bit x (m + j))" by (simp add: fun_eq_iff bit_xor_iff bit_drop_bit_eq)
  then show ?thesis by (simp only: mult_2 parity_add parity_xor)
qed

lemmas parity_folds = parity_fold [of 32, simplified] parity_fold [of 16, simplified] parity_fold [of 8, simplified]
  parity_fold [of 4, simplified] parity_fold [of 2, simplified] parity_fold [of 1, simplified]

lemma all_fold: "(\<forall>j<2 * m. bit x j) \<longleftrightarrow> (\<forall>j<m. bit (x AND drop_bit m x) j)" for x :: "'w::len word"
proof -
  have "(\<forall>j<m. bit x j \<and> bit x (m + j)) \<longleftrightarrow> (\<forall>j<2 * m. bit x j)"
  proof (intro iffI allI impI)
    fix j assume "\<forall>j<m. bit x j \<and> bit x (m + j)" "j < 2 * m"
    then show "bit x j" by (cases "j < m") (auto dest: spec [of _ "j - m"])
  qed auto
  then show ?thesis by (simp add: bit_and_iff bit_drop_bit_eq)
qed

lemma ex_fold: "(\<exists>j<2 * m. bit x j) \<longleftrightarrow> (\<exists>j<m. bit (x OR drop_bit m x) j)" for x :: "'w::len word"
proof -
  have "(\<exists>j<m. bit x j \<or> bit x (m + j)) \<longleftrightarrow> (\<exists>j<2 * m. bit x j)"
  proof (intro iffI)
    assume "\<exists>j<2 * m. bit x j"
    then obtain j where "j < 2 * m" "bit x j" by blast
    then show "\<exists>j<m. bit x j \<or> bit x (m + j)"
      by (cases "j < m") (auto intro: exI [of _ "j - m"])
  qed (metis add_less_cancel_left mult_2 trans_less_add1)
  then show ?thesis by (simp add: bit_or_iff bit_drop_bit_eq)
qed

lemmas all_folds = all_fold [of 32, simplified] all_fold [of 16, simplified] all_fold [of 8, simplified]
  all_fold [of 4, simplified] all_fold [of 2, simplified] all_fold [of 1, simplified]

lemmas ex_folds = ex_fold [of 32, simplified] ex_fold [of 16, simplified] ex_fold [of 8, simplified]
  ex_fold [of 4, simplified] ex_fold [of 2, simplified] ex_fold [of 1, simplified]


lemma low_bit: "x AND 1 = (of_bool (bit x 0) :: 8 word)"
  by (rule bit_word_eqI) (auto simp: bit_and_iff bit_1_iff bit_of_bool_iff)

lemma ucast_low: "bit (ucast x :: 8 word) 0 \<longleftrightarrow> bit x 0" for x :: "'w::len word"
  by (simp add: bit_ucast_iff)

lemma parity_1: "parity (Suc 0) b \<longleftrightarrow> b 0"
  by simp

lemma xor_reductions:
  "xor_reduction8 x8 = of_bool (parity 8 (bit x8))"
  "xor_reduction16 x16 = of_bool (parity 16 (bit x16))"
  "xor_reduction32 x32 = of_bool (parity 32 (bit x32))"
  "xor_reduction64 x64 = of_bool (parity 64 (bit x64))"
  by (simp_all only: xor_reduction8_def xor_reduction16_def xor_reduction32_def xor_reduction64_def Let_def
      low_bit ucast_low parity_folds parity_1 One_nat_def)

lemma or_reductions:
  "or_reduction8 x8 = of_bool (\<exists>j<8. bit x8 j)"
  "or_reduction16 x16 = of_bool (\<exists>j<16. bit x16 j)"
  "or_reduction32 x32 = of_bool (\<exists>j<32. bit x32 j)"
  "or_reduction64 x64 = of_bool (\<exists>j<64. bit x64 j)"
  by (simp_all only: or_reduction8_def or_reduction16_def or_reduction32_def or_reduction64_def Let_def
      low_bit ucast_low ex_folds One_nat_def)

text \<open>A conjunction step clears the upper half, so after the last one only the lowest bit is left.\<close>

definition below :: "nat \<Rightarrow> 'w::len word \<Rightarrow> bool" where
  "below m x \<longleftrightarrow> (\<forall>j\<ge>m. \<not> bit x j)"

lemma below_length: "below LENGTH('w) (x :: 'w::len word)"
  by (auto simp: below_def dest: bit_imp_le_length)

lemma below_fold: "below (2 * m) x \<Longrightarrow> below m (x AND drop_bit m x)" for x :: "'w::len word"
  by (auto simp: below_def bit_and_iff bit_drop_bit_eq)

lemmas below_folds = below_fold [of 32, simplified] below_fold [of 16, simplified] below_fold [of 8, simplified]
  below_fold [of 4, simplified] below_fold [of 2, simplified] below_fold [of 1, simplified]

lemma below_1: "below (Suc 0) x \<Longrightarrow> (ucast x :: 8 word) = of_bool (bit x 0)" for x :: "'w::len word"
proof (rule bit_word_eqI)
  fix j assume "below (Suc 0) x" "j < LENGTH(8)"
  then show "bit (ucast x :: 8 word) j \<longleftrightarrow> bit (of_bool (bit x 0) :: 8 word) j"
    by (cases j) (simp_all add: below_def bit_ucast_iff bit_of_bool_iff)
qed

lemma and_reductions:
  "and_reduction8 x8 = of_bool (\<forall>j<8. bit x8 j)"
  "and_reduction16 x16 = of_bool (\<forall>j<16. bit x16 j)"
  "and_reduction32 x32 = of_bool (\<forall>j<32. bit x32 j)"
  "and_reduction64 x64 = of_bool (\<forall>j<64. bit x64 j)"
proof -
  have "below 8 x8" "below 16 x16" "below 32 x32" "below 64 x64"
    using below_length [of x8] below_length [of x16] below_length [of x32] below_length [of x64] by simp_all
  have ucast8: "(ucast (x :: 8 word) :: 8 word) = x" for x by simp
  show "and_reduction8 x8 = of_bool (\<forall>j<8. bit x8 j)"
    using below_1 [OF below_folds(6) [OF below_folds(5) [OF below_folds(4) [OF \<open>below 8 x8\<close>]]]]
    by (simp only: and_reduction8_def Let_def all_folds One_nat_def ucast8 less_Suc0 simp_thms)
  show "and_reduction16 x16 = of_bool (\<forall>j<16. bit x16 j)"
    using below_1 [OF below_folds(6) [OF below_folds(5) [OF below_folds(4) [OF below_folds(3) [OF \<open>below 16 x16\<close>]]]]]
    by (simp only: and_reduction16_def Let_def all_folds One_nat_def ucast8 less_Suc0 simp_thms)
  show "and_reduction32 x32 = of_bool (\<forall>j<32. bit x32 j)"
    using below_1 [OF below_folds(6) [OF below_folds(5) [OF below_folds(4) [OF below_folds(3) [OF below_folds(2) [OF \<open>below 32 x32\<close>]]]]]]
    by (simp only: and_reduction32_def Let_def all_folds One_nat_def ucast8 less_Suc0 simp_thms)
  show "and_reduction64 x64 = of_bool (\<forall>j<64. bit x64 j)"
    using below_1 [OF below_folds(6) [OF below_folds(5) [OF below_folds(4) [OF below_folds(3) [OF below_folds(2) [OF below_folds(1) [OF \<open>below 64 x64\<close>]]]]]]]
    by (simp only: and_reduction64_def Let_def all_folds One_nat_def ucast8 less_Suc0 simp_thms)
qed


section \<open>Adding neighbouring digits\<close>

text \<open>The value of a list of digits, least significant first, and the lists of every other digit.\<close>

primrec digits_val :: "nat \<Rightarrow> nat list \<Rightarrow> nat" where
  "digits_val B [] = 0"
| "digits_val B (d # ds) = d + B * digits_val B ds"

fun evens :: "nat list \<Rightarrow> nat list" where
  "evens (a # b # ds) = a # evens ds"
| "evens ds = ds"

fun odds :: "nat list \<Rightarrow> nat list" where
  "odds (a # b # ds) = b # odds ds"
| "odds ds = []"

fun pair_sums :: "nat list \<Rightarrow> nat list" where
  "pair_sums (a # b # ds) = (a + b) # pair_sums ds"
| "pair_sums ds = ds"

text \<open>The mask with \<open>m\<close> groups of \<open>k\<close> set bits, \<open>k\<close> apart.\<close>

primrec gap_mask :: "nat \<Rightarrow> nat \<Rightarrow> nat" where
  "gap_mask k 0 = 0"
| "gap_mask k (Suc m) = (2 ^ k - 1) + 2 ^ (2 * k) * gap_mask k m"

lemma digits_val_less: "list_all (\<lambda>d. d < B) ds \<Longrightarrow> digits_val B ds < B ^ length ds"
proof (induction ds)
  case (Cons d ds)
  then have "d + B * digits_val B ds < B * Suc (digits_val B ds)" by simp
  also have "\<dots> \<le> B * B ^ length ds" using Cons by (intro mult_le_mono2) simp
  finally show ?case by simp
qed simp

lemma and_split:
  fixes a c r s :: nat
  assumes "a < 2 ^ p" "c < 2 ^ p"
  shows "(a + 2 ^ p * r) AND (c + 2 ^ p * s) = (a AND c) + 2 ^ p * (r AND s)"
proof -
  have bits: "bit (x + 2 ^ p * y) j \<longleftrightarrow> (if j < p then bit x j else bit y (j - p))" if "x < 2 ^ p" for x y j :: nat
  proof (cases "j < p")
    case True
    have "take_bit p (x + 2 ^ p * y) = x" using that by (simp add: take_bit_eq_mod)
    then have "bit (x + 2 ^ p * y) j = bit x j" using True by (metis bit_take_bit_iff)
    with True show ?thesis by simp
  next
    case False
    have "drop_bit p (x + 2 ^ p * y) = y" using that by (simp add: drop_bit_eq_div)
    then have "bit (x + 2 ^ p * y) (p + (j - p)) = bit y (j - p)" by (metis bit_drop_bit_eq comp_apply)
    with False show ?thesis by simp
  qed
  have "take_bit p (a AND c) = a AND c" using assms by (simp add: take_bit_nat_eq_self)
  then have "(a AND c) < 2 ^ p" by (simp only: take_bit_nat_eq_self_iff)
  then show ?thesis by (intro bit_eqI) (simp add: bits bit_and_iff assms)
qed

lemma and_low_mask: "(a + 2 ^ k * b) AND (2 ^ k - 1) = a" if "a < 2 ^ k" for a b :: nat
  using that take_bit_eq_mask [of k "a + 2 ^ k * b"] by (simp only: mask_eq_exp_minus_1 take_bit_eq_mod mod_mult_self2 mod_less)

lemma power_double: "2 ^ (2 * k) = 2 ^ k * (2::nat) ^ k"
  by (simp add: mult_2 power_add)

lemma pair_less: "a < 2 ^ k \<Longrightarrow> b < 2 ^ k \<Longrightarrow> a + 2 ^ k * b < 2 ^ (2 * k)" for a b :: nat
  using digits_val_less [of "2 ^ k" "[a, b]"] by (simp add: power_double)

lemma gap_mask_step:
  assumes "a < 2 ^ k" "b < 2 ^ k"
  shows "(a + 2 ^ k * (b + 2 ^ k * V)) AND gap_mask k (Suc m) = a + 2 ^ (2 * k) * (V AND gap_mask k m)"
proof -
  have "a + 2 ^ k * (b + 2 ^ k * V) = (a + 2 ^ k * b) + 2 ^ (2 * k) * V"
    by (simp only: power_double) (simp add: algebra_simps)
  moreover have "(2::nat) ^ k - 1 < 2 ^ (2 * k)"
    by (rule less_le_trans [of _ "2 ^ k"]) (simp_all add: power_increasing)
  ultimately show ?thesis
    using and_split [OF pair_less [OF assms], of "2 ^ k - 1" V "gap_mask k m"] and_low_mask [OF assms(1), of b] by (simp only: gap_mask.simps)
qed


lemma and_gap_mask:
  assumes "list_all (\<lambda>d. d < 2 ^ k) ds" "length ds = 2 * m"
  shows "digits_val (2 ^ k) ds AND gap_mask k m = digits_val (2 ^ (2 * k)) (evens ds)"
  using assms
proof (induction ds arbitrary: m rule: evens.induct)
  case (1 a b ds)
  then obtain m' where "m = Suc m'" "length ds = 2 * m'" by (cases m) auto
  with 1 show ?case by (simp add: gap_mask_step del: gap_mask.simps(2))
qed auto

lemma shift_and_gap_mask:
  assumes "list_all (\<lambda>d. d < 2 ^ k) ds" "length ds = 2 * m"
  shows "(digits_val (2 ^ k) ds div 2 ^ k) AND gap_mask k m = digits_val (2 ^ (2 * k)) (odds ds)"
  using assms
proof (induction ds arbitrary: m rule: odds.induct)
  case (1 a b ds)
  then obtain m' where m: "m = Suc m'" "length ds = 2 * m'" by (cases m) auto
  define W where "W = digits_val (2 ^ k) ds"
  have "W = W mod 2 ^ k + 2 ^ k * (W div 2 ^ k)" by (simp add: mult.commute)
  then have "(b + 2 ^ k * W) AND gap_mask k (Suc m') = b + 2 ^ (2 * k) * ((W div 2 ^ k) AND gap_mask k m')"
    using gap_mask_step [of b k "W mod 2 ^ k" "W div 2 ^ k" m'] 1(2) by simp
  with 1 m show ?case by (simp add: W_def del: gap_mask.simps(2))
qed auto

lemma digits_val_pair_sums:
  "even (length ds) \<Longrightarrow> digits_val B (evens ds) + digits_val B (odds ds) = digits_val B (pair_sums ds)"
proof (induction ds rule: pair_sums.induct)
  case (1 a b ds)
  then have "B * (digits_val B (evens ds) + digits_val B (odds ds)) = B * digits_val B (pair_sums ds)" by simp
  then show ?case by (simp add: add_mult_distrib2)
qed auto

lemma digits_val_evens_odds:
  "even (length ds) \<Longrightarrow> digits_val B ds = digits_val (B * B) (evens ds) + B * digits_val (B * B) (odds ds)"
  by (induction ds rule: pair_sums.induct) (auto simp: algebra_simps)

lemma pair_sums_facts:
  assumes "even (length ds)" "list_all (\<lambda>d. d \<le> c) ds"
  shows "list_all (\<lambda>d. d \<le> 2 * c) (pair_sums ds)" "sum_list (pair_sums ds) = sum_list ds"
    "2 * length (pair_sums ds) = length ds"
  using assms by (induction ds rule: pair_sums.induct) auto

text \<open>A word is split into \<open>k\<close>-bit digits that are at most \<open>c\<close> and add up to \<open>t\<close>.\<close>

definition digits :: "nat \<Rightarrow> nat \<Rightarrow> 'w::len word \<Rightarrow> nat \<Rightarrow> bool" where
  "digits k c x t \<longleftrightarrow> (\<exists>ds. k * length ds = LENGTH('w) \<and> list_all (\<lambda>d. d \<le> c) ds \<and>
     unat x = digits_val (2 ^ k) ds \<and> sum_list ds = t)"

definition bit_count :: "'w::len word \<Rightarrow> nat" where
  "bit_count x = (\<Sum>j<LENGTH('w). of_bool (bit x j))"

lemma digits_start: "digits 1 1 x (bit_count x)" for x :: "'w::len word"
proof -
  have "digits_val 2 (map (\<lambda>j. of_bool (bit x (i + j))) [0..<n]) = take_bit n (unat x div 2 ^ i)" for i n
  proof (induction n arbitrary: i)
    case (Suc n)
    have "map (\<lambda>j. of_bool (bit x (i + j)) :: nat) [0..<Suc n] = of_bool (bit x i) # map (\<lambda>j. of_bool (bit x (Suc i + j))) [0..<n]"
      by (simp add: upt_conv_Cons map_Suc_upt [symmetric] del: upt_Suc)
    moreover have "bit x i \<longleftrightarrow> odd (unat x div 2 ^ i)"
      using bit_unsigned_iff [where 'a = nat, of x i] by (simp add: bit_iff_odd [where 'a = nat])
    moreover have "unat x div 2 ^ Suc i = unat x div 2 ^ i div 2" by (simp only: power_Suc2 div_mult2_eq)
    ultimately show ?case
      by (simp only: digits_val.simps Suc.IH) (simp add: take_bit_Suc mod_2_eq_odd)
  qed simp
  from this [of 0 "LENGTH('w)"] have "unat x = digits_val 2 (map (\<lambda>j. of_bool (bit x j)) [0..<LENGTH('w)])"
    by (simp add: take_bit_nat_eq_self)
  then show ?thesis unfolding digits_def bit_count_def
    by (intro exI [of _ "map (\<lambda>j. of_bool (bit x j)) [0..<LENGTH('w)]"])
      (simp add: list_all_iff interv_sum_list_conv_sum_set_nat atLeast0LessThan)
qed

lemma unat_drop_bit: "unat (drop_bit k x) = unat x div 2 ^ k" for x :: "'w::len word"
  by (simp only: unsigned_drop_bit_eq) (simp add: drop_bit_eq_div take_bit_nat_eq_self)

lemma digits_step:
  fixes x M :: "'w::len word"
  assumes "digits k c x t" "c < 2 ^ k" "2 * c < 2 ^ (2 * k)" "2 * k * m = LENGTH('w)" "unat M = gap_mask k m"
  shows "digits (2 * k) (2 * c) ((x AND M) + (drop_bit k x AND M)) t"
proof -
  from assms(1) obtain ds where ds: "k * length ds = LENGTH('w)" "list_all (\<lambda>d. d \<le> c) ds" "unat x = digits_val (2 ^ k) ds" "sum_list ds = t"
    unfolding digits_def by blast
  have "0 < k" using assms(4) len_gt_0 [where 'a = 'w] by (cases k) auto
  then have len: "length ds = 2 * m" using ds(1) assms(4) by (metis mult.assoc mult.commute mult_left_cancel not_gr_zero)
  have small: "list_all (\<lambda>d. d < 2 ^ k) ds" using ds(2) assms(2) by (auto simp: list_all_iff)
  note facts = pair_sums_facts [OF _ ds(2)]
  have "digits_val (2 ^ (2 * k)) (pair_sums ds) < (2 ^ (2 * k)) ^ length (pair_sums ds)"
    using facts(1) len assms(3) by (intro digits_val_less) (auto simp: list_all_iff)
  moreover have "length (pair_sums ds) = m" using facts(3) len by simp
  ultimately have less: "digits_val (2 ^ (2 * k)) (pair_sums ds) < 2 ^ LENGTH('w)"
    using assms(4) by (simp flip: power_mult)
  have "unat (x AND M) + unat (drop_bit k x AND M) = digits_val (2 ^ (2 * k)) (pair_sums ds)"
    using and_gap_mask [OF small len] shift_and_gap_mask [OF small len] digits_val_pair_sums [of ds "2 ^ (2 * k)"] len
    by (simp only: unsigned_and_eq unat_drop_bit ds(3) assms(5)) simp
  with less have "unat ((x AND M) + (drop_bit k x AND M)) = digits_val (2 ^ (2 * k)) (pair_sums ds)"
    by (simp add: unat_word_ariths)
  with facts len ds(4) assms(4) \<open>length (pair_sums ds) = m\<close> show ?thesis
    unfolding digits_def by (intro exI [of _ "pair_sums ds"]) simp
qed


lemma digits_two:
  fixes x :: "'w::len word"
  assumes "digits p c x t" "LENGTH('w) = 2 * p" "8 \<le> p" "2 * c < 256"
  shows "unat (ucast x + ucast (drop_bit p x) :: 8 word) = t"
proof -
  from assms obtain ds where ds: "p * length ds = 2 * p" "list_all (\<lambda>d. d \<le> c) ds" "unat x = digits_val (2 ^ p) ds" "sum_list ds = t"
    unfolding digits_def by auto
  then have "length ds = 2" using assms(3) by auto
  then obtain d0 d1 where d: "ds = [d0, d1]" by (auto simp: length_Suc_conv numeral_2_eq_2)
  have x: "unat x = d0 + 2 ^ p * d1" and small: "d0 \<le> c" "d1 \<le> c" "t = d0 + d1" using ds d by auto
  have "(256::nat) \<le> 2 ^ p" using power_increasing [OF assms(3), of "2::nat"] by simp
  then have p: "d0 < 2 ^ p" using small assms(4) by linarith
  obtain q where q: "p = q + 8" using assms(3) le_Suc_ex by (metis add.commute)
  have "d0 + 2 ^ p * d1 = d0 + 256 * (2 ^ q * d1)" by (simp add: q power_add)
  then have "(d0 + 2 ^ p * d1) mod 256 = d0" using small assms(4) by (simp only: mod_mult_self2) simp
  then have "unat (ucast x :: 8 word) = d0" by (simp add: unsigned_ucast_eq take_bit_eq_mod x)
  moreover have "unat (ucast (drop_bit p x) :: 8 word) = d1"
    using small assms(4) p by (simp add: unsigned_ucast_eq take_bit_eq_mod unat_drop_bit x)
  ultimately show ?thesis using small assms(4) by (simp add: unat_word_ariths)
qed

lemma gap_mask_numeral [simp]:
  "gap_mask k (numeral n) = (2 ^ k - 1) + 2 ^ (2 * k) * gap_mask k (pred_numeral n)"
  by (simp add: numeral_eq_Suc)

text \<open>The steps of the four functions, and of \<open>upopcount\<close>.\<close>

lemma bitcount_step_1:
  "digits 1 1 x8 t \<Longrightarrow> digits 2 2 ((x8 AND 0x55) + (drop_bit 1 x8 AND 0x55) :: 8 word) t"
  "digits 1 1 x16 t \<Longrightarrow> digits 2 2 ((x16 AND 0x5555) + (drop_bit 1 x16 AND 0x5555) :: 16 word) t"
  "digits 1 1 x32 t \<Longrightarrow> digits 2 2 ((x32 AND 0x55555555) + (drop_bit 1 x32 AND 0x55555555) :: 32 word) t"
  "digits 1 1 x64 t \<Longrightarrow> digits 2 2 ((x64 AND 0x5555555555555555) + (drop_bit 1 x64 AND 0x5555555555555555) :: 64 word) t"
  using digits_step [of 1 1 x8 t 4 "0x55"]
    digits_step [of 1 1 x16 t 8 "0x5555"]
    digits_step [of 1 1 x32 t 16 "0x55555555"]
    digits_step [of 1 1 x64 t 32 "0x5555555555555555"]
  by simp_all

lemma bitcount_step_2:
  "digits 2 2 x8 t \<Longrightarrow> digits 4 4 ((x8 AND 0x33) + (drop_bit 2 x8 AND 0x33) :: 8 word) t"
  "digits 2 2 x16 t \<Longrightarrow> digits 4 4 ((x16 AND 0x3333) + (drop_bit 2 x16 AND 0x3333) :: 16 word) t"
  "digits 2 2 x32 t \<Longrightarrow> digits 4 4 ((x32 AND 0x33333333) + (drop_bit 2 x32 AND 0x33333333) :: 32 word) t"
  "digits 2 2 x64 t \<Longrightarrow> digits 4 4 ((x64 AND 0x3333333333333333) + (drop_bit 2 x64 AND 0x3333333333333333) :: 64 word) t"
  using digits_step [of 2 2 x8 t 2 "0x33"]
    digits_step [of 2 2 x16 t 4 "0x3333"]
    digits_step [of 2 2 x32 t 8 "0x33333333"]
    digits_step [of 2 2 x64 t 16 "0x3333333333333333"]
  by simp_all

lemma bitcount_step_4:
  "digits 4 4 x8 t \<Longrightarrow> digits 8 8 ((x8 AND 0x0F) + (drop_bit 4 x8 AND 0x0F) :: 8 word) t"
  "digits 4 4 x16 t \<Longrightarrow> digits 8 8 ((x16 AND 0x0F0F) + (drop_bit 4 x16 AND 0x0F0F) :: 16 word) t"
  "digits 4 4 x32 t \<Longrightarrow> digits 8 8 ((x32 AND 0x0F0F0F0F) + (drop_bit 4 x32 AND 0x0F0F0F0F) :: 32 word) t"
  "digits 4 4 x64 t \<Longrightarrow> digits 8 8 ((x64 AND 0x0F0F0F0F0F0F0F0F) + (drop_bit 4 x64 AND 0x0F0F0F0F0F0F0F0F) :: 64 word) t"
  using digits_step [of 4 4 x8 t 1 "0x0F"]
    digits_step [of 4 4 x16 t 2 "0x0F0F"]
    digits_step [of 4 4 x32 t 4 "0x0F0F0F0F"]
    digits_step [of 4 4 x64 t 8 "0x0F0F0F0F0F0F0F0F"]
  by simp_all

lemma bitcount_step_8:
  "digits 8 8 x32 t \<Longrightarrow> digits 16 16 ((x32 AND 0x00FF00FF) + (drop_bit 8 x32 AND 0x00FF00FF) :: 32 word) t"
  "digits 8 8 x64 t \<Longrightarrow> digits 16 16 ((x64 AND 0x00FF00FF00FF00FF) + (drop_bit 8 x64 AND 0x00FF00FF00FF00FF) :: 64 word) t"
  using digits_step [of 8 8 x32 t 2 "0x00FF00FF"]
    digits_step [of 8 8 x64 t 4 "0x00FF00FF00FF00FF"]
  by simp_all

lemma bitcount_step_16:
  "digits 16 16 x64 t \<Longrightarrow> digits 32 32 ((x64 AND 0x0000FFFF0000FFFF) + (drop_bit 16 x64 AND 0x0000FFFF0000FFFF) :: 64 word) t"
  using digits_step [of 16 16 x64 t 2 "0x0000FFFF0000FFFF"]
  by simp_all

lemma bitcounts:
  "unat (bitcount8 x8) = bit_count x8"
  "unat (bitcount16 x16) = bit_count x16"
  "unat (bitcount32 x32) = bit_count x32"
  "unat (bitcount64 x64) = bit_count x64"
proof -
  show "unat (bitcount8 x8) = bit_count x8"
    using digits_start [of x8, THEN bitcount_step_1(1), THEN bitcount_step_2(1), THEN bitcount_step_4(1)]
    by (auto simp: bitcount8_def digits_def length_Suc_conv Let_def)
  show "unat (bitcount16 x16) = bit_count x16" unfolding bitcount16_def Let_def
    by (rule digits_two [OF digits_start [of x16, THEN bitcount_step_1(2), THEN bitcount_step_2(2), THEN bitcount_step_4(2)]]) simp_all
  show "unat (bitcount32 x32) = bit_count x32" unfolding bitcount32_def Let_def
    by (rule digits_two [OF digits_start [of x32, THEN bitcount_step_1(3), THEN bitcount_step_2(3), THEN bitcount_step_4(3),
      THEN bitcount_step_8(1)]]) simp_all
  show "unat (bitcount64 x64) = bit_count x64" unfolding bitcount64_def Let_def
    by (rule digits_two [OF digits_start [of x64, THEN bitcount_step_1(4), THEN bitcount_step_2(4), THEN bitcount_step_4(4),
      THEN bitcount_step_8(2), THEN bitcount_step_16(1)]]) simp_all
qed


section \<open>The population counts\<close>

text \<open>Their first step subtracts, their third adds before it masks; both do what the other steps do.\<close>

lemma subtract_step:
  fixes x :: "32 word"
  assumes "digits 1 1 x t"
  shows "digits 2 2 (x - (drop_bit 1 x AND 0x55555555)) t"
proof -
  let ?M = "0x55555555 :: 32 word"
  from assms obtain ds where ds: "length ds = 32" "list_all (\<lambda>d. d \<le> 1) ds" "unat x = digits_val 2 ds"
    unfolding digits_def by auto
  have small: "list_all (\<lambda>d. d < 2 ^ 1) ds" using ds(2) by (auto simp: list_all_iff)
  have "unat (x AND ?M) = digits_val 4 (evens ds)" "unat (drop_bit 1 x AND ?M) = digits_val 4 (odds ds)"
    using and_gap_mask [OF small, of 16] shift_and_gap_mask [OF small, of 16] ds(1)
    by (simp_all add: unsigned_and_eq unat_drop_bit ds(3))
  then have "unat x = unat (x AND ?M) + 2 * unat (drop_bit 1 x AND ?M)"
    using digits_val_evens_odds [of ds 2] ds(1,3) by simp
  then have "of_nat (unat x) = (of_nat (unat (x AND ?M) + 2 * unat (drop_bit 1 x AND ?M)) :: 32 word)" by (rule arg_cong)
  then have "x = (x AND ?M) + 2 * (drop_bit 1 x AND ?M)" by simp
  then have eq: "x - (drop_bit 1 x AND ?M) = (x AND ?M) + (drop_bit 1 x AND ?M)" by (simp add: algebra_simps)
  show ?thesis using bitcount_step_1(3) [OF assms] unfolding eq .
qed

lemma eight_digits:
  assumes "length (ds :: nat list) = 8"
  obtains a b c d e f g h where "ds = [a, b, c, d, e, f, g, h]"
  using assms by (auto simp: length_Suc_conv numeral_eq_Suc)

lemma add_then_mask_step:
  fixes v :: "32 word"
  assumes "digits 4 4 v t"
  shows "digits 8 8 ((v + drop_bit 4 v) AND 0x0F0F0F0F) t"
proof -
  from assms obtain ds where "length ds = 8" and ds: "list_all (\<lambda>d. d \<le> 4) ds" "unat v = digits_val 16 ds" "sum_list ds = t"
    unfolding digits_def by auto
  then obtain a b c d e f g h where v: "ds = [a, b, c, d, e, f, g, h]" by (elim eight_digits)
  let ?s = "[a + b, b + c, c + d, d + e, e + f, f + g, g + h, h]"
  have small: "list_all (\<lambda>d. d < 2 ^ 4) ?s" using ds(1) v by simp
  let ?t = "digits_val 16 [b, c, d, e, f, g, h]"
  have "unat v = a + 16 * ?t" by (simp add: ds(2) v)
  moreover have "(a + 16 * T) div 16 = T" for T using ds(1) v by simp
  ultimately have sum_val: "unat v + unat v div 16 = digits_val 16 ?s" by simp
  have "digits_val 16 ?s < 16 ^ 8" using digits_val_less [OF small] by simp
  then have "unat (v + drop_bit 4 v) = digits_val 16 ?s"
    using sum_val by (simp add: unat_word_ariths unat_drop_bit)
  then have "unat ((v + drop_bit 4 v) AND 0x0F0F0F0F) = digits_val 256 [a + b, c + d, e + f, g + h]"
    using and_gap_mask [OF small, of 4] by (simp add: unsigned_and_eq)
  then show ?thesis using ds(1,3) v unfolding digits_def
    by (intro exI [of _ "[a + b, c + d, e + f, g + h]"]) simp
qed

lemma multiply_step:
  fixes w :: "32 word"
  assumes "digits 8 8 w t"
  shows "unat (drop_bit 24 (w * 0x01010101)) = t"
proof -
  from assms obtain ds where "length ds = 4" and ds: "list_all (\<lambda>d. d \<le> 8) ds" "unat w = digits_val 256 ds" "sum_list ds = t"
    unfolding digits_def by auto
  then obtain a b c d where v: "ds = [a, b, c, d]" by (auto simp: length_Suc_conv numeral_eq_Suc)
  let ?low = "a + 256 * (a + b) + 65536 * (a + b + c) + 16777216 * (a + b + c + d)"
  have small: "a + 256 * (a + b) + 65536 * (a + b + c) < 2 ^ 24" "a + b + c + d = t" "t < 256" using ds(1,3) v by simp_all
  then have low: "?low < 2 ^ 32" by simp
  have "?low = a + 256 * (a + b) + 65536 * (a + b + c) + 2 ^ 24 * t" using small by simp
  then have low_div: "?low div 2 ^ 24 = t" using small(1) by (simp only: div_mult_self2) simp
  have "unat w * 0x01010101 = ?low + 2 ^ 32 * (b + c + d + 256 * (c + d) + 65536 * d)"
    by (simp add: ds(2) v algebra_simps)
  then have "unat w * 0x01010101 mod 2 ^ 32 = ?low" using low by (simp only: mod_mult_self2 mod_less)
  then show ?thesis using low_div by (simp add: unat_word_ariths unat_drop_bit)
qed

lemma population_counts:
  "unat (upopcount x) = bit_count x" "unat (numberOfSetBits x) = bit_count x"
  unfolding upopcount_def numberOfSetBits_def Let_def
  by (rule multiply_step [OF add_then_mask_step [OF bitcount_step_2(3) [OF subtract_step [OF digits_start]]]])+

section \<open>What the programs compute\<close>

lemma word_program:
  assumes "malloc_ok lc" "n \<in> {8, 16, 32, 64}"
    and "\<And>x. unat (f8 x) = h 8 (unat x)" "\<And>x. unat (f16 x) = h 16 (unat x)"
      "\<And>x. unat (f32 x) = h 32 (unat x)" "\<And>x. unat (f64 x) = h 64 (unat x)"
  shows "\<exists>v out. word_main f8 f16 f32 f64 lc n arg2 s =
      Some (v, out, of_nat (\<Sum>i<num_vals arg2 div 8. elem 8 out i)) \<and>
    (\<forall>i<num_vals arg2. elem 1 out i = h n (elem (n div 8) v i))"
  unfolding word_main_def Let_def
proof (rule unary_program [OF assms(1,2), where ko = "\<lambda>n. 1" and h = h], goal_cases)
  case (9 v i)
  show ?case using of_nat_array [where 'w = 32, of "elem 4 v i"] elem_less [of 4 v i] assms(5) [of "of_nat (elem 4 v i)"] by simp
next
  case (10 v i)
  show ?case using of_nat_array [where 'w = 64, of "elem 8 v i"] elem_less [of 8 v i] assms(6) [of "of_nat (elem 8 v i)"] by simp
next
  case (7 x)
  then show ?case using of_nat_array [where 'w = 8, of x] assms(3) [of "of_nat x"] by simp
next
  case (8 x)
  then show ?case using of_nat_array [where 'w = 16, of x] assms(4) [of "of_nat x"] by simp
qed simp_all

text \<open>The specification of the four functions on the number an element holds.\<close>

definition count_bits :: "nat \<Rightarrow> nat \<Rightarrow> nat" where
  "count_bits n x = (\<Sum>j<n. of_bool (bit x j))"

lemma unat_of_bool: "unat (of_bool b :: 'w::len word) = of_bool b"
  by (cases b) simp_all

lemma bit_unat: "bit (unat x) j \<longleftrightarrow> bit x j" for x :: "'w::len word"
  by (simp add: bit_unsigned_iff)

lemma word_programs:
  assumes "malloc_ok lc" "n \<in> {8, 16, 32, 64}"
  shows "\<exists>v out. xor_reduction_baseline_main lc n arg2 s = Some (v, out, of_nat (\<Sum>i<num_vals arg2 div 8. elem 8 out i)) \<and>
      (\<forall>i<num_vals arg2. elem 1 out i = of_bool (parity n (bit (elem (n div 8) v i))))"
    "\<exists>v out. and_reduction_baseline_main lc n arg2 s = Some (v, out, of_nat (\<Sum>i<num_vals arg2 div 8. elem 8 out i)) \<and>
      (\<forall>i<num_vals arg2. elem 1 out i = of_bool (\<forall>j<n. bit (elem (n div 8) v i) j))"
    "\<exists>v out. or_reduction_baseline_main lc n arg2 s = Some (v, out, of_nat (\<Sum>i<num_vals arg2 div 8. elem 8 out i)) \<and>
      (\<forall>i<num_vals arg2. elem 1 out i = of_bool (\<exists>j<n. bit (elem (n div 8) v i) j))"
    "\<exists>v out. bitcount_baseline_main lc n arg2 s = Some (v, out, of_nat (\<Sum>i<num_vals arg2 div 8. elem 8 out i)) \<and>
      (\<forall>i<num_vals arg2. elem 1 out i = count_bits n (elem (n div 8) v i))"
proof -
  have eta: "bit (unat x) = bit x" for x :: "'w::len word" by (simp add: fun_eq_iff bit_unat)
  show "\<exists>v out. xor_reduction_baseline_main lc n arg2 s = Some (v, out, of_nat (\<Sum>i<num_vals arg2 div 8. elem 8 out i)) \<and>
      (\<forall>i<num_vals arg2. elem 1 out i = of_bool (parity n (bit (elem (n div 8) v i))))"
    unfolding xor_reduction_baseline_main_def
    by (rule word_program [OF assms, where h = "\<lambda>n x. of_bool (parity n (bit x))"]) (simp_all only: xor_reductions eta unat_of_bool)
  show "\<exists>v out. and_reduction_baseline_main lc n arg2 s = Some (v, out, of_nat (\<Sum>i<num_vals arg2 div 8. elem 8 out i)) \<and>
      (\<forall>i<num_vals arg2. elem 1 out i = of_bool (\<forall>j<n. bit (elem (n div 8) v i) j))"
    unfolding and_reduction_baseline_main_def
    by (rule word_program [OF assms, where h = "\<lambda>n x. of_bool (\<forall>j<n. bit x j)"]) (simp_all only: and_reductions bit_unat unat_of_bool)
  show "\<exists>v out. or_reduction_baseline_main lc n arg2 s = Some (v, out, of_nat (\<Sum>i<num_vals arg2 div 8. elem 8 out i)) \<and>
      (\<forall>i<num_vals arg2. elem 1 out i = of_bool (\<exists>j<n. bit (elem (n div 8) v i) j))"
    unfolding or_reduction_baseline_main_def
    by (rule word_program [OF assms, where h = "\<lambda>n x. of_bool (\<exists>j<n. bit x j)"]) (simp_all only: or_reductions bit_unat unat_of_bool)
  show "\<exists>v out. bitcount_baseline_main lc n arg2 s = Some (v, out, of_nat (\<Sum>i<num_vals arg2 div 8. elem 8 out i)) \<and>
      (\<forall>i<num_vals arg2. elem 1 out i = count_bits n (elem (n div 8) v i))"
    unfolding bitcount_baseline_main_def
    by (rule word_program [OF assms, where h = count_bits]) (simp_all add: bitcounts bit_count_def count_bits_def bit_unat)
qed

end
