(* ===== verification/Int_Math.thy ===== *)
theory Int_Math
  imports Swar
begin

text \<open>
  The integer functions of the simulator's base library that the memory system uses:
  \<open>gem5/src/base/intmath.hh\<close>, \<open>intmath.cc\<close> and \<open>bitfield.hh\<close>, at the type \<open>uint64_t\<close> (and \<open>int\<close>
  for the prime search). A failed assertion and a signed overflow are \<open>None\<close>.
\<close>

unbundle bit_operations_syntax

section \<open>Definitions\<close>

subsection \<open>Powers of two and logarithms\<close>

definition leastSigBit :: "64 word \<Rightarrow> 64 word" where
  "leastSigBit n = n AND NOT (n - 1)"

definition isPowerOf2 :: "64 word \<Rightarrow> bool" where
  "isPowerOf2 n \<longleftrightarrow> n \<noteq> 0 \<and> leastSigBit n = n"

definition floorLog2 :: "64 word \<Rightarrow> nat option" where
  "floorLog2 x =
     (if x > 0 then
        let y = 0;
            (y, x) = (if x AND 0xffffffff00000000 \<noteq> 0 then (y + 32, drop_bit 32 x) else (y, x));
            (y, x) = (if x AND 0x00000000ffff0000 \<noteq> 0 then (y + 16, drop_bit 16 x) else (y, x));
            (y, x) = (if x AND 0x000000000000ff00 \<noteq> 0 then (y + 8, drop_bit 8 x) else (y, x));
            (y, x) = (if x AND 0x00000000000000f0 \<noteq> 0 then (y + 4, drop_bit 4 x) else (y, x));
            (y, x) = (if x AND 0x000000000000000c \<noteq> 0 then (y + 2, drop_bit 2 x) else (y, x));
            y = (if x AND 0x0000000000000002 \<noteq> 0 then y + 1 else y)
        in Some y
      else None)"

definition ceilLog2 :: "64 word \<Rightarrow> nat option" where
  "ceilLog2 n = (if n = 1 then Some 0 else map_option (\<lambda>y. y + 1) (floorLog2 (n - 1)))"

definition floorPow2 :: "64 word \<Rightarrow> 64 word option" where
  "floorPow2 n = map_option (\<lambda>y. push_bit y 1) (floorLog2 n)"

definition ceilPow2 :: "64 word \<Rightarrow> 64 word option" where
  "ceilPow2 n = map_option (\<lambda>y. push_bit y 1) (ceilLog2 n)"

subsection \<open>Rounding\<close>

definition divCeil :: "64 word \<Rightarrow> 64 word \<Rightarrow> 64 word" where
  "divCeil a b = (a + b - 1) div b"

definition roundUp :: "64 word \<Rightarrow> 64 word \<Rightarrow> 64 word" where
  "roundUp val align = (let m = align - 1 in (val + m) AND NOT m)"

definition roundDown :: "64 word \<Rightarrow> 64 word \<Rightarrow> 64 word" where
  "roundDown val align = (let m = align - 1 in val AND NOT m)"

subsection \<open>Primes\<close>

text \<open>The type of the template parameter is \<open>int\<close>: the square of the loop variable may overflow.\<close>

function isPrime_loop :: "int \<Rightarrow> int \<Rightarrow> bool option" where
  "isPrime_loop i n =
     (if 2 ^ 31 \<le> i * i then None
      else if i * i \<le> n then
        (if n mod i = 0 \<or> n mod (i + 2) = 0 then Some False else isPrime_loop (i + 6) n)
      else Some True)"
  by pat_completeness auto
termination
proof (relation "measure (\<lambda>(i, n). nat (2 ^ 31 - i))")
  fix i n :: int
  assume "\<not> 2 ^ 31 \<le> i * i"
  moreover have "2 ^ 31 * 1 \<le> i * i" if "2 ^ 31 \<le> i" using that by (intro mult_mono) auto
  ultimately have "i < 2 ^ 31" by linarith
  then show "((i + 6, n), i, n) \<in> measure (\<lambda>(i, n). nat (2 ^ 31 - i))" by simp
qed simp

definition isPrime :: "int \<Rightarrow> bool option" where
  "isPrime n = (if n = 2 \<or> n = 3 then Some True else isPrime_loop 5 n)"

partial_function (option) prevPrime_loop :: "int \<Rightarrow> int \<Rightarrow> int option" where
  "prevPrime_loop n decr = do {
     p \<leftarrow> isPrime n;
     if p then Some n else prevPrime_loop (n - decr) (6 - decr) }"

text \<open>The remainder of an \<open>int\<close> has the sign of the dividend.\<close>

definition int_rem :: "int \<Rightarrow> int \<Rightarrow> int" where
  "int_rem a b = sgn a * (\<bar>a\<bar> mod \<bar>b\<bar>)"

definition prevPrime :: "int \<Rightarrow> int option" where
  "prevPrime n =
     (if n = - (2 ^ 31) then None
      else
        let n = (if even n then n - 1 else n);
            decr = int_rem n 3;
            (n, decr) = (if decr = 0 then (n - 2, 2) else if decr = 1 then (n, 4) else (n, decr))
        in prevPrime_loop n decr)"

subsection \<open>Bit fields\<close>

definition mask64 :: "nat \<Rightarrow> 64 word" where
  "mask64 nbits = (if nbits = 64 then - 1 else push_bit nbits 1 - 1)"

definition bits :: "64 word \<Rightarrow> nat \<Rightarrow> nat \<Rightarrow> 64 word" where
  "bits val first lst = (let nbits = first - lst + 1 in drop_bit lst val AND mask64 nbits)"

definition mbits :: "64 word \<Rightarrow> nat \<Rightarrow> nat \<Rightarrow> 64 word" where
  "mbits val first lst = val AND (mask64 (first + 1) AND NOT (mask64 lst))"

definition insertBits :: "64 word \<Rightarrow> nat \<Rightarrow> nat \<Rightarrow> 64 word \<Rightarrow> 64 word" where
  "insertBits val first lst bit_val =
     (let bmask = push_bit lst (mask64 (first - lst + 1))
      in (push_bit lst bit_val AND bmask) OR (val AND NOT bmask))"

definition findMsbSet :: "64 word \<Rightarrow> nat" where
  "findMsbSet val =
     (if val = 0 then 0
      else
        let msb = 0;
            (msb, val) = (if bits val 63 32 \<noteq> 0 then (msb + 32, drop_bit 32 val) else (msb, val));
            (msb, val) = (if bits val 31 16 \<noteq> 0 then (msb + 16, drop_bit 16 val) else (msb, val));
            (msb, val) = (if bits val 15 8 \<noteq> 0 then (msb + 8, drop_bit 8 val) else (msb, val));
            (msb, val) = (if bits val 7 4 \<noteq> 0 then (msb + 4, drop_bit 4 val) else (msb, val));
            (msb, val) = (if bits val 3 2 \<noteq> 0 then (msb + 2, drop_bit 2 val) else (msb, val));
            msb = (if bits val 1 1 \<noteq> 0 then msb + 1 else msb)
        in msb)"

definition findLsbSet :: "64 word \<Rightarrow> nat" where
  "findLsbSet val =
     (if val = 0 then 64
      else
        let lsb = 0;
            (lsb, val) = (if bits val 31 0 = 0 then (lsb + 32, drop_bit 32 val) else (lsb, val));
            (lsb, val) = (if bits val 15 0 = 0 then (lsb + 16, drop_bit 16 val) else (lsb, val));
            (lsb, val) = (if bits val 7 0 = 0 then (lsb + 8, drop_bit 8 val) else (lsb, val));
            (lsb, val) = (if bits val 3 0 = 0 then (lsb + 4, drop_bit 4 val) else (lsb, val));
            (lsb, val) = (if bits val 1 0 = 0 then (lsb + 2, drop_bit 2 val) else (lsb, val));
            lsb = (if bits val 0 0 = 0 then lsb + 1 else lsb)
        in lsb)"

definition isPow2 :: "64 word \<Rightarrow> bool" where
  "isPow2 v \<longleftrightarrow> v AND (v - 1) = 0"

section \<open>Logarithms\<close>

text \<open>A word below \<open>2 ^ (2 * k)\<close> meets the mask of its upper half exactly when it is at least \<open>2 ^ k\<close>.\<close>

lemma upper_half:
  fixes x :: "64 word"
  assumes "unat x < 2 ^ (2 * k)" "M = push_bit k (mask k)"
  shows "x AND M \<noteq> 0 \<longleftrightarrow> 2 ^ k \<le> unat x"
proof -
  have "drop_bit (2 * k) x = 0" using assms(1) by (simp add: word_unat_eq_iff unat_drop_bit)
  then have high: "\<not> bit x (2 * k + j)" for j by (metis bit_0_eq bit_drop_bit_eq bot_apply bot_bool_def comp_apply)
  have "x AND M = push_bit k (drop_bit k x)"
  proof (rule bit_word_eqI)
    fix j assume "j < LENGTH(64)"
    then show "bit (x AND M) j \<longleftrightarrow> bit (push_bit k (drop_bit k x)) j"
      using high [of "j - 2 * k"] by (cases "2 * k \<le> j") (auto simp: assms(2) bit_and_iff bit_push_bit_iff bit_mask_iff bit_drop_bit_eq)
  qed
  also have "\<dots> = 0 \<longleftrightarrow> drop_bit k x = 0"
  proof
    assume "push_bit k (drop_bit k x) = 0"
    then have "\<not> bit (push_bit k (drop_bit k x)) (k + j)" for j by simp
    then show "drop_bit k x = 0"
      using bit_imp_le_length [of x] by (intro bit_word_eqI) (auto simp: bit_push_bit_iff bit_drop_bit_eq)
  qed simp
  finally show ?thesis by (simp add: word_unat_eq_iff [of _ 0] unat_drop_bit div_greater_zero_iff)
qed

text \<open>One step of the binary search: the position found so far and the rest of the word.\<close>

definition log_step :: "64 word \<Rightarrow> nat \<Rightarrow> nat \<times> 64 word \<Rightarrow> bool" where
  "log_step x0 k s \<longleftrightarrow> (case s of (y, x) \<Rightarrow> unat x = unat x0 div 2 ^ y \<and> 0 < unat x \<and> unat x < 2 ^ k)"

lemma log_step:
  assumes "log_step x0 (2 * k) (y, x)" "c \<longleftrightarrow> 2 ^ k \<le> unat x"
  shows "log_step x0 k (if c then (y + k, drop_bit k x) else (y, x))"
proof (cases c)
  case True
  with assms have "2 ^ k \<le> unat x" by simp
  then have "0 < unat x div 2 ^ k" by (simp add: div_greater_zero_iff)
  moreover have "unat x div 2 ^ k < 2 ^ k"
    using assms(1) by (intro less_mult_imp_div_less) (simp add: log_step_def power_double)
  moreover have "unat x div 2 ^ k = unat x0 div 2 ^ (y + k)"
    using assms(1) by (simp add: log_step_def power_add div_mult2_eq)
  ultimately show ?thesis using True by (simp add: log_step_def unat_drop_bit)
qed (use assms in \<open>simp add: log_step_def\<close>)

lemma log_last:
  assumes "log_step x0 2 (y, x)" "c \<longleftrightarrow> 2 \<le> unat x"
  defines "y' \<equiv> if c then y + 1 else y"
  shows "2 ^ y' \<le> unat x0" "unat x0 < 2 ^ Suc y'"
proof -
  have x: "unat x = unat x0 div 2 ^ y" "0 < unat x" "unat x < 4" using assms(1) by (simp_all add: log_step_def)
  have "unat x * 2 ^ y \<le> unat x0" "unat x0 < Suc (unat x) * 2 ^ y"
    using div_times_less_eq_dividend [of "unat x0" "2 ^ y"] dividend_less_times_div [of "2 ^ y" "unat x0"]
    by (simp_all add: x(1) algebra_simps)
  moreover have "unat x = 1 \<or> unat x = 2 \<or> unat x = 3" using x(2,3) by linarith
  ultimately show "2 ^ y' \<le> unat x0" "unat x0 < 2 ^ Suc y'"
    by (auto simp: y'_def assms(2))
qed


lemma half_masks:
  "unat x < 2 ^ 64 \<Longrightarrow> x AND 0xffffffff00000000 \<noteq> 0 \<longleftrightarrow> 2 ^ 32 \<le> unat x"
  "unat x < 2 ^ 32 \<Longrightarrow> x AND 0x00000000ffff0000 \<noteq> 0 \<longleftrightarrow> 2 ^ 16 \<le> unat x"
  "unat x < 2 ^ 16 \<Longrightarrow> x AND 0x000000000000ff00 \<noteq> 0 \<longleftrightarrow> 2 ^ 8 \<le> unat x"
  "unat x < 2 ^ 8 \<Longrightarrow> x AND 0x00000000000000f0 \<noteq> 0 \<longleftrightarrow> 2 ^ 4 \<le> unat x"
  "unat x < 2 ^ 4 \<Longrightarrow> x AND 0x000000000000000c \<noteq> 0 \<longleftrightarrow> 2 ^ 2 \<le> unat x"
  "unat x < 2 ^ 2 \<Longrightarrow> x AND 0x0000000000000002 \<noteq> 0 \<longleftrightarrow> 2 ^ 1 \<le> unat x"
  for x :: "64 word"
  using upper_half [of x 32] upper_half [of x 16] upper_half [of x 8] upper_half [of x 4] upper_half [of x 2] upper_half [of x 1]
  by (simp_all add: mask_eq_exp_minus_1 push_bit_eq_mult)

text \<open>The binary search, whatever test it uses for the upper half.\<close>

lemma log_search:
  fixes x0 :: "64 word"
  assumes "0 < unat x0"
    and "\<And>x. unat x < 2 ^ 64 \<Longrightarrow> c32 x \<longleftrightarrow> 2 ^ 32 \<le> unat x" "\<And>x. unat x < 2 ^ 32 \<Longrightarrow> c16 x \<longleftrightarrow> 2 ^ 16 \<le> unat x"
      "\<And>x. unat x < 2 ^ 16 \<Longrightarrow> c8 x \<longleftrightarrow> 2 ^ 8 \<le> unat x" "\<And>x. unat x < 2 ^ 8 \<Longrightarrow> c4 x \<longleftrightarrow> 2 ^ 4 \<le> unat x"
      "\<And>x. unat x < 2 ^ 4 \<Longrightarrow> c2 x \<longleftrightarrow> 2 ^ 2 \<le> unat x" "\<And>x. unat x < 2 ^ 2 \<Longrightarrow> c1 x \<longleftrightarrow> 2 ^ 1 \<le> unat x"
  defines "y' \<equiv> (let y = (0::nat);
            (y, x) = (if c32 x0 then (y + 32, drop_bit 32 x0) else (y, x0));
            (y, x) = (if c16 x then (y + 16, drop_bit 16 x) else (y, x));
            (y, x) = (if c8 x then (y + 8, drop_bit 8 x) else (y, x));
            (y, x) = (if c4 x then (y + 4, drop_bit 4 x) else (y, x));
            (y, x) = (if c2 x then (y + 2, drop_bit 2 x) else (y, x))
        in if c1 x then y + 1 else y)"
  shows "2 ^ y' \<le> unat x0 \<and> unat x0 < 2 ^ Suc y'"
proof -
  have 0: "log_step x0 (2 * 32) (0, x0)" using assms(1) unsigned_less [where 'a = nat, of x0] by (simp add: log_step_def)
  obtain y1 x1 where s1: "(if c32 x0 then ((0::nat) + 32, drop_bit 32 x0) else (0, x0)) = (y1, x1)" by force
  have 1: "log_step x0 (2 * 16) (y1, x1)"
    using log_step [OF 0 assms(2)] 0 unfolding s1 by (simp add: log_step_def)
  obtain y2 x2 where s2: "(if c16 x1 then (y1 + 16, drop_bit 16 x1) else (y1, x1)) = (y2, x2)" by force
  have 2: "log_step x0 (2 * 8) (y2, x2)"
    using log_step [OF 1 assms(3)] 1 unfolding s2 by (simp add: log_step_def)
  obtain y3 x3 where s3: "(if c8 x2 then (y2 + 8, drop_bit 8 x2) else (y2, x2)) = (y3, x3)" by force
  have 3: "log_step x0 (2 * 4) (y3, x3)"
    using log_step [OF 2 assms(4)] 2 unfolding s3 by (simp add: log_step_def)
  obtain y4 x4 where s4: "(if c4 x3 then (y3 + 4, drop_bit 4 x3) else (y3, x3)) = (y4, x4)" by force
  have 4: "log_step x0 (2 * 2) (y4, x4)"
    using log_step [OF 3 assms(5)] 3 unfolding s4 by (simp add: log_step_def)
  obtain y5 x5 where s5: "(if c2 x4 then (y4 + 2, drop_bit 2 x4) else (y4, x4)) = (y5, x5)" by force
  have 5: "log_step x0 2 (y5, x5)"
    using log_step [OF 4 assms(6)] 4 unfolding s5 by (simp add: log_step_def)
  have "y' = (if c1 x5 then y5 + 1 else y5)"
    unfolding y'_def Let_def s1 s2 s3 s4 s5 prod.case ..
  then show ?thesis using log_last [OF 5, of "c1 x5"] 5 assms(7) [of x5] by (simp add: log_step_def)
qed

lemma floorLog2_correct:
  assumes "0 < unat x"
  shows "\<exists>y. floorLog2 x = Some y \<and> 2 ^ y \<le> unat x \<and> unat x < 2 ^ Suc y"
proof -
  have "x > 0" using assms by (simp add: word_less_nat_alt)
  then show ?thesis
    using log_search [OF assms half_masks] unfolding floorLog2_def Let_def by (simp add: case_prod_unfold)
qed

lemma floorLog2_0: "floorLog2 0 = None"
  by (simp add: floorLog2_def)

lemma ceilLog2_correct:
  assumes "0 < unat n"
  shows "\<exists>c. ceilLog2 n = Some c \<and> unat n \<le> 2 ^ c \<and> (c \<noteq> 0 \<longrightarrow> 2 ^ (c - 1) < unat n)"
proof (cases "n = 1")
  case False
  with assms have "unat n \<noteq> 1" by (metis unat_1 word_unat_eq_iff)
  with assms have n: "unat (n - 1) = unat n - 1" "0 < unat (n - 1)"
    by (simp_all add: unat_sub_if')
  from floorLog2_correct [OF n(2)] obtain y where "floorLog2 (n - 1) = Some y" "2 ^ y \<le> unat n - 1" "unat n - 1 < 2 ^ Suc y"
    using n(1) by auto
  moreover from this have "unat n \<le> 2 ^ (y + 1)" "2 ^ y < unat n" using assms by simp_all
  ultimately show ?thesis using False by (intro exI [of _ "y + 1"]) (simp add: ceilLog2_def)
qed (simp add: ceilLog2_def)

lemma unat_exp64: "k < 64 \<Longrightarrow> unat (2 ^ k :: 64 word) = 2 ^ k"
proof -
  assume "k < 64"
  then have "take_bit 64 (2 ^ k :: nat) = 2 ^ k" by (intro take_bit_nat_eq_self) (rule power_strict_increasing, simp_all)
  then show ?thesis using unsigned_of_nat [where 'a = nat and 'b = 64, of "2 ^ k"] by simp
qed

lemma bit_top:
  fixes x :: "64 word"
  assumes "2 ^ y \<le> unat x" "unat x < 2 ^ Suc y"
  shows "bit x y"
proof -
  have "unat x div 2 ^ y = 1"
    using assms by (intro div_nat_eqI) simp_all
  then have "bit (unat x) y" by (simp add: bit_iff_odd)
  then show ?thesis by (simp add: bit_unsigned_iff)
qed

lemma isPowerOf2_iff: "isPowerOf2 n \<longleftrightarrow> (\<exists>k<64. n = push_bit k 1)"
proof
  assume pow: "isPowerOf2 n"
  then have "0 < unat n" by (simp add: isPowerOf2_def unat_gt_0)
  from floorLog2_correct [OF this] obtain y where y: "2 ^ y \<le> unat n" "unat n < 2 ^ Suc y" by blast
  have y64: "y < 64" using bit_top [OF y] bit_imp_le_length by fastforce
  have "unat n = 2 ^ y"
  proof (rule ccontr)
    assume "unat n \<noteq> 2 ^ y"
    then have "2 ^ y \<le> unat (n - 1)" "unat (n - 1) < 2 ^ Suc y" using y by (auto simp: unat_sub_if' )
    then have "bit (n - 1) y" by (rule bit_top)
    moreover have "bit (n AND NOT (n - 1)) y" using bit_top [OF y] pow by (simp add: isPowerOf2_def leastSigBit_def)
    ultimately show False by (simp add: bit_and_iff bit_not_iff)
  qed
  then have "n = push_bit y 1" using y64 by (simp add: word_unat_eq_iff push_bit_eq_mult unat_exp64)
  with y64 show "\<exists>k<64. n = push_bit k 1" by blast
next
  assume "\<exists>k<64. n = push_bit k 1"
  then obtain k where k: "k < 64" "n = push_bit k 1" by blast
  then have "n - 1 = mask k" by (simp add: mask_eq_exp_minus_1)
  moreover have "push_bit k 1 AND NOT (mask k) = (push_bit k 1 :: 64 word)"
    by (rule bit_word_eqI) (auto simp: bit_simps)
  moreover have "n \<noteq> 0" using k bit_0 [of n] by (auto simp: exp_eq_zero_iff)
  ultimately show "isPowerOf2 n" using k(2) by (simp add: isPowerOf2_def leastSigBit_def)
qed

lemma unat_and_not_mask:
  fixes v :: "64 word"
  assumes "k < 64"
  shows "unat (v AND NOT (mask k)) = unat v div 2 ^ k * 2 ^ k"
proof -
  have "v AND NOT (mask k) = push_bit k (drop_bit k v)"
    by (rule bit_word_eqI) (auto simp: bit_simps)
  moreover have "unat v div 2 ^ k * 2 ^ k < 2 ^ 64"
    by (rule le_less_trans [OF div_times_less_eq_dividend]) (use unsigned_less [where 'a = nat, of v] in simp)
  ultimately show ?thesis
    using assms by (simp add: push_bit_eq_mult unat_word_ariths unat_drop_bit unat_exp64 mult.commute)
qed

lemma pow2_align:
  assumes "isPowerOf2 align"
  obtains k where "k < 64" "align - 1 = mask k" "unat align = 2 ^ k"
proof -
  obtain k where "k < 64" "align = push_bit k 1" using assms by (auto simp: isPowerOf2_iff)
  then show thesis by (intro that [of k]) (simp_all add: mask_eq_exp_minus_1 unat_exp64)
qed

lemma roundDown_correct:
  assumes "isPowerOf2 align"
  shows "unat (roundDown val align) = unat val div unat align * unat align"
  using assms by (elim pow2_align) (simp add: roundDown_def Let_def unat_and_not_mask)

lemma roundUp_correct:
  assumes "isPowerOf2 align" "unat val + (unat align - 1) < 2 ^ 64"
  shows "unat (roundUp val align) = (unat val + (unat align - 1)) div unat align * unat align"
proof -
  from assms(1) obtain k where k: "k < 64" "align - 1 = mask k" "unat align = 2 ^ k" by (rule pow2_align)
  have "unat (mask k :: 64 word) = 2 ^ k - 1" using k(1) by (simp add: mask_eq_exp_minus_1 unat_sub_if' unat_exp64)
  then have "unat (val + mask k) = unat val + (2 ^ k - 1)" using assms(2) k by (simp add: unat_word_ariths)
  then show ?thesis using k by (simp add: roundUp_def Let_def unat_and_not_mask)
qed


section \<open>Fields\<close>

lemma mask64_mask: "nbits \<le> 64 \<Longrightarrow> mask64 nbits = mask nbits"
  by (auto simp: mask64_def mask_eq_exp_minus_1 push_bit_eq_mult)

lemma bits_take: "l \<le> f \<Longrightarrow> f < 64 \<Longrightarrow> bits val f l = take_bit (f - l + 1) (drop_bit l val)"
  by (simp add: bits_def mask64_mask take_bit_eq_mask)

lemma bits_correct: "l \<le> f \<Longrightarrow> f < 64 \<Longrightarrow> unat (bits val f l) = unat val div 2 ^ l mod 2 ^ (f - l + 1)"
  by (simp only: bits_take unsigned_take_bit_eq unat_drop_bit) (simp only: take_bit_eq_mod)

lemma bit_insertBits:
  assumes "l \<le> f" "f < 64"
  shows "bit (insertBits val f l b) j \<longleftrightarrow> (if l \<le> j \<and> j \<le> f then bit b (j - l) else bit val j)"
proof (cases "j < 64")
  case True
  with assms show ?thesis
    by (auto simp: insertBits_def Let_def mask64_mask bit_simps)
next
  case False
  then have "\<not> bit (insertBits val f l b) j" "\<not> bit val j" using bit_imp_le_length [where 'a = 64] by fastforce+
  with False assms show ?thesis by simp
qed

lemma insertBits_field:
  assumes "l \<le> f" "f < 64"
  shows "bits (insertBits val f l b) f l = take_bit (f - l + 1) b"
  using assms by (intro bit_word_eqI) (auto simp: bits_take bit_simps bit_insertBits)

section \<open>Bit search\<close>

lemma bits_upper_half:
  fixes x :: "64 word"
  assumes "unat x < 2 ^ (2 * k)" "0 < k" "k \<le> 32"
  shows "bits x (2 * k - 1) k \<noteq> 0 \<longleftrightarrow> 2 ^ k \<le> unat x"
proof -
  have "unat x div 2 ^ k < 2 ^ k" using assms(1) by (intro less_mult_imp_div_less) (simp add: power_double)
  then have "unat (bits x (2 * k - 1) k) = unat x div 2 ^ k" using assms(2,3) by (simp add: bits_correct)
  then show ?thesis by (metis div_greater_zero_iff unat_gt_0 zero_less_numeral zero_less_power)
qed

lemma bits_halves:
  "unat x < 2 ^ 64 \<Longrightarrow> bits x 63 32 \<noteq> 0 \<longleftrightarrow> 2 ^ 32 \<le> unat x"
  "unat x < 2 ^ 32 \<Longrightarrow> bits x 31 16 \<noteq> 0 \<longleftrightarrow> 2 ^ 16 \<le> unat x"
  "unat x < 2 ^ 16 \<Longrightarrow> bits x 15 8 \<noteq> 0 \<longleftrightarrow> 2 ^ 8 \<le> unat x"
  "unat x < 2 ^ 8 \<Longrightarrow> bits x 7 4 \<noteq> 0 \<longleftrightarrow> 2 ^ 4 \<le> unat x"
  "unat x < 2 ^ 4 \<Longrightarrow> bits x 3 2 \<noteq> 0 \<longleftrightarrow> 2 ^ 2 \<le> unat x"
  "unat x < 2 ^ 2 \<Longrightarrow> bits x 1 1 \<noteq> 0 \<longleftrightarrow> 2 ^ 1 \<le> unat x"
  using bits_upper_half [of x 32] bits_upper_half [of x 16] bits_upper_half [of x 8] bits_upper_half [of x 4]
    bits_upper_half [of x 2] bits_upper_half [of x 1] by simp_all

lemma findMsbSet_floorLog2:
  assumes "val \<noteq> 0"
  shows "floorLog2 val = Some (findMsbSet val)"
proof -
  have pos: "0 < unat val" using assms by (simp add: unat_gt_0)
  have "2 ^ findMsbSet val \<le> unat val \<and> unat val < 2 ^ Suc (findMsbSet val)"
    using log_search [OF pos bits_halves]
    unfolding findMsbSet_def Let_def if_not_P [OF assms] by assumption
  moreover obtain y where "floorLog2 val = Some y" "2 ^ y \<le> unat val" "unat val < 2 ^ Suc y"
    using floorLog2_correct [OF pos] by blast
  ultimately show ?thesis
    using power_less_imp_less_exp [of "2::nat" y "Suc (findMsbSet val)"] power_less_imp_less_exp [of "2::nat" "findMsbSet val" "Suc y"]
    by simp
qed

text \<open>The search from below: the bits skipped so far are clear, and one of the next \<open>k\<close> is set.\<close>

definition lsb_step :: "64 word \<Rightarrow> nat \<Rightarrow> nat \<times> 64 word \<Rightarrow> bool" where
  "lsb_step x0 k s \<longleftrightarrow> (case s of (y, x) \<Rightarrow> x = drop_bit y x0 \<and> take_bit y x0 = 0 \<and> take_bit k x \<noteq> 0)"

lemma take_bit_add:
  fixes x :: "64 word"
  shows "take_bit (m + n) x = 0 \<longleftrightarrow> take_bit m x = 0 \<and> take_bit n (drop_bit m x) = 0"
proof
  assume "take_bit (m + n) x = 0"
  then have none: "\<not> bit x j" if "j < m + n" for j using that bit_take_bit_iff [of "m + n" x j] by simp
  show "take_bit m x = 0 \<and> take_bit n (drop_bit m x) = 0"
    by (intro conjI bit_word_eqI) (auto simp: bit_simps none)
next
  assume a: "take_bit m x = 0 \<and> take_bit n (drop_bit m x) = 0"
  have "\<not> bit x j" if "j < m + n" for j
    using a that bit_take_bit_iff [of m x j] bit_take_bit_iff [of n "drop_bit m x" "j - m"]
    by (cases "j < m") (auto simp: bit_drop_bit_eq)
  then show "take_bit (m + n) x = 0" by (intro bit_word_eqI) (auto simp: bit_simps)
qed

lemma lsb_step:
  assumes "lsb_step x0 (2 * k) (y, x)" "0 < k" "k \<le> 32"
  shows "lsb_step x0 k (if bits x (k - 1) 0 = 0 then (y + k, drop_bit k x) else (y, x))"
proof -
  have b: "bits x (k - 1) 0 = take_bit k x" using assms(2,3) by (simp add: bits_take)
  have x: "x = drop_bit y x0" "take_bit y x0 = 0" "take_bit k x = 0 \<Longrightarrow> take_bit k (drop_bit k x) \<noteq> 0"
    using assms(1) take_bit_add [of k k x] by (auto simp only: lsb_step_def prod.case mult_2)
  show ?thesis
  proof (cases "take_bit k x = 0")
    case True
    then have "take_bit (y + k) x0 = 0" using x(1,2) take_bit_add [of y k x0] by simp
    moreover have "drop_bit k x = drop_bit (y + k) x0" using x(1) by (simp add: add.commute)
    ultimately show ?thesis using True x(3) unfolding b by (simp only: lsb_step_def prod.case if_True simp_thms)
  next
    case False
    then show ?thesis using x(1,2) unfolding b by (simp only: lsb_step_def prod.case if_False simp_thms)
  qed
qed

lemma findLsbSet_correct:
  assumes "val \<noteq> 0"
  shows "bit val (findLsbSet val)" "j < findLsbSet val \<Longrightarrow> \<not> bit val j"
proof -
  have 0: "lsb_step val (2 * 32) (0, val)" using assms by (simp add: lsb_step_def take_bit_word_eq_self)
  obtain y1 x1 where s1: "(if bits val 31 0 = 0 then ((0::nat) + 32, drop_bit 32 val) else (0, val)) = (y1, x1)" by force
  have 1: "lsb_step val (2 * 16) (y1, x1)" using lsb_step [OF 0] s1 by simp
  obtain y2 x2 where s2: "(if bits x1 15 0 = 0 then (y1 + 16, drop_bit 16 x1) else (y1, x1)) = (y2, x2)" by force
  have 2: "lsb_step val (2 * 8) (y2, x2)" using lsb_step [OF 1] s2 by simp
  obtain y3 x3 where s3: "(if bits x2 7 0 = 0 then (y2 + 8, drop_bit 8 x2) else (y2, x2)) = (y3, x3)" by force
  have 3: "lsb_step val (2 * 4) (y3, x3)" using lsb_step [OF 2] s3 by simp
  obtain y4 x4 where s4: "(if bits x3 3 0 = 0 then (y3 + 4, drop_bit 4 x3) else (y3, x3)) = (y4, x4)" by force
  have 4: "lsb_step val (2 * 2) (y4, x4)" using lsb_step [OF 3] s4 by simp
  obtain y5 x5 where s5: "(if bits x4 1 0 = 0 then (y4 + 2, drop_bit 2 x4) else (y4, x4)) = (y5, x5)" by force
  have 5: "lsb_step val (2 * 1) (y5, x5)" using lsb_step [OF 4] s5 by simp
  obtain y6 x6 where s6: "(if bits x5 0 0 = 0 then (y5 + 1, drop_bit 1 x5) else (y5, x5)) = (y6, x6)" by force
  have 6: "lsb_step val 1 (y6, x6)" using lsb_step [OF 5] s6 by simp
  have "findLsbSet val = (if bits x5 0 0 = 0 then y5 + 1 else y5)"
    using assms unfolding findLsbSet_def Let_def s1 s2 s3 s4 s5 prod.case by simp
  also have "\<dots> = y6" using s6 by (auto split: if_splits)
  finally have r: "findLsbSet val = y6" .
  from 6 have "take_bit 1 (drop_bit y6 val) \<noteq> 0" "take_bit y6 val = 0" by (auto simp only: lsb_step_def prod.case)
  note last = this
  have "odd (drop_bit y6 val)"
  proof (rule ccontr)
    assume "\<not> odd (drop_bit y6 val)"
    then have "take_bit 1 (drop_bit y6 val) = 0" by (simp add: take_bit_Suc even_iff_mod_2_eq_zero)
    with last(1) show False ..
  qed
  then show "bit val (findLsbSet val)" using bit_iff_odd_drop_bit [of val y6] unfolding r by blast
  have "\<not> bit (take_bit y6 val) j" unfolding last(2) by simp
  then show "j < findLsbSet val \<Longrightarrow> \<not> bit val j" unfolding r bit_take_bit_iff by blast
qed

declare isPrime_loop.simps [simp del]
section \<open>The prime search\<close>

definition prime_int :: "int \<Rightarrow> bool" where
  "prime_int n \<longleftrightarrow> 1 < n \<and> (\<forall>d. 1 < d \<longrightarrow> d < n \<longrightarrow> \<not> d dvd n)"

lemma not_prime_int: "d dvd n \<Longrightarrow> 1 < d \<Longrightarrow> d < n \<Longrightarrow> \<not> prime_int n"
  by (auto simp: prime_int_def)

lemma prime_int_sqrt:
  assumes "1 < n" "n < i * i" "0 < i" "\<And>d. 1 < d \<Longrightarrow> d < i \<Longrightarrow> \<not> d dvd n"
  shows "prime_int n"
proof -
  have "\<not> d dvd n" if "1 < d" "d < n" for d
  proof
    assume "d dvd n"
    then obtain e where e: "n = d * e" by blast
    have "0 < e" using e that assms(1) by (metis less_trans zero_less_mult_pos zero_less_one)
    with e that have "1 < e" by (cases "e = 1") auto
    show False
    proof (cases "d < i")
      case True
      then show False using assms(4) [OF that(1)] \<open>d dvd n\<close> by blast
    next
      case False
      have "e < i"
      proof (rule ccontr)
        assume "\<not> e < i"
        with False assms(3) have "i * i \<le> d * e" by (intro mult_mono) auto
        with e assms(2) show False by simp
      qed
      then show False using assms(4) [OF \<open>1 < e\<close>] e by simp
    qed
  qed
  then show ?thesis using assms(1) by (simp add: prime_int_def)
qed

lemma no_small_divisor:
  fixes i n :: int
  assumes "i mod 6 = 5" "odd n" "\<not> 3 dvd n" "\<not> i dvd n" "\<not> (i + 2) dvd n" "d < i \<longrightarrow> \<not> d dvd n" "d < i + 6"
  shows "\<not> d dvd n"
proof (cases "d < i")
  case False
  with assms(7) consider "d = i" | "d = i + 1" | "d = i + 2" | "d = i + 3" | "d = i + 4" | "d = i + 5" by linarith
  moreover have "2 dvd i + 1" "2 dvd i + 3" "3 dvd i + 4" "2 dvd i + 5" using assms(1) by presburger+
  ultimately show ?thesis using assms(2-5) dvd_trans by metis
qed (use assms(6) in blast)

lemma next_candidate:
  fixes i :: int
  assumes "i mod 6 = 5" "i \<le> 46337" "i \<noteq> 46337"
  shows "i + 6 \<le> 46337"
proof -
  have "i = 6 * (i div 6) + 5" using mult_div_mod_eq [of 6 i] assms(1) by simp
  moreover from this have "i div 6 < 7722" using assms(2,3) by linarith
  ultimately show ?thesis by linarith
qed

lemma isPrime_loop_correct:
  assumes "odd n" "\<not> 3 dvd n" "1 < n" "n < 46337 * 46337"
    and "i mod 6 = 5" "5 \<le> i" "i \<le> 46337" "\<And>d. 1 < d \<Longrightarrow> d < i \<Longrightarrow> \<not> d dvd n"
  shows "isPrime_loop i n = Some (prime_int n)"
  using assms
proof (induction i n rule: isPrime_loop.induct)
  case (1 i n)
  have sq: "\<not> 2 ^ 31 \<le> i * i" using mult_mono [OF 1(8,8)] 1(7) by simp
  show ?case
  proof (cases "i * i \<le> n")
    case True
    have "i * 5 \<le> i * i" using 1(7) by (intro mult_left_mono) auto
    with True 1(7) have small: "i < n" "i + 2 < n" by linarith+
    show ?thesis
    proof (cases "n mod i = 0 \<or> n mod (i + 2) = 0")
      case divides: True
      with small 1(7) have "\<not> prime_int n"
        using not_prime_int [of i n] not_prime_int [of "i + 2" n] by (auto simp: dvd_eq_mod_eq_0)
      with sq True divides show ?thesis by (simp add: isPrime_loop.simps [of i n])
    next
      case False
      have "i \<noteq> 46337" using True 1(5) by auto
      then have i: "(i + 6) mod 6 = 5" "5 \<le> i + 6" "i + 6 \<le> 46337" using 1(6-8) next_candidate by simp_all
      have nd: "\<not> i dvd n" "\<not> (i + 2) dvd n" using False by (simp_all add: dvd_eq_mod_eq_0)
      have "\<not> d dvd n" if "1 < d" "d < i + 6" for d
        by (rule no_small_divisor [OF 1(6,2,3) nd _ that(2)]) (use 1(9) [OF that(1)] in blast)
      from 1(1) [OF sq True False 1(2-5) i this] show ?thesis
        using sq True False by (simp add: isPrime_loop.simps [of i n])
    qed
  next
    case False
    then have "prime_int n" using prime_int_sqrt [of n i] 1(4,7,9) by simp
    with sq False show ?thesis by (simp add: isPrime_loop.simps [of i n])
  qed
qed

lemma isPrime_correct:
  assumes "odd n" "\<not> 3 dvd n" "1 < n" "n < 46337 * 46337"
  shows "isPrime n = Some (prime_int n)"
proof -
  have "\<not> d dvd n" if "1 < d" "d < 5" for d
  proof -
    from that consider "d = 2" | "d = 3" | "d = 4" by linarith
    moreover have "\<not> 4 dvd n" using assms(1) by presburger
    ultimately show ?thesis using assms(1,2) by cases auto
  qed
  then have "isPrime_loop 5 n = Some (prime_int n)" by (intro isPrime_loop_correct [OF assms]) simp_all
  moreover have "n \<noteq> 2" "n \<noteq> 3" using assms(1,2) by auto
  ultimately show ?thesis by (simp add: isPrime_def)
qed

definition greatest_prime :: "int \<Rightarrow> int \<Rightarrow> bool" where
  "greatest_prime n p \<longleftrightarrow> prime_int p \<and> p \<le> n \<and> (\<forall>q. p < q \<longrightarrow> q \<le> n \<longrightarrow> \<not> prime_int q)"

lemma greatest_prime_below:
  assumes "greatest_prime m p" "m \<le> n" "\<And>q. m < q \<Longrightarrow> q \<le> n \<Longrightarrow> \<not> prime_int q"
  shows "greatest_prime n p"
  using assms unfolding greatest_prime_def by (meson linorder_not_le order_trans)

lemma composites: "even q \<Longrightarrow> 2 < q \<Longrightarrow> \<not> prime_int q" "3 dvd q \<Longrightarrow> 3 < q \<Longrightarrow> \<not> prime_int q"
  by (simp_all add: not_prime_int [of 2] not_prime_int [of 3])

lemma prevPrime_loop_correct:
  assumes "5 \<le> n" "n < 46337 * 46337" "n mod 6 = 1 \<and> decr = 2 \<or> n mod 6 = 5 \<and> decr = 4"
  shows "\<exists>p. prevPrime_loop n decr = Some p \<and> greatest_prime n p"
  using assms
proof (induction "nat n" arbitrary: n decr rule: less_induct)
  case less
  have "odd n" "\<not> 3 dvd n" using less.prems(3) by presburger+
  then have p: "isPrime n = Some (prime_int n)" using isPrime_correct less.prems by simp
  show ?case
  proof (cases "prime_int n")
    case True
    with p show ?thesis by (simp add: prevPrime_loop.simps [of n] greatest_prime_def)
  next
    case False
    have "25 \<le> n"
    proof (rule ccontr)
      assume "\<not> 25 \<le> n"
      with less.prems(1) have "isPrime n = Some True" by (simp add: isPrime_def isPrime_loop.simps [of 5])
      with False p show False by simp
    qed
    with less.prems(2,3) have m: "nat (n - decr) < nat n" "5 \<le> n - decr" "n - decr < 46337 * 46337" by auto
    have toggle: "(n - decr) mod 6 = 1 \<and> 6 - decr = 2 \<or> (n - decr) mod 6 = 5 \<and> 6 - decr = 4"
      using less.prems(3) by presburger
    have skip: "\<not> prime_int q" if "n - decr < q" "q \<le> n" for q
    proof (cases "q = n")
      case False
      with that less.prems(3) have "even q \<or> 3 dvd q" by presburger
      with that less.prems(3) \<open>25 \<le> n\<close> show ?thesis using composites by fastforce
    qed (use \<open>\<not> prime_int n\<close> in simp)
    from less.hyps [OF m toggle] obtain q where "prevPrime_loop (n - decr) (6 - decr) = Some q" "greatest_prime (n - decr) q" by blast
    moreover have "greatest_prime n q" by (rule greatest_prime_below [OF \<open>greatest_prime (n - decr) q\<close> _ skip]) (use less.prems(3) in auto)
    ultimately show ?thesis using p False by (simp add: prevPrime_loop.simps [of n])
  qed
qed

lemma prevPrime_correct:
  assumes "9 \<le> n" "n < 46337 * 46337" "n mod 6 = 3 \<or> n mod 6 = 4"
  shows "\<exists>p. prevPrime n = Some p \<and> greatest_prime n p"
proof -
  define m where "m = (if even n then n - 1 else n) - 2"
  have "odd n \<longleftrightarrow> n mod 6 = 3" using assms(3) by presburger
  then have cases: "m = n - 2 \<and> n mod 6 = 3 \<or> m = n - 3 \<and> n mod 6 = 4" using assms(3) by (auto simp: m_def)
  then have m6: "m mod 6 = 1 \<and> (2::int) = 2 \<or> m mod 6 = 5 \<and> (2::int) = 4" by presburger
  have m: "5 \<le> m" "m < 46337 * 46337" "m < n" using assms(1,2) cases by auto
  have "(m + 2) mod 3 = 0" using m6 by presburger
  then have "prevPrime n = prevPrime_loop m 2"
    using assms(1) by (simp add: prevPrime_def Let_def int_rem_def m_def)
  moreover obtain p where "prevPrime_loop m 2 = Some p" "greatest_prime m p" using prevPrime_loop_correct [OF m(1,2) m6] by blast
  moreover have "\<not> prime_int q" if "m < q" "q \<le> n" for q
  proof -
    have "even q \<or> 3 dvd q" using that cases by presburger
    with that assms(1) m(1) show ?thesis using composites by fastforce
  qed
  ultimately show ?thesis using m(3) greatest_prime_below [of m p n] by simp
qed

lemma prevPrime_25: "prevPrime 25 = Some 21"
  by (simp add: prevPrime_def int_rem_def isPrime_def prevPrime_loop.simps [of 25] prevPrime_loop.simps [of 21] isPrime_loop.simps [of 5])
lemma isPrime_9: "isPrime 9 = Some True" 
  by (simp add:  isPrime_def isPrime_loop.simps [of 5])

end
