(* ===== verification/Dram_Bank.thy ===== *)
theory Dram_Bank
  imports Pud_Prelude "HOL-Library.Monad_Syntax"
begin

text \<open>
  The banks and ranks of the DRAM controller (\<open>gem5/src/mem/dram_ctrl.hh\<close> and \<open>dram_ctrl.cc\<close>):
  the configuration, the state of a bank and of a rank, and the commands that open and close rows,
  with the activate-precharge and activate-activate-precharge sequences that carry out a row
  operation. A failed assertion or a panic of the source is \<open>None\<close>. Ticks are natural numbers;
  their subtraction wraps at 64 bits as in the source, their sums are assumed to stay below.
\<close>

section \<open>Configuration and state\<close>

datatype mem_sched = fcfs | frfcfs
datatype addr_map = RoRaBaChCo | RoRaBaCoCh | RoCoRaBaCh
datatype page_manage = page_open | open_adaptive | page_close | close_adaptive

record config =
  deviceSize :: nat
  deviceBusWidth :: nat
  burstLength :: nat
  deviceRowBufferSize :: nat
  devicesPerRank :: nat
  burstSize :: nat
  rowBufferSize :: nat
  columnsPerRowBuffer :: nat
  columnsPerStripe :: nat
  ranksPerChannel :: nat
  bankGroupsPerRank :: nat
  bankGroupArch :: bool
  banksPerRank :: nat
  channels :: nat
  rowsPerBank :: nat
  readBufferSize :: nat
  writeBufferSize :: nat
  writeHighThreshold :: nat
  writeLowThreshold :: nat
  minWritesPerSwitch :: nat
  tCK :: nat
  tWTR :: nat
  tRTW :: nat
  tCS :: nat
  tBURST :: nat
  tCCD_L :: nat
  tRCD :: nat
  tCL :: nat
  tRP :: nat
  tRAS :: nat
  tWR :: nat
  tRTP :: nat
  tRFC :: nat
  tREFI :: nat
  tRRD :: nat
  tRRD_L :: nat
  tXAW :: nat
  tWL :: nat
  tWLOV :: nat
  activationLimit :: nat
  memSchedPolicy :: mem_sched
  addrMapping :: addr_map
  pageMgmt :: page_manage
  maxAccessesPerRow :: nat
  frontendLatency :: nat
  backendLatency :: nat

text \<open>The row numbers with a special meaning.\<close>

definition NO_ROW :: "32 word" where "NO_ROW = - 1"
definition DOUBLE_ROW :: "32 word" where "DOUBLE_ROW = - 2"
definition row_T0 :: "32 word" where "row_T0 = - 3"
definition row_T1 :: "32 word" where "row_T1 = - 4"
definition row_T2 :: "32 word" where "row_T2 = - 5"
definition row_T3 :: "32 word" where "row_T3 = - 6"
definition row_DCC0 :: "32 word" where "row_DCC0 = - 7"
definition row_DCC0N :: "32 word" where "row_DCC0N = - 8"
definition row_DCC1 :: "32 word" where "row_DCC1 = - 9"
definition row_DCC1N :: "32 word" where "row_DCC1N = - 10"
definition row_DCC0N_T0 :: "32 word" where "row_DCC0N_T0 = - 11"
definition row_DCC1N_T1 :: "32 word" where "row_DCC1N_T1 = - 12"
definition row_T2_T3 :: "32 word" where "row_T2_T3 = - 13"
definition row_T0_T3 :: "32 word" where "row_T0_T3 = - 14"
definition row_T0_T1_T2 :: "32 word" where "row_T0_T1_T2 = - 15"
definition row_T1_T2_T3 :: "32 word" where "row_T1_T2_T3 = - 16"
definition row_DCC0_T1_T2 :: "32 word" where "row_DCC0_T1_T2 = - 17"
definition row_DCC1_T0_T3 :: "32 word" where "row_DCC1_T0_T3 = - 18"
definition row_C_0 :: "32 word" where "row_C_0 = - 19"
definition row_C_1 :: "32 word" where "row_C_1 = - 20"

lemmas special_rows = NO_ROW_def DOUBLE_ROW_def row_T0_def row_T1_def row_T2_def row_T3_def row_DCC0_def row_DCC0N_def
  row_DCC1_def row_DCC1N_def row_DCC0N_T0_def row_DCC1N_T1_def row_T2_T3_def row_T0_T3_def row_T0_T1_T2_def
  row_T1_T2_T3_def row_DCC0_T1_T2_def row_DCC1_T0_T3_def row_C_0_def row_C_1_def

record bank =
  openRow :: "32 word"
  bankNo :: nat
  bankgr :: nat
  colAllowedAt :: nat
  preAllowedAt :: nat
  actAllowedAt :: nat
  rowAccesses :: nat
  bytesAccessed :: nat

datatype power_state = PWR_IDLE | PWR_REF | PWR_PRE_PDN | PWR_ACT | PWR_ACT_PDN
datatype refresh_state = REF_IDLE | REF_DRAIN | REF_PRE | REF_RUN

text \<open>An event is \<open>None\<close> when it is not scheduled, and otherwise the tick it is scheduled for.\<close>

record rank =
  pwrStateTrans :: power_state
  pwrState :: power_state
  pwrStateTick :: nat
  refreshState :: refresh_state
  refreshDueAt :: nat
  rankNo :: nat
  banks :: "bank list"
  numBanksActive :: nat
  actTicks :: "nat list"
  activateEvent :: "nat option"
  prechargeEvent :: "nat option"
  refreshEvent :: "nat option"
  powerEvent :: "nat option"

definition isAvailable :: "rank \<Rightarrow> bool" where
  "isAvailable r \<longleftrightarrow> refreshState r = REF_IDLE"

definition new_bank :: bank where
  "new_bank = \<lparr>openRow = NO_ROW, bankNo = 0, bankgr = 0, colAllowedAt = 0, preAllowedAt = 0, actAllowedAt = 0,
     rowAccesses = 0, bytesAccessed = 0\<rparr>"

text \<open>The rank the constructor of the controller sets up: no row open, banks spread over the bank groups.\<close>

definition new_rank :: "config \<Rightarrow> nat \<Rightarrow> rank" where
  "new_rank cfg i = \<lparr>pwrStateTrans = PWR_IDLE, pwrState = PWR_IDLE, pwrStateTick = 0, refreshState = REF_IDLE,
     refreshDueAt = 0, rankNo = i mod 2 ^ 8,
     banks = map (\<lambda>b. new_bank\<lparr>bankNo := b mod 2 ^ 8,
       bankgr := (if bankGroupArch cfg then b mod bankGroupsPerRank cfg else b) mod 2 ^ 8\<rparr>) [0..<banksPerRank cfg],
     numBanksActive = 0, actTicks = replicate (activationLimit cfg) 0,
     activateEvent = None, prechargeEvent = None, refreshEvent = None, powerEvent = None\<rparr>"

text \<open>Subtraction of 64-bit unsigned ticks.\<close>

definition tick_sub :: "nat \<Rightarrow> nat \<Rightarrow> nat" where
  "tick_sub a b = (if b \<le> a then a - b else 2 ^ 64 + a - b)"

section \<open>The commands\<close>

text \<open>After an activation of bank \<open>b\<close> at \<open>act_tick\<close>, no bank of the rank may be activated before \<open>tRRD\<close>.\<close>

definition enforce_tRRD :: "config \<Rightarrow> nat \<Rightarrow> nat \<Rightarrow> bank list \<Rightarrow> bank list" where
  "enforce_tRRD cfg b act_tick bs = map (\<lambda>x. x\<lparr>actAllowedAt :=
     max (act_tick + (if bankGroupArch cfg \<and> bankgr (bs ! b) = bankgr x then tRRD_L cfg else tRRD cfg)) (actAllowedAt x)\<rparr>) bs"

definition push_act_limit :: "nat \<Rightarrow> bank list \<Rightarrow> bank list" where
  "push_act_limit limit bs = map (\<lambda>x. x\<lparr>actAllowedAt := max limit (actAllowedAt x)\<rparr>) bs"

definition schedule_activate :: "nat \<Rightarrow> rank \<Rightarrow> rank" where
  "schedule_activate act_tick r = r\<lparr>activateEvent :=
     (case activateEvent r of None \<Rightarrow> Some act_tick | Some w \<Rightarrow> if w > act_tick then Some act_tick else Some w)\<rparr>"

definition activateBank :: "config \<Rightarrow> nat \<Rightarrow> nat \<Rightarrow> 32 word \<Rightarrow> rank \<Rightarrow> rank option" where
  "activateBank cfg b act_tick row r =
     (let bk = banks r ! b in
      if length (actTicks r) = activationLimit cfg \<and> openRow bk = NO_ROW \<and> numBanksActive r + 1 \<le> banksPerRank cfg then
        let bk = bk\<lparr>openRow := row, bytesAccessed := 0, rowAccesses := 0, preAllowedAt := act_tick + tRAS cfg,
                    colAllowedAt := max (act_tick + tRCD cfg) (colAllowedAt bk)\<rparr>;
            bs = enforce_tRRD cfg b act_tick ((banks r)[b := bk]);
            r = r\<lparr>numBanksActive := numBanksActive r + 1\<rparr>
        in if actTicks r = [] then Some (schedule_activate act_tick (r\<lparr>banks := bs\<rparr>))
           else if last (actTicks r) \<noteq> 0 \<and> tick_sub act_tick (last (actTicks r)) < tXAW cfg then None
           else
             let ticks = act_tick # butlast (actTicks r);
                 bs = (if last ticks \<noteq> 0 \<and> tick_sub act_tick (last ticks) < tXAW cfg
                       then push_act_limit (last ticks + tXAW cfg) bs else bs)
             in Some (schedule_activate act_tick (r\<lparr>banks := bs, actTicks := ticks\<rparr>))
      else None)"

definition prechargeBank :: "config \<Rightarrow> nat \<Rightarrow> nat \<Rightarrow> rank \<Rightarrow> rank option" where
  "prechargeBank cfg b pre_at r =
     (let bk = banks r ! b in
      if openRow bk \<noteq> NO_ROW \<and> numBanksActive r \<noteq> 0 then
        let pre_done_at = pre_at + tRP cfg;
            bk = bk\<lparr>openRow := NO_ROW, preAllowedAt := pre_at, actAllowedAt := max (actAllowedAt bk) pre_done_at\<rparr>
        in Some (r\<lparr>banks := (banks r)[b := bk], numBanksActive := numBanksActive r - 1,
                   prechargeEvent := (case prechargeEvent r of None \<Rightarrow> Some pre_done_at
                     | Some w \<Rightarrow> if w < pre_done_at then Some pre_done_at else Some w)\<rparr>)
      else None)"

definition apBank :: "config \<Rightarrow> nat \<Rightarrow> nat \<Rightarrow> 32 word \<Rightarrow> rank \<Rightarrow> rank option" where
  "apBank cfg b act_tick row r = do {
     r \<leftarrow> activateBank cfg b act_tick row r;
     prechargeBank cfg b (preAllowedAt (banks r ! b)) r }"

definition aapBank :: "config \<Rightarrow> nat \<Rightarrow> nat \<Rightarrow> 32 word \<Rightarrow> 32 word \<Rightarrow> bool \<Rightarrow> rank \<Rightarrow> rank option" where
  "aapBank cfg b act_tick row1 row2 act_overlapped r =
     (let bk = banks r ! b in
      if openRow bk = NO_ROW \<and> numBanksActive r + 1 \<le> banksPerRank cfg then
        let bk = bk\<lparr>openRow := DOUBLE_ROW, bytesAccessed := 0, rowAccesses := 0,
                    preAllowedAt := act_tick + tRAS cfg + (if act_overlapped then tWLOV cfg else tWL cfg)\<rparr>;
            bs = enforce_tRRD cfg b act_tick ((banks r)[b := bk]);
            ticks = (if actTicks r = [] then [] else act_tick # butlast (actTicks r));
            bs = (if ticks \<noteq> [] \<and> last ticks \<noteq> 0 \<and> act_tick < last ticks + tXAW cfg
                  then push_act_limit (last ticks + tXAW cfg) bs else bs);
            r = schedule_activate act_tick (r\<lparr>banks := bs, numBanksActive := numBanksActive r + 1, actTicks := ticks\<rparr>)
        in prechargeBank cfg b (preAllowedAt (banks r ! b)) r
      else None)"

subsection \<open>Row operations\<close>

datatype rowop = ROWAND | ROWOR | ROWNOT | ROWXOR | ROWAP | ROWAAP

datatype row_cmd = AAP "32 word" "32 word" | AP "32 word"

text \<open>The commands of each row operation, on the rows of its destination and its sources.\<close>

fun row_op_cmds :: "rowop \<Rightarrow> 32 word \<Rightarrow> 32 word \<Rightarrow> 32 word \<Rightarrow> row_cmd list" where
  "row_op_cmds ROWAND dest src1 src2 =
     [AAP src1 row_T0, AAP src2 row_T1, AAP row_C_0 row_T2, AAP row_T0_T1_T2 dest]"
| "row_op_cmds ROWOR dest src1 src2 =
     [AAP src1 row_T0, AAP src2 row_T1, AAP row_C_1 row_T2, AAP row_T0_T1_T2 dest]"
| "row_op_cmds ROWNOT dest src1 src2 =
     [AAP src1 row_DCC0N, AAP row_DCC0 dest]"
| "row_op_cmds ROWXOR dest src1 src2 =
     [AAP src1 row_DCC0N_T0, AAP src2 row_DCC1N_T1, AAP row_C_0 row_T2_T3, AP row_DCC0_T1_T2, AP row_DCC1_T0_T3,
      AAP row_C_1 row_T2, AAP row_T0_T1_T2 dest]"
| "row_op_cmds ROWAP dest src1 src2 = [AP row_T0_T1_T2]"
| "row_op_cmds ROWAAP dest src1 src2 = [AAP 0 0]"

text \<open>Each command is issued as soon as the bank may be activated again.\<close>

primrec run_row_cmds :: "config \<Rightarrow> nat \<Rightarrow> row_cmd list \<Rightarrow> nat \<Rightarrow> rank \<Rightarrow> (rank \<times> nat) option" where
  "run_row_cmds cfg b [] cmd_at r = Some (r, cmd_at)"
| "run_row_cmds cfg b (c # cs) cmd_at r = do {
     r \<leftarrow> (case c of AAP row1 row2 \<Rightarrow> aapBank cfg b cmd_at row1 row2 True r | AP row \<Rightarrow> apBank cfg b cmd_at row r);
     run_row_cmds cfg b cs (actAllowedAt (banks r ! b)) r }"


section \<open>The invariant of a rank\<close>

text \<open>
  The number of active banks is the number of open rows, and the list of activation ticks is the
  activation window: it is sorted, and every bank waits for the latest activation and for the end of
  the window of the oldest one.
\<close>

definition open_count :: "bank list \<Rightarrow> nat" where
  "open_count bs = length (filter (\<lambda>x. openRow x \<noteq> NO_ROW) bs)"

definition window_inv :: "config \<Rightarrow> nat list \<Rightarrow> bank list \<Rightarrow> bool" where
  "window_inv cfg ticks bs \<longleftrightarrow> sorted (rev ticks) \<and>
     (ticks \<noteq> [] \<longrightarrow> (\<forall>x\<in>set bs. hd ticks \<le> actAllowedAt x \<and> (last ticks \<noteq> 0 \<longrightarrow> last ticks + tXAW cfg \<le> actAllowedAt x)))"

definition rank_inv :: "config \<Rightarrow> rank \<Rightarrow> bool" where
  "rank_inv cfg r \<longleftrightarrow> length (banks r) = banksPerRank cfg \<and> length (actTicks r) = activationLimit cfg \<and>
     numBanksActive r = open_count (banks r) \<and> window_inv cfg (actTicks r) (banks r)"

lemma open_count_update:
  assumes "i < length bs"
  shows "open_count (bs[i := x]) + of_bool (openRow (bs ! i) \<noteq> NO_ROW) = open_count bs + of_bool (openRow x \<noteq> NO_ROW)"
proof -
  have "open_count bs = open_count (take i bs) + of_bool (openRow (bs ! i) \<noteq> NO_ROW) + open_count (drop (Suc i) bs)"
    using arg_cong [OF id_take_nth_drop [OF assms], of open_count] by (simp add: open_count_def)
  then show ?thesis by (simp add: upd_conv_take_nth_drop [OF assms] open_count_def)
qed

lemma open_count_map: "(\<And>x. openRow (f x) = openRow x) \<Longrightarrow> open_count (map f bs) = open_count bs"
  by (simp add: open_count_def filter_map o_def)

lemma open_count_enforce [simp]: "open_count (enforce_tRRD cfg b t bs) = open_count bs"
  by (simp add: enforce_tRRD_def open_count_map)

lemma open_count_push [simp]: "open_count (push_act_limit t bs) = open_count bs"
  by (simp add: push_act_limit_def open_count_map)

lemma open_count_le: "open_count bs \<le> length bs"
  by (simp add: open_count_def)

lemma open_count_less: "i < length bs \<Longrightarrow> openRow (bs ! i) = NO_ROW \<Longrightarrow> open_count bs < length bs"
  unfolding open_count_def by (intro length_filter_less [of "bs ! i"]) auto

lemma open_count_pos: "i < length bs \<Longrightarrow> openRow (bs ! i) \<noteq> NO_ROW \<Longrightarrow> 0 < open_count bs"
  unfolding open_count_def by (metis (mono_tags, lifting) filter_empty_conv length_greater_0_conv nth_mem)

lemma length_enforce [simp]: "length (enforce_tRRD cfg b t bs) = length bs"
  by (simp add: enforce_tRRD_def)

lemma length_push [simp]: "length (push_act_limit t bs) = length bs"
  by (simp add: push_act_limit_def)

text \<open>What the two updates of all banks change, and that they only move activations later.\<close>

lemma nth_enforce:
  assumes "i < length bs"
  shows "openRow (enforce_tRRD cfg b t bs ! i) = openRow (bs ! i)" "preAllowedAt (enforce_tRRD cfg b t bs ! i) = preAllowedAt (bs ! i)"
    "colAllowedAt (enforce_tRRD cfg b t bs ! i) = colAllowedAt (bs ! i)" "bankgr (enforce_tRRD cfg b t bs ! i) = bankgr (bs ! i)"
    "actAllowedAt (bs ! i) \<le> actAllowedAt (enforce_tRRD cfg b t bs ! i)"
    "t + min (tRRD cfg) (tRRD_L cfg) \<le> actAllowedAt (enforce_tRRD cfg b t bs ! i)"
  using assms by (auto simp: enforce_tRRD_def)

lemma nth_push:
  assumes "i < length bs"
  shows "openRow (push_act_limit t bs ! i) = openRow (bs ! i)" "preAllowedAt (push_act_limit t bs ! i) = preAllowedAt (bs ! i)"
    "colAllowedAt (push_act_limit t bs ! i) = colAllowedAt (bs ! i)" "bankgr (push_act_limit t bs ! i) = bankgr (bs ! i)"
    "actAllowedAt (bs ! i) \<le> actAllowedAt (push_act_limit t bs ! i)" "t \<le> actAllowedAt (push_act_limit t bs ! i)"
  using assms by (auto simp: push_act_limit_def)

lemma sorted_rev_hd: "sorted (rev ticks) \<Longrightarrow> x \<in> set ticks \<Longrightarrow> x \<le> hd ticks" for ticks :: "nat list"
  by (cases ticks) (auto simp: sorted_append)

lemma window_push:
  assumes "window_inv cfg ticks bs" "ticks \<noteq> []" "x \<in> set bs" "actAllowedAt x \<le> t"
    and "\<And>y. y \<in> set bs' \<Longrightarrow> t \<le> actAllowedAt y"
    and "\<And>y. y \<in> set bs' \<Longrightarrow> last (t # butlast ticks) \<noteq> 0 \<Longrightarrow> t < last (t # butlast ticks) + tXAW cfg \<Longrightarrow>
      last (t # butlast ticks) + tXAW cfg \<le> actAllowedAt y"
  shows "window_inv cfg (t # butlast ticks) bs'"
proof -
  have sorted: "sorted (rev ticks)" "hd ticks \<le> t" using assms(1-4) by (auto simp: window_inv_def intro: order_trans)
  then have "y \<le> t" if "y \<in> set ticks" for y using sorted_rev_hd [OF sorted(1) that] by simp
  moreover have "sorted (rev (butlast ticks))"
    using sorted(1) assms(2) by (cases ticks rule: rev_cases) auto
  ultimately have "sorted (rev (t # butlast ticks))" by (auto simp: sorted_append dest: in_set_butlastD)
  moreover have "last (t # butlast ticks) + tXAW cfg \<le> actAllowedAt y" if "y \<in> set bs'" "last (t # butlast ticks) \<noteq> 0" for y
    using assms(5) [OF that(1)] assms(6) [OF that] by (cases "t < last (t # butlast ticks) + tXAW cfg") (auto simp del: last.simps)
  ultimately show ?thesis using assms(5) by (simp add: window_inv_def del: last.simps rev.simps)
qed

lemma window_last:
  assumes "window_inv cfg ticks bs" "ticks \<noteq> []" "x \<in> set bs" "actAllowedAt x \<le> t"
  shows "last ticks \<le> t" "last ticks \<noteq> 0 \<Longrightarrow> last ticks + tXAW cfg \<le> t"
proof -
  have "last ticks \<le> hd ticks" using assms(1,2) sorted_rev_hd by (simp add: window_inv_def)
  then show "last ticks \<le> t" "last ticks \<noteq> 0 \<Longrightarrow> last ticks + tXAW cfg \<le> t"
    using assms by (auto simp: window_inv_def intro: order_trans)
qed

lemma window_later:
  assumes "window_inv cfg ticks bs" "length bs' = length bs" "\<And>i. i < length bs \<Longrightarrow> actAllowedAt (bs ! i) \<le> actAllowedAt (bs' ! i)"
  shows "window_inv cfg ticks bs'"
proof -
  have "\<exists>x\<in>set bs. actAllowedAt x \<le> actAllowedAt y" if "y \<in> set bs'" for y
  proof -
    obtain i where "i < length bs" "y = bs' ! i" using \<open>y \<in> set bs'\<close> assms(2) by (auto simp: in_set_conv_nth)
    then show ?thesis using assms(3) nth_mem by blast
  qed
  then show ?thesis using assms(1) unfolding window_inv_def by (meson order_trans)
qed

section \<open>The commands keep the invariant\<close>

lemma new_rank_inv: "rank_inv cfg (new_rank cfg i)"
proof -
  have closed: "open_count (banks (new_rank cfg i)) = 0"
    by (simp add: open_count_def new_rank_def new_bank_def filter_map o_def)
  have "window_inv cfg (replicate n 0) bs" for n bs
    by (cases n) (simp_all add: window_inv_def sorted_append)
  with closed show ?thesis by (simp add: rank_inv_def new_rank_def)
qed

lemma prechargeBank_ok:
  assumes "rank_inv cfg r" "b < banksPerRank cfg" "openRow (banks r ! b) \<noteq> NO_ROW"
  shows "\<exists>r'. prechargeBank cfg b pre_at r = Some r' \<and> rank_inv cfg r' \<and> openRow (banks r' ! b) = NO_ROW \<and>
    pre_at + tRP cfg \<le> actAllowedAt (banks r' ! b) \<and> actAllowedAt (banks r ! b) \<le> actAllowedAt (banks r' ! b) \<and>
    preAllowedAt (banks r' ! b) = pre_at \<and> colAllowedAt (banks r' ! b) = colAllowedAt (banks r ! b) \<and>
    (\<forall>i. i \<noteq> b \<longrightarrow> banks r' ! i = banks r ! i) \<and> actTicks r' = actTicks r \<and> refreshState r' = refreshState r"
proof -
  let ?bk = "(banks r ! b)\<lparr>openRow := NO_ROW, preAllowedAt := pre_at, actAllowedAt := max (actAllowedAt (banks r ! b)) (pre_at + tRP cfg)\<rparr>"
  have b: "b < length (banks r)" using assms by (simp add: rank_inv_def)
  have pos: "0 < open_count (banks r)" using open_count_pos [OF b assms(3)] .
  have "open_count ((banks r)[b := ?bk]) = open_count (banks r) - 1"
    using open_count_update [OF b, of ?bk] assms(3) by simp
  moreover have "window_inv cfg (actTicks r) ((banks r)[b := ?bk])"
    by (rule window_later [of cfg _ "banks r"]) (use assms(1) b in \<open>auto simp: rank_inv_def nth_list_update\<close>)
  ultimately show ?thesis
    using assms b pos by (simp add: prechargeBank_def Let_def rank_inv_def)
qed


text \<open>The state an activation of bank \<open>b\<close> at tick \<open>t\<close> leaves, before it is known which row it opened.\<close>

lemma activation_inv:
  assumes inv: "rank_inv cfg r" and b: "b < banksPerRank cfg" and closed: "openRow (banks r ! b) = NO_ROW"
    and allowed: "actAllowedAt (banks r ! b) \<le> t" and bk: "openRow bk \<noteq> NO_ROW"
    and bs: "bs = enforce_tRRD cfg b t ((banks r)[b := bk])"
    and ticks: "ticks = (if actTicks r = [] then [] else t # butlast (actTicks r))"
    and bs': "bs' = (if ticks \<noteq> [] \<and> last ticks \<noteq> 0 \<and> t < last ticks + tXAW cfg then push_act_limit (last ticks + tXAW cfg) bs else bs)"
  shows "length bs' = banksPerRank cfg" "length ticks = activationLimit cfg" "open_count bs' = numBanksActive r + 1"
    "window_inv cfg ticks bs'" "\<forall>i<banksPerRank cfg. t + min (tRRD cfg) (tRRD_L cfg) \<le> actAllowedAt (bs' ! i)"
    "openRow (bs' ! b) = openRow bk" "preAllowedAt (bs' ! b) = preAllowedAt bk" "colAllowedAt (bs' ! b) = colAllowedAt bk"
proof -
  have len: "length (banks r) = banksPerRank cfg" using inv by (simp add: rank_inv_def)
  then have lb: "b < length (banks r)" using b by simp
  show l: "length bs' = banksPerRank cfg" by (simp add: bs' bs len)
  show "length ticks = activationLimit cfg" using inv by (cases "actTicks r") (auto simp: ticks rank_inv_def)
  have "open_count bs' = open_count ((banks r)[b := bk])" by (simp add: bs' bs)
  then show "open_count bs' = numBanksActive r + 1"
    using open_count_update [OF lb, of bk] inv closed bk by (simp add: rank_inv_def)
  have mono: "actAllowedAt (bs ! i) \<le> actAllowedAt (bs' ! i)" if "i < banksPerRank cfg" for i
    using that nth_push(5) [of i bs] by (simp add: bs' bs len)
  have later: "t + min (tRRD cfg) (tRRD_L cfg) \<le> actAllowedAt (bs' ! i)" if "i < banksPerRank cfg" for i
    using that mono [OF that] nth_enforce(6) [of i "(banks r)[b := bk]" t cfg b] by (simp add: bs len)
  then show "\<forall>i<banksPerRank cfg. t + min (tRRD cfg) (tRRD_L cfg) \<le> actAllowedAt (bs' ! i)" by blast
  have least: "t \<le> actAllowedAt y" if "y \<in> set bs'" for y
    using that later l by (auto simp: in_set_conv_nth intro: add_leD1)
  show "window_inv cfg ticks bs'"
  proof (cases "actTicks r = []")
    case False
    then have ticks': "ticks = t # butlast (actTicks r)" by (simp add: ticks)
    show ?thesis unfolding ticks'
    proof (rule window_push [OF _ False nth_mem [OF lb] allowed least])
      show "window_inv cfg (actTicks r) (banks r)" using inv by (simp add: rank_inv_def)
      show "last (t # butlast (actTicks r)) + tXAW cfg \<le> actAllowedAt y"
        if "y \<in> set bs'" "last (t # butlast (actTicks r)) \<noteq> 0" "t < last (t # butlast (actTicks r)) + tXAW cfg" for y
        using that nth_push(6) by (auto simp: bs' ticks' in_set_conv_nth simp del: last.simps)
    qed
  qed (simp add: ticks window_inv_def)
  show "openRow (bs' ! b) = openRow bk" "preAllowedAt (bs' ! b) = preAllowedAt bk" "colAllowedAt (bs' ! b) = colAllowedAt bk"
    using b lb by (simp_all add: bs' bs len nth_push nth_enforce)
qed

lemma activateBank_ok:
  assumes "rank_inv cfg r" "b < banksPerRank cfg" "openRow (banks r ! b) = NO_ROW" "actAllowedAt (banks r ! b) \<le> t" "row \<noteq> NO_ROW"
  shows "\<exists>r'. activateBank cfg b t row r = Some r' \<and> rank_inv cfg r' \<and> openRow (banks r' ! b) = row \<and>
    preAllowedAt (banks r' ! b) = t + tRAS cfg \<and> t + tRCD cfg \<le> colAllowedAt (banks r' ! b) \<and>
    (\<forall>i<banksPerRank cfg. t + min (tRRD cfg) (tRRD_L cfg) \<le> actAllowedAt (banks r' ! i)) \<and> refreshState r' = refreshState r"
proof -
  define bk where "bk = (banks r ! b)\<lparr>openRow := row, bytesAccessed := 0, rowAccesses := 0, preAllowedAt := t + tRAS cfg,
    colAllowedAt := max (t + tRCD cfg) (colAllowedAt (banks r ! b))\<rparr>"
  define bs where "bs = enforce_tRRD cfg b t ((banks r)[b := bk])"
  define ticks where "ticks = (if actTicks r = [] then [] else t # butlast (actTicks r))"
  define bs' where "bs' = (if ticks \<noteq> [] \<and> last ticks \<noteq> 0 \<and> t < last ticks + tXAW cfg then push_act_limit (last ticks + tXAW cfg) bs else bs)"
  have "openRow bk \<noteq> NO_ROW" using assms(5) by (simp add: bk_def)
  note inv = activation_inv [OF assms(1-4) this bs_def ticks_def bs'_def]
  have lb: "b < length (banks r)" using assms(1,2) by (simp add: rank_inv_def)
  have "numBanksActive r + 1 \<le> banksPerRank cfg"
    using inv(1,3) open_count_le [of bs'] by simp
  moreover have "length (actTicks r) = activationLimit cfg" using assms(1) by (simp add: rank_inv_def)
  moreover have window: "window_inv cfg (actTicks r) (banks r)" using assms(1) by (simp add: rank_inv_def)
  have no_panic: "\<not> (last (actTicks r) \<noteq> 0 \<and> tick_sub t (last (actTicks r)) < tXAW cfg)" if "actTicks r \<noteq> []"
    using window_last [OF window that nth_mem [OF lb] assms(4)] by (auto simp: tick_sub_def)
  have "last ticks \<le> t" if "ticks \<noteq> []"
    using inv(4) that sorted_rev_hd [of ticks "last ticks"] by (auto simp: window_inv_def ticks_def split: if_splits)
  then have "ticks \<noteq> [] \<Longrightarrow> tick_sub t (last ticks) < tXAW cfg \<longleftrightarrow> t < last ticks + tXAW cfg"
    by (auto simp: tick_sub_def)
  note same = this
  have "activateBank cfg b t row r = Some (schedule_activate t (r\<lparr>numBanksActive := numBanksActive r + 1, banks := bs', actTicks := ticks\<rparr>))"
  proof (cases "actTicks r = []")
    case True
    then have "r\<lparr>numBanksActive := numBanksActive r + 1, banks := bs', actTicks := ticks\<rparr> = r\<lparr>numBanksActive := numBanksActive r + 1, banks := bs\<rparr>"
      by (cases r) (simp add: ticks_def bs'_def)
    with True calculation assms(3) show ?thesis
      by (simp add: activateBank_def Let_def bk_def [symmetric] bs_def [symmetric])
  next
    case False
    then have "ticks = t # butlast (actTicks r)" by (simp add: ticks_def)
    with False same calculation assms(3) no_panic show ?thesis
      by (simp add: activateBank_def Let_def bk_def [symmetric] bs_def [symmetric] bs'_def del: last.simps)
  qed
  then show ?thesis
    using inv by (simp add: rank_inv_def schedule_activate_def) (simp add: bk_def)
qed


text \<open>A row command leaves its bank closed and delays the next activation by its whole cycle.\<close>

definition row_cmd_done :: "config \<Rightarrow> nat \<Rightarrow> nat \<Rightarrow> rank \<Rightarrow> rank \<Rightarrow> bool" where
  "row_cmd_done cfg b next_act r r' \<longleftrightarrow> rank_inv cfg r' \<and> openRow (banks r' ! b) = NO_ROW \<and>
     next_act \<le> actAllowedAt (banks r' ! b) \<and> refreshState r' = refreshState r"

lemma apBank_ok:
  assumes "rank_inv cfg r" "b < banksPerRank cfg" "openRow (banks r ! b) = NO_ROW" "actAllowedAt (banks r ! b) \<le> t" "row \<noteq> NO_ROW"
  shows "\<exists>r'. apBank cfg b t row r = Some r' \<and> row_cmd_done cfg b (t + tRAS cfg + tRP cfg) r r'"
proof -
  obtain r1 where r1: "activateBank cfg b t row r = Some r1" "rank_inv cfg r1" "openRow (banks r1 ! b) = row"
    "preAllowedAt (banks r1 ! b) = t + tRAS cfg" "refreshState r1 = refreshState r"
    using activateBank_ok [OF assms] by blast
  with prechargeBank_ok [OF r1(2) assms(2), of "t + tRAS cfg"] assms(5) show ?thesis
    by (auto simp: apBank_def row_cmd_done_def)
qed

lemma aapBank_ok:
  assumes "rank_inv cfg r" "b < banksPerRank cfg" "openRow (banks r ! b) = NO_ROW" "actAllowedAt (banks r ! b) \<le> t"
  shows "\<exists>r'. aapBank cfg b t row1 row2 overlapped r = Some r' \<and>
    row_cmd_done cfg b (t + tRAS cfg + (if overlapped then tWLOV cfg else tWL cfg) + tRP cfg) r r'"
proof -
  define pre where "pre = t + tRAS cfg + (if overlapped then tWLOV cfg else tWL cfg)"
  define bk where "bk = (banks r ! b)\<lparr>openRow := DOUBLE_ROW, bytesAccessed := 0, rowAccesses := 0, preAllowedAt := pre\<rparr>"
  define bs where "bs = enforce_tRRD cfg b t ((banks r)[b := bk])"
  define ticks where "ticks = (if actTicks r = [] then [] else t # butlast (actTicks r))"
  define bs' where "bs' = (if ticks \<noteq> [] \<and> last ticks \<noteq> 0 \<and> t < last ticks + tXAW cfg then push_act_limit (last ticks + tXAW cfg) bs else bs)"
  define r1 where "r1 = schedule_activate t (r\<lparr>banks := bs', numBanksActive := numBanksActive r + 1, actTicks := ticks\<rparr>)"
  have double: "openRow bk \<noteq> NO_ROW" by (simp add: bk_def special_rows)
  note inv = activation_inv [OF assms this bs_def ticks_def bs'_def]
  have "numBanksActive r + 1 \<le> banksPerRank cfg" using inv(1,3) open_count_le [of bs'] by simp
  then have "aapBank cfg b t row1 row2 overlapped r = prechargeBank cfg b (preAllowedAt (banks r1 ! b)) r1"
    using assms(3) unfolding r1_def bs'_def ticks_def bs_def bk_def pre_def
    by (simp only: aapBank_def Let_def if_True simp_thms)
  moreover have "preAllowedAt (banks r1 ! b) = pre" using inv(7) by (simp add: r1_def schedule_activate_def bk_def)
  moreover have "rank_inv cfg r1" "openRow (banks r1 ! b) \<noteq> NO_ROW" "refreshState r1 = refreshState r"
    using inv double by (simp_all add: rank_inv_def r1_def schedule_activate_def)
  ultimately show ?thesis
    using prechargeBank_ok [of cfg r1 b pre] assms(2) by (auto simp: row_cmd_done_def pre_def)
qed

text \<open>
  The contract of a command that may be issued once the previous one allows the next activation: it
  returns, keeps the invariant, and takes at least its latency. A sequence of such commands takes at
  least the sum of the latencies.
\<close>

locale timed_commands =
  fixes step :: "'c \<Rightarrow> nat \<Rightarrow> 's \<Rightarrow> 's option"
    and ready :: "'s \<Rightarrow> nat"
    and good :: "'s \<Rightarrow> bool"
    and latency :: "'c \<Rightarrow> nat"
    and valid :: "'c \<Rightarrow> bool"
  assumes step_ok: "\<And>c t s. valid c \<Longrightarrow> good s \<Longrightarrow> ready s \<le> t \<Longrightarrow> \<exists>s'. step c t s = Some s' \<and> good s' \<and> t + latency c \<le> ready s'"
begin

primrec run :: "'c list \<Rightarrow> nat \<Rightarrow> 's \<Rightarrow> ('s \<times> nat) option" where
  "run [] t s = Some (s, t)"
| "run (c # cs) t s = Option.bind (step c t s) (\<lambda>s'. run cs (ready s') s')"

lemma run_ok:
  assumes "list_all valid cs" "good s" "ready s \<le> t"
  shows "\<exists>s' t'. run cs t s = Some (s', t') \<and> good s' \<and> ready s' \<le> t' \<and> t + sum_list (map latency cs) \<le> t'"
  using assms
proof (induction cs arbitrary: s t)
  case (Cons c cs)
  then obtain s1 where s1: "step c t s = Some s1" "good s1" "t + latency c \<le> ready s1" using step_ok by force
  with Cons.IH [of s1 "ready s1"] Cons.prems(1) show ?case by fastforce
qed auto

end

text \<open>The rows a command names; none may be \<open>NO_ROW\<close>, which would leave the bank closed.\<close>

definition valid_row_cmd :: "row_cmd \<Rightarrow> bool" where
  "valid_row_cmd c \<longleftrightarrow> (case c of AAP row1 row2 \<Rightarrow> True | AP row \<Rightarrow> row \<noteq> NO_ROW)"

definition row_cmd_latency :: "config \<Rightarrow> row_cmd \<Rightarrow> nat" where
  "row_cmd_latency cfg c = (case c of AAP row1 row2 \<Rightarrow> tRAS cfg + tWLOV cfg + tRP cfg | AP row \<Rightarrow> tRAS cfg + tRP cfg)"

definition row_cmd_step :: "config \<Rightarrow> nat \<Rightarrow> row_cmd \<Rightarrow> nat \<Rightarrow> rank \<Rightarrow> rank option" where
  "row_cmd_step cfg b c cmd_at r =
     (case c of AAP row1 row2 \<Rightarrow> aapBank cfg b cmd_at row1 row2 True r | AP row \<Rightarrow> apBank cfg b cmd_at row r)"

definition bank_closed :: "config \<Rightarrow> nat \<Rightarrow> refresh_state \<Rightarrow> rank \<Rightarrow> bool" where
  "bank_closed cfg b st r \<longleftrightarrow> rank_inv cfg r \<and> b < banksPerRank cfg \<and> openRow (banks r ! b) = NO_ROW \<and> refreshState r = st"

interpretation row_cmds: timed_commands "row_cmd_step cfg b" "\<lambda>r. actAllowedAt (banks r ! b)" "bank_closed cfg b st"
    "row_cmd_latency cfg" valid_row_cmd for cfg b st
proof
  fix c t and r :: rank
  assume "valid_row_cmd c" "bank_closed cfg b st r" "actAllowedAt (banks r ! b) \<le> t"
  then show "\<exists>r'. row_cmd_step cfg b c t r = Some r' \<and> bank_closed cfg b st r' \<and> t + row_cmd_latency cfg c \<le> actAllowedAt (banks r' ! b)"
    using apBank_ok [of cfg r b t] aapBank_ok [of cfg r b t _ _ True]
    by (cases c) (fastforce simp: bank_closed_def row_cmd_step_def row_cmd_latency_def row_cmd_done_def valid_row_cmd_def)+
qed

lemma run_row_cmds_run: "run_row_cmds cfg b cs t r = row_cmds.run cfg b cs t r"
  by (induction cs arbitrary: t r) (simp_all add: row_cmd_step_def)

lemma row_op_ok:
  assumes "rank_inv cfg r" "b < banksPerRank cfg" "openRow (banks r ! b) = NO_ROW" "actAllowedAt (banks r ! b) \<le> t"
  shows "\<exists>r' t'. run_row_cmds cfg b (row_op_cmds op dest src1 src2) t r = Some (r', t') \<and> rank_inv cfg r' \<and>
    openRow (banks r' ! b) = NO_ROW \<and> refreshState r' = refreshState r \<and> actAllowedAt (banks r' ! b) \<le> t' \<and>
    t + sum_list (map (row_cmd_latency cfg) (row_op_cmds op dest src1 src2)) \<le> t'"
proof -
  have "list_all valid_row_cmd (row_op_cmds op dest src1 src2)"
    by (cases op) (simp_all add: valid_row_cmd_def special_rows)
  from row_cmds.run_ok [OF this, of cfg b "refreshState r" r t] assms show ?thesis
    by (auto simp: run_row_cmds_run bank_closed_def)
qed

end
