(* ===== verification/Addr_Range.thy ===== *)
theory Addr_Range
  imports Int_Math
begin

text \<open>
  Address ranges (\<open>gem5/src/base/addr_range.hh\<close>): contiguous ranges, ranges interleaved on a slice of
  the address bits, optionally hashed with a second slice, and the merging of a full set of interleaved
  ranges to a contiguous one. A \<open>fatal\<close>, a \<open>panic\<close> or a shift by an amount the language leaves
  undefined is an error value.
\<close>

unbundle bit_operations_syntax

section \<open>Definitions\<close>

record addr_range =
  rstart :: "64 word"
  rend :: "64 word"
  intlvHighBit :: nat
  xorHighBit :: nat
  intlvBits :: nat
  intlvMatch :: nat

datatype range_error = MatchTooLarge | XorEqualsIntlv | XorTooClose | WrongRangeCount | NotMergeable | WrongMatch | CannotTest | BadShift

definition empty_range :: addr_range where
  "empty_range = \<lparr>rstart = 1, rend = 0, intlvHighBit = 0, xorHighBit = 0, intlvBits = 0, intlvMatch = 0\<rparr>"

definition make_interleaved :: "64 word \<Rightarrow> 64 word \<Rightarrow> nat \<Rightarrow> nat \<Rightarrow> nat \<Rightarrow> nat \<Rightarrow> range_error + addr_range" where
  "make_interleaved s e intlv_high_bit xor_high_bit intlv_bits intlv_match =
     (if intlv_bits \<noteq> 0 \<and> 64 \<le> intlv_bits then Inl BadShift
      else if intlv_bits \<noteq> 0 \<and> 2 ^ intlv_bits \<le> intlv_match then Inl MatchTooLarge
      else if intlv_bits \<noteq> 0 \<and> xor_high_bit \<noteq> 0 \<and> xor_high_bit = intlv_high_bit then Inl XorEqualsIntlv
      else if intlv_bits \<noteq> 0 \<and> xor_high_bit \<noteq> 0 \<and> xor_high_bit > intlv_high_bit \<and> xor_high_bit - intlv_high_bit < intlv_bits
        then Inl XorTooClose
      else if intlv_bits \<noteq> 0 \<and> xor_high_bit \<noteq> 0 \<and> xor_high_bit < intlv_high_bit \<and> intlv_high_bit - xor_high_bit < intlv_bits
        then Inl XorTooClose
      else Inr \<lparr>rstart = s, rend = e, intlvHighBit = intlv_high_bit, xorHighBit = xor_high_bit,
                intlvBits = intlv_bits, intlvMatch = intlv_match\<rparr>)"

definition make_range :: "64 word \<Rightarrow> 64 word \<Rightarrow> addr_range" where
  "make_range s e = \<lparr>rstart = s, rend = e, intlvHighBit = 0, xorHighBit = 0, intlvBits = 0, intlvMatch = 0\<rparr>"

definition interleaved :: "addr_range \<Rightarrow> bool" where
  "interleaved r \<longleftrightarrow> intlvBits r \<noteq> 0"

definition hashed :: "addr_range \<Rightarrow> bool" where
  "hashed r \<longleftrightarrow> interleaved r \<and> xorHighBit r \<noteq> 0"

definition granularity :: "addr_range \<Rightarrow> 64 word" where
  "granularity r = push_bit (intlvHighBit r + 1 - intlvBits r) 1"

definition stripes :: "addr_range \<Rightarrow> 32 word" where
  "stripes r = ucast (push_bit (intlvBits r) 1 :: 64 word)"

definition range_size :: "addr_range \<Rightarrow> 64 word" where
  "range_size r = drop_bit (intlvBits r) (rend r - rstart r + 1)"

definition range_valid :: "addr_range \<Rightarrow> bool" where
  "range_valid r \<longleftrightarrow> rstart r \<le> rend r"

definition mergesWith :: "addr_range \<Rightarrow> addr_range \<Rightarrow> bool" where
  "mergesWith this r \<longleftrightarrow> rstart r = rstart this \<and> rend r = rend this \<and> intlvHighBit r = intlvHighBit this \<and>
     xorHighBit r = xorHighBit this \<and> intlvBits r = intlvBits this"

text \<open>The match value counts in a \<open>uint8_t\<close>.\<close>

fun merge_loop :: "addr_range \<Rightarrow> nat \<Rightarrow> addr_range list \<Rightarrow> range_error + unit" where
  "merge_loop this match [] = Inr ()"
| "merge_loop this match (r # rs) =
     (if \<not> mergesWith this r then Inl NotMergeable
      else if intlvMatch r \<noteq> match then Inl WrongMatch
      else merge_loop this ((match + 1) mod 2 ^ 8) rs)"

definition merge_ranges :: "addr_range list \<Rightarrow> range_error + addr_range" where
  "merge_ranges ranges =
     (if ranges = [] then Inr empty_range
      else
        let this = (hd ranges)\<lparr>intlvMatch := 0\<rparr> in
        if 64 \<le> intlvBits this then Inl BadShift
        else if length ranges \<noteq> 2 ^ intlvBits this then Inl WrongRangeCount
        else (case merge_loop this 0 ranges of
            Inl e \<Rightarrow> Inl e
          | Inr _ \<Rightarrow> Inr (this\<lparr>intlvHighBit := 0, xorHighBit := 0, intlvBits := 0\<rparr>)))"

text \<open>The slice of \<open>n\<close> bits whose highest is bit \<open>high\<close>.\<close>

definition slice :: "64 word \<Rightarrow> nat \<Rightarrow> nat \<Rightarrow> range_error + 64 word" where
  "slice a high n = (if n \<le> high + 1 \<and> high + 1 - n < 64 \<and> n \<le> 64 then Inr (bits a high (high + 1 - n)) else Inl BadShift)"

definition range_contains :: "addr_range \<Rightarrow> 64 word \<Rightarrow> range_error + bool" where
  "range_contains r a =
     (let in_range = a \<ge> rstart r \<and> a \<le> rend r in
      if \<not> interleaved r then Inr in_range
      else if in_range then
        (if \<not> hashed r then
           (case slice a (intlvHighBit r) (intlvBits r) of Inl e \<Rightarrow> Inl e | Inr x \<Rightarrow> Inr (unat x = intlvMatch r))
         else
           (case slice a (intlvHighBit r) (intlvBits r) of Inl e \<Rightarrow> Inl e
            | Inr x \<Rightarrow> (case slice a (xorHighBit r) (intlvBits r) of Inl e \<Rightarrow> Inl e
              | Inr y \<Rightarrow> Inr (unat (x XOR y) = intlvMatch r))))
      else Inr False)"

definition intersects :: "addr_range \<Rightarrow> addr_range \<Rightarrow> range_error + bool" where
  "intersects this r =
     (if rstart this > rend r \<or> rend this < rstart r then Inr False
      else if \<not> interleaved this \<and> \<not> interleaved r then Inr True
      else if range_size r = 1 then range_contains this (rstart r)
      else if mergesWith this r then Inr (intlvMatch this = intlvMatch r)
      else Inl CannotTest)"

definition isSubset :: "addr_range \<Rightarrow> addr_range \<Rightarrow> range_error + bool" where
  "isSubset this r = (if interleaved this then Inl CannotTest else Inr (rstart this \<ge> rstart r \<and> rend this \<le> rend r))"

definition range_less :: "addr_range \<Rightarrow> addr_range \<Rightarrow> bool" where
  "range_less this r = (if rstart this \<noteq> rstart r then rstart this < rstart r else intlvMatch this < intlvMatch r)"

definition range_eq :: "addr_range \<Rightarrow> addr_range \<Rightarrow> bool" where
  "range_eq this r \<longleftrightarrow>
     (if rstart this \<noteq> rstart r then False
      else if rend this \<noteq> rend r then False
      else if intlvBits this \<noteq> intlvBits r then False
      else if intlvBits this \<noteq> 0 then intlvHighBit this = intlvHighBit r \<and> intlvMatch this = intlvMatch r
      else True)"

definition RangeEx :: "64 word \<Rightarrow> 64 word \<Rightarrow> addr_range" where
  "RangeEx s e = make_range s (e - 1)"

definition RangeIn :: "64 word \<Rightarrow> 64 word \<Rightarrow> addr_range" where
  "RangeIn s e = make_range s e"

definition RangeSize :: "64 word \<Rightarrow> 64 word \<Rightarrow> addr_range" where
  "RangeSize s sz = make_range s (s + sz - 1)"


section \<open>Slices\<close>

text \<open>The slices a range looks at lie inside an address.\<close>

definition slices_ok :: "addr_range \<Rightarrow> bool" where
  "slices_ok r \<longleftrightarrow> (interleaved r \<longrightarrow> intlvBits r \<le> intlvHighBit r + 1 \<and> intlvHighBit r < 64) \<and>
     (hashed r \<longrightarrow> intlvBits r \<le> xorHighBit r + 1 \<and> xorHighBit r < 64)"

definition stripe_of :: "addr_range \<Rightarrow> 64 word \<Rightarrow> nat" where
  "stripe_of r a = (if \<not> interleaved r then 0 else
     unat (bits a (intlvHighBit r) (intlvHighBit r + 1 - intlvBits r) XOR
       (if hashed r then bits a (xorHighBit r) (xorHighBit r + 1 - intlvBits r) else 0)))"

lemma bits_below:
  assumes "n \<le> high + 1" "high < 64" "0 < n"
  shows "take_bit n (bits a high (high + 1 - n)) = bits a high (high + 1 - n)"
proof -
  have "high - (high + 1 - n) + 1 = n" using assms by simp
  then show ?thesis using assms bits_take [of "high + 1 - n" high a] by simp
qed

lemma stripe_of_less:
  assumes "slices_ok r"
  shows "stripe_of r a < 2 ^ intlvBits r"
proof (cases "interleaved r")
  case True
  define n where "n = intlvBits r"
  define w where "w = bits a (intlvHighBit r) (intlvHighBit r + 1 - n) XOR
    (if hashed r then bits a (xorHighBit r) (xorHighBit r + 1 - n) else 0)"
  have "take_bit n w = w"
    using assms True bits_below [of n _ a] by (auto simp: w_def n_def slices_ok_def interleaved_def take_bit_xor)
  then have "unat w = take_bit n (unat w)" by (metis unsigned_take_bit_eq)
  then have "unat w < 2 ^ n" by (metis take_bit_nat_less_exp)
  then show ?thesis using True unfolding stripe_of_def w_def n_def by simp
qed (simp add: stripe_of_def)

lemma range_contains_stripe:
  assumes "slices_ok r" "\<not> interleaved r \<longrightarrow> intlvMatch r = 0"
  shows "range_contains r a = Inr (rstart r \<le> a \<and> a \<le> rend r \<and> stripe_of r a = intlvMatch r)"
  using assms by (auto simp: range_contains_def Let_def slice_def slices_ok_def stripe_of_def hashed_def interleaved_def)

section \<open>Merging\<close>

lemma merge_loop_ok:
  assumes "merge_loop this m rs = Inr ()" "m < 256" "i < length rs"
  shows "mergesWith this (rs ! i) \<and> intlvMatch (rs ! i) = (m + i) mod 256"
  using assms
proof (induction rs arbitrary: m i)
  case (Cons r rs)
  then have r: "mergesWith this r" "intlvMatch r = m" "merge_loop this ((m + 1) mod 256) rs = Inr ()"
    by (auto split: if_splits)
  show ?case
  proof (cases i)
    case (Suc j)
    then show ?thesis using Cons.IH [OF r(3), of j] Cons.prems(3) by (simp add: mod_simps)
  qed (use r Cons.prems(2) in simp)
qed simp

lemma merge_ranges_ok:
  assumes "merge_ranges rs = Inr m" "rs \<noteq> []" "intlvBits (hd rs) \<le> 8"
  shows "length rs = 2 ^ intlvBits (hd rs)" "m = make_range (rstart (hd rs)) (rend (hd rs))"
    and "i < length rs \<Longrightarrow> mergesWith (hd rs) (rs ! i) \<and> intlvMatch (rs ! i) = i"
proof -
  define this where "this = (hd rs)\<lparr>intlvMatch := 0\<rparr>"
  have merged: "length rs = 2 ^ intlvBits (hd rs)" "merge_loop this 0 rs = Inr ()"
      "m = this\<lparr>intlvHighBit := 0, xorHighBit := 0, intlvBits := 0\<rparr>"
    using assms(1,2) by (auto simp: merge_ranges_def Let_def this_def split: if_splits sum.splits)
  show "length rs = 2 ^ intlvBits (hd rs)" by (rule merged)
  show "m = make_range (rstart (hd rs)) (rend (hd rs))"
    using merged(3) by (cases "hd rs") (simp add: make_range_def this_def)
  have "length rs \<le> 2 ^ 8" unfolding merged(1) using assms(3) by (intro power_increasing) simp_all
  then show "i < length rs \<Longrightarrow> mergesWith (hd rs) (rs ! i) \<and> intlvMatch (rs ! i) = i"
    using merge_loop_ok [OF merged(2), of i] by (simp add: mergesWith_def this_def)
qed

text \<open>The ranges of a full set partition the addresses of the merged range.\<close>

lemma merged_partition:
  assumes "merge_ranges rs = Inr m" "rs \<noteq> []" "intlvBits (hd rs) \<le> 8" "slices_ok (hd rs)"
  shows "range_contains m a = Inr (rstart (hd rs) \<le> a \<and> a \<le> rend (hd rs))"
    and "i < length rs \<Longrightarrow> range_contains (rs ! i) a = Inr (range_contains m a = Inr True \<and> i = stripe_of (hd rs) a)"
    and "stripe_of (hd rs) a < length rs"
proof -
  note merged = merge_ranges_ok [OF assms(1-3)]
  show m: "range_contains m a = Inr (rstart (hd rs) \<le> a \<and> a \<le> rend (hd rs))"
    by (simp add: merged(2) make_range_def range_contains_def interleaved_def)
  show "stripe_of (hd rs) a < length rs" unfolding merged(1) by (rule stripe_of_less [OF assms(4)])
  assume i: "i < length rs"
  have same: "rstart (rs ! i) = rstart (hd rs)" "rend (rs ! i) = rend (hd rs)" "intlvMatch (rs ! i) = i"
      "slices_ok (rs ! i)" "stripe_of (rs ! i) a = stripe_of (hd rs) a"
    using merged(3) [OF i] assms(4) by (simp_all add: mergesWith_def slices_ok_def stripe_of_def interleaved_def hashed_def)
  have "\<not> interleaved (rs ! i) \<longrightarrow> intlvMatch (rs ! i) = 0"
    using merged(1) merged(3) [OF i] i by (auto simp: interleaved_def mergesWith_def)
  from range_contains_stripe [OF same(4) this, of a] show
    "range_contains (rs ! i) a = Inr (range_contains m a = Inr True \<and> i = stripe_of (hd rs) a)"
    by (auto simp: m same)
qed

section \<open>Contiguous ranges\<close>

lemma contiguous_intersects:
  assumes "\<not> interleaved r" "\<not> interleaved s" "range_valid r" "range_valid s"
  shows "intersects r s = Inr (\<exists>a. range_contains r a = Inr True \<and> range_contains s a = Inr True)"
proof -
  have "(\<exists>a. rstart r \<le> a \<and> a \<le> rend r \<and> rstart s \<le> a \<and> a \<le> rend s) \<longleftrightarrow> rstart r \<le> rend s \<and> rstart s \<le> rend r"
    using assms(3,4) unfolding range_valid_def by (meson linear order_trans order_refl)
  then show ?thesis
    using assms(1,2) by (auto simp: intersects_def range_contains_def not_less Let_def)
qed

lemma contiguous_subset:
  assumes "\<not> interleaved r" "\<not> interleaved s" "range_valid r"
  shows "isSubset r s = Inr ({a. range_contains r a = Inr True} \<subseteq> {a. range_contains s a = Inr True})"
proof -
  have "{a. rstart r \<le> a \<and> a \<le> rend r} \<subseteq> {a. rstart s \<le> a \<and> a \<le> rend s} \<longleftrightarrow> rstart s \<le> rstart r \<and> rend r \<le> rend s"
    using assms(3) unfolding range_valid_def by (auto intro: order_trans)
  then show ?thesis using assms(1,2) by (simp add: isSubset_def range_contains_def Let_def)
qed

end
