(* ===== verification/Mem_Request.thy ===== *)
theory Mem_Request
  imports Dram_Bank "HOL-Library.Word"
begin

text \<open>
  Memory requests (\<open>gem5/src/mem/request.hh\<close>, with the flag sets of \<open>base/flags.hh\<close>): the fields and
  validity flags of a request, its constructors, and the two ways to split a request before
  translation, at a virtual address and by the operands of a row operation. A failed assertion is
  \<open>None\<close>.
\<close>

unbundle bit_operations_syntax

section \<open>Flag sets\<close>

definition isSet :: "'a::len word \<Rightarrow> 'a word \<Rightarrow> bool" where
  "isSet f m \<longleftrightarrow> f AND m \<noteq> 0"

definition noneSet :: "'a::len word \<Rightarrow> 'a word \<Rightarrow> bool" where
  "noneSet f m \<longleftrightarrow> f AND m = 0"

definition clearFlags :: "'a::len word \<Rightarrow> 'a word \<Rightarrow> 'a word" where
  "clearFlags f m = f AND NOT m"

definition setFlags :: "'a::len word \<Rightarrow> 'a word \<Rightarrow> 'a word" where
  "setFlags f m = f OR m"

section \<open>Requests\<close>

definition INST_FETCH :: "32 word" where "INST_FETCH = 0x00000100"
definition UNCACHEABLE :: "32 word" where "UNCACHEABLE = 0x00000400"
definition LLSC :: "32 word" where "LLSC = 0x00200000"
definition MEM_SWAP :: "32 word" where "MEM_SWAP = 0x00400000"
definition MEM_SWAP_COND :: "32 word" where "MEM_SWAP_COND = 0x00800000"
definition PREFETCH :: "32 word" where "PREFETCH = 0x01000000"
definition SECURE :: "32 word" where "SECURE = 0x10000000"
definition ROWOP :: "32 word" where "ROWOP = 0x40000000"
definition STICKY_FLAGS :: "32 word" where "STICKY_FLAGS = INST_FETCH"

definition VALID_SIZE :: "8 word" where "VALID_SIZE = 0x01"
definition VALID_PADDR :: "8 word" where "VALID_PADDR = 0x02"
definition VALID_VADDR :: "8 word" where "VALID_VADDR = 0x04"
definition VALID_PC :: "8 word" where "VALID_PC = 0x10"
definition VALID_CONTEXT_ID :: "8 word" where "VALID_CONTEXT_ID = 0x20"
definition VALID_THREAD_ID :: "8 word" where "VALID_THREAD_ID = 0x40"
definition VALID_EXTRA_DATA :: "8 word" where "VALID_EXTRA_DATA = 0x80"
definition STICKY_PRIVATE_FLAGS :: "8 word" where "STICKY_PRIVATE_FLAGS = VALID_CONTEXT_ID OR VALID_THREAD_ID"

lemmas request_flags = INST_FETCH_def UNCACHEABLE_def LLSC_def MEM_SWAP_def MEM_SWAP_COND_def PREFETCH_def SECURE_def ROWOP_def
  STICKY_FLAGS_def VALID_SIZE_def VALID_PADDR_def VALID_VADDR_def VALID_PC_def VALID_CONTEXT_ID_def VALID_THREAD_ID_def
  VALID_EXTRA_DATA_def STICKY_PRIVATE_FLAGS_def isSet_def noneSet_def clearFlags_def setFlags_def

record request =
  req_paddr :: "64 word"
  req_size :: "32 word"
  req_masterId :: "16 word"
  req_flags :: "32 word"
  privateFlags :: "8 word"
  req_time :: nat
  req_taskId :: "32 word"
  req_asid :: int
  req_vaddr :: "64 word"
  req_extraData :: "64 word"
  req_contextId :: int
  req_threadId :: int
  req_pc :: "64 word"
  translateDelta :: nat
  accessDelta :: nat
  req_depth :: int

text \<open>The task is \<open>ContextSwitchTaskId::Unknown\<close>, the master \<open>invldMasterId\<close>, the largest value of its type.\<close>

definition new_request :: request where
  "new_request = \<lparr>req_paddr = 0, req_size = 0, req_masterId = - 1, req_flags = 0, privateFlags = 0, req_time = 0,
     req_taskId = 1024, req_asid = 0, req_vaddr = 0, req_extraData = 0, req_contextId = 0, req_threadId = 0, req_pc = 0,
     translateDelta = 0, accessDelta = 0, req_depth = 0\<rparr>"

definition setPhys :: "64 word \<Rightarrow> 32 word \<Rightarrow> 32 word \<Rightarrow> 16 word \<Rightarrow> nat \<Rightarrow> request \<Rightarrow> request" where
  "setPhys paddr sz fl mid t r = r\<lparr>req_paddr := paddr, req_size := sz, req_time := t, req_masterId := mid,
     req_flags := setFlags (clearFlags (req_flags r) (NOT STICKY_FLAGS)) fl,
     privateFlags := setFlags (clearFlags (privateFlags r) (NOT STICKY_PRIVATE_FLAGS)) (VALID_PADDR OR VALID_SIZE),
     req_depth := 0, accessDelta := 0\<rparr>"

definition setVirt :: "int \<Rightarrow> 64 word \<Rightarrow> 32 word \<Rightarrow> 32 word \<Rightarrow> 16 word \<Rightarrow> 64 word \<Rightarrow> nat \<Rightarrow> request \<Rightarrow> request" where
  "setVirt asid vaddr sz fl mid pc now r = r\<lparr>req_asid := asid, req_vaddr := vaddr, req_size := sz, req_masterId := mid,
     req_pc := pc, req_time := now,
     req_flags := setFlags (clearFlags (req_flags r) (NOT STICKY_FLAGS)) fl,
     privateFlags := setFlags (clearFlags (privateFlags r) (NOT STICKY_PRIVATE_FLAGS)) (VALID_VADDR OR VALID_SIZE OR VALID_PC),
     req_depth := 0, accessDelta := 0, translateDelta := 0\<rparr>"

definition setThreadContext :: "int \<Rightarrow> int \<Rightarrow> request \<Rightarrow> request" where
  "setThreadContext cid tid r = r\<lparr>req_contextId := cid, req_threadId := tid,
     privateFlags := setFlags (privateFlags r) (VALID_CONTEXT_ID OR VALID_THREAD_ID)\<rparr>"

definition setPaddr :: "64 word \<Rightarrow> request \<Rightarrow> request" where
  "setPaddr paddr r = r\<lparr>req_paddr := paddr, privateFlags := setFlags (privateFlags r) VALID_PADDR\<rparr>"

definition getPaddr :: "request \<Rightarrow> 64 word option" where
  "getPaddr r = (if isSet (privateFlags r) VALID_PADDR then Some (req_paddr r) else None)"

definition getVaddr :: "request \<Rightarrow> 64 word option" where
  "getVaddr r = (if isSet (privateFlags r) VALID_VADDR then Some (req_vaddr r) else None)"

definition getReqSize :: "request \<Rightarrow> 32 word option" where
  "getReqSize r = (if isSet (privateFlags r) VALID_SIZE then Some (req_size r) else None)"

definition getExtraData :: "request \<Rightarrow> 64 word option" where
  "getExtraData r = (if isSet (privateFlags r) VALID_EXTRA_DATA then Some (req_extraData r) else None)"

definition setExtraData :: "64 word \<Rightarrow> request \<Rightarrow> request" where
  "setExtraData x r = r\<lparr>req_extraData := x, privateFlags := setFlags (privateFlags r) VALID_EXTRA_DATA\<rparr>"

definition contextId :: "request \<Rightarrow> int option" where
  "contextId r = (if isSet (privateFlags r) VALID_CONTEXT_ID then Some (req_contextId r) else None)"

text \<open>The constructors for a physical and for a virtual request.\<close>

definition phys_request :: "64 word \<Rightarrow> 32 word \<Rightarrow> 32 word \<Rightarrow> 16 word \<Rightarrow> nat \<Rightarrow> request" where
  "phys_request paddr sz fl mid t = setPhys paddr sz fl mid t new_request"

definition virt_request :: "int \<Rightarrow> 64 word \<Rightarrow> 32 word \<Rightarrow> 32 word \<Rightarrow> 16 word \<Rightarrow> 64 word \<Rightarrow> int \<Rightarrow> int \<Rightarrow> nat \<Rightarrow> request" where
  "virt_request asid vaddr sz fl mid pc cid tid now = setThreadContext cid tid (setVirt asid vaddr sz fl mid pc now new_request)"

definition isRowOp :: "request \<Rightarrow> bool" where "isRowOp r \<longleftrightarrow> isSet (req_flags r) ROWOP"
definition req_isLLSC :: "request \<Rightarrow> bool" where "req_isLLSC r \<longleftrightarrow> isSet (req_flags r) LLSC"
definition isPrefetch :: "request \<Rightarrow> bool" where "isPrefetch r \<longleftrightarrow> isSet (req_flags r) PREFETCH"
definition isSwap :: "request \<Rightarrow> bool" where "isSwap r \<longleftrightarrow> isSet (req_flags r) (MEM_SWAP OR MEM_SWAP_COND)"
definition isCondSwap :: "request \<Rightarrow> bool" where "isCondSwap r \<longleftrightarrow> isSet (req_flags r) MEM_SWAP_COND"
definition isInstFetch :: "request \<Rightarrow> bool" where "isInstFetch r \<longleftrightarrow> isSet (req_flags r) INST_FETCH"

section \<open>Splitting\<close>

record rowop_payload =
  pl_op :: rowop
  pl_dest :: "64 word"
  pl_src1 :: "64 word"
  pl_src2 :: "64 word"

definition splitOnVaddr :: "64 word \<Rightarrow> request \<Rightarrow> (request \<times> request) option" where
  "splitOnVaddr split_addr r =
     (if isSet (privateFlags r) VALID_VADDR \<and> noneSet (privateFlags r) VALID_PADDR \<and>
         split_addr > req_vaddr r \<and> split_addr < req_vaddr r + ucast (req_size r)
      then let req1 = r\<lparr>req_size := ucast (split_addr - req_vaddr r)\<rparr>
           in Some (req1, r\<lparr>req_vaddr := split_addr, req_size := req_size r - req_size req1\<rparr>)
      else None)"

definition splitRowOp :: "rowop_payload \<Rightarrow> request \<Rightarrow> (request \<times> request option \<times> request option) option" where
  "splitRowOp addrs r =
     (if isSet (privateFlags r) VALID_VADDR \<and> noneSet (privateFlags r) VALID_PADDR
      then Some (r\<lparr>req_vaddr := pl_dest addrs\<rparr>,
        if pl_op addrs = ROWAP then None else Some (r\<lparr>req_vaddr := pl_src1 addrs\<rparr>),
        if pl_op addrs = ROWNOT \<or> pl_op addrs = ROWAP \<or> pl_op addrs = ROWAAP then None
        else Some (r\<lparr>req_vaddr := pl_src2 addrs\<rparr>))
      else None)"

section \<open>What splitting keeps\<close>

lemma virt_request_flags:
  "isSet (privateFlags (virt_request asid vaddr sz fl mid pc cid tid now)) VALID_VADDR"
  "noneSet (privateFlags (virt_request asid vaddr sz fl mid pc cid tid now)) VALID_PADDR"
  "req_flags (virt_request asid vaddr sz fl mid pc cid tid now) = fl"
  "req_vaddr (virt_request asid vaddr sz fl mid pc cid tid now) = vaddr"
  "req_size (virt_request asid vaddr sz fl mid pc cid tid now) = sz"
  by (simp_all add: virt_request_def setThreadContext_def setVirt_def new_request_def request_flags)

text \<open>The bytes a virtual request covers.\<close>

definition req_bytes :: "request \<Rightarrow> nat set" where
  "req_bytes r = {unat (req_vaddr r)..<unat (req_vaddr r) + unat (req_size r)}"

lemma splitOnVaddr_pieces:
  assumes "isSet (privateFlags r) VALID_VADDR" "noneSet (privateFlags r) VALID_PADDR"
    and "unat (req_vaddr r) + unat (req_size r) < 2 ^ 64"
    and "unat (req_vaddr r) < unat split_addr" "unat split_addr < unat (req_vaddr r) + unat (req_size r)"
  shows "\<exists>r1 r2. splitOnVaddr split_addr r = Some (r1, r2) \<and> req_vaddr r1 = req_vaddr r \<and> req_vaddr r2 = split_addr \<and>
    req_bytes r1 \<union> req_bytes r2 = req_bytes r \<and> req_bytes r1 \<inter> req_bytes r2 = {} \<and>
    req_flags r1 = req_flags r \<and> req_flags r2 = req_flags r"
proof -
  have sz: "unat (ucast (req_size r) :: 64 word) = unat (req_size r)"
    using unsigned_less [where 'a = nat, of "req_size r"] by (simp add: unsigned_ucast_eq take_bit_nat_eq_self)
  have e: "unat (req_vaddr r + ucast (req_size r)) = unat (req_vaddr r) + unat (req_size r)"
    using assms(3) by (simp add: unat_word_ariths sz)
  have d: "unat (split_addr - req_vaddr r) = unat split_addr - unat (req_vaddr r)"
    using assms(4) by (simp add: unat_sub_if')
  have "unat split_addr - unat (req_vaddr r) < 2 ^ 32"
    using assms(5) unsigned_less [where 'a = nat, of "req_size r"] by simp
  then have s1: "unat (ucast (split_addr - req_vaddr r) :: 32 word) = unat split_addr - unat (req_vaddr r)"
    by (simp add: unsigned_ucast_eq take_bit_nat_eq_self d)
  have s2: "unat (req_size r - ucast (split_addr - req_vaddr r)) = unat (req_size r) - (unat split_addr - unat (req_vaddr r))"
    using assms(5) by (simp add: unat_sub_if' s1)
  have "splitOnVaddr split_addr r = Some (r\<lparr>req_size := ucast (split_addr - req_vaddr r)\<rparr>,
      r\<lparr>req_vaddr := split_addr, req_size := req_size r - ucast (split_addr - req_vaddr r)\<rparr>)"
    using assms(1,2,4,5) by (simp add: splitOnVaddr_def Let_def word_less_nat_alt e)
  then show ?thesis using assms(4,5) by (auto simp: req_bytes_def s1 s2)
qed

end
