(* ===== verification/Mem_Packet.thy ===== *)
theory Mem_Packet
  imports Mem_Request
begin

text \<open>
  Packets (\<open>gem5/src/mem/packet.hh\<close> and \<open>packet.cc\<close>): the commands with their table of attributes and
  responses, the fields of a packet, how a packet is built from a request and turned into a response,
  and the functional check of a packet against data in flight. A failed assertion, a panic and a copy
  out of bounds are \<open>None\<close>. The data of a packet is a byte buffer or the payload of a row operation;
  offsets in a buffer are exact, which the \<open>int\<close> of the source is below two gigabytes.
\<close>

section \<open>Commands\<close>

datatype mem_cmd = InvalidCmd | ReadReq | ReadResp | ReadRespWithInvalidate | WriteReq | WriteResp | Writeback | CleanEvict
  | SoftPFReq | HardPFReq | SoftPFResp | HardPFResp | WriteLineReq | UpgradeReq | SCUpgradeReq | UpgradeResp | SCUpgradeFailReq
  | UpgradeFailResp | ReadExReq | ReadExResp | ReadCleanReq | ReadSharedReq | LoadLockedReq | StoreCondReq | StoreCondFailReq
  | StoreCondResp | SwapReq | SwapResp | MessageReq | MessageResp | ReleaseReq | ReleaseResp | AcquireReq | AcquireResp
  | InvalidDestError | BadAddressError | FunctionalReadError | FunctionalWriteError | PrintReq | FlushReq | InvalidateReq
  | InvalidateResp

datatype cmd_attr = IsRead | IsWrite | IsUpgrade | IsInvalidate | NeedsExclusive | IsRequest | IsResponse | NeedsResponse
  | IsSWPrefetch | IsHWPrefetch | IsLlsc | HasData | IsError | IsPrint | IsFlush

text \<open>The attributes of each command and the command of its response.\<close>

fun commandInfo :: "mem_cmd \<Rightarrow> cmd_attr list \<times> mem_cmd" where
  "commandInfo InvalidCmd = ([], InvalidCmd)"
| "commandInfo ReadReq = ([IsRead, IsRequest, NeedsResponse], ReadResp)"
| "commandInfo ReadResp = ([IsRead, IsResponse, HasData], InvalidCmd)"
| "commandInfo ReadRespWithInvalidate = ([IsRead, IsResponse, HasData, IsInvalidate], InvalidCmd)"
| "commandInfo WriteReq = ([IsWrite, NeedsExclusive, IsRequest, NeedsResponse, HasData], WriteResp)"
| "commandInfo WriteResp = ([IsWrite, NeedsExclusive, IsResponse], InvalidCmd)"
| "commandInfo Writeback = ([IsWrite, NeedsExclusive, IsRequest, HasData], InvalidCmd)"
| "commandInfo CleanEvict = ([IsWrite, IsRequest], InvalidCmd)"
| "commandInfo SoftPFReq = ([IsRead, IsRequest, IsSWPrefetch, NeedsResponse], SoftPFResp)"
| "commandInfo HardPFReq = ([IsRead, IsRequest, IsHWPrefetch, NeedsResponse], HardPFResp)"
| "commandInfo SoftPFResp = ([IsRead, IsResponse, IsSWPrefetch, HasData], InvalidCmd)"
| "commandInfo HardPFResp = ([IsRead, IsResponse, IsHWPrefetch, HasData], InvalidCmd)"
| "commandInfo WriteLineReq = ([IsWrite, NeedsExclusive, IsRequest, NeedsResponse, HasData], WriteResp)"
| "commandInfo UpgradeReq = ([IsInvalidate, NeedsExclusive, IsUpgrade, IsRequest, NeedsResponse], UpgradeResp)"
| "commandInfo SCUpgradeReq = ([IsInvalidate, NeedsExclusive, IsUpgrade, IsLlsc, IsRequest, NeedsResponse], UpgradeResp)"
| "commandInfo UpgradeResp = ([NeedsExclusive, IsUpgrade, IsResponse], InvalidCmd)"
| "commandInfo SCUpgradeFailReq = ([IsRead, NeedsExclusive, IsInvalidate, IsLlsc, IsRequest, NeedsResponse], UpgradeFailResp)"
| "commandInfo UpgradeFailResp = ([IsRead, NeedsExclusive, IsResponse, HasData], InvalidCmd)"
| "commandInfo ReadExReq = ([IsRead, NeedsExclusive, IsInvalidate, IsRequest, NeedsResponse], ReadExResp)"
| "commandInfo ReadExResp = ([IsRead, NeedsExclusive, IsResponse, HasData], InvalidCmd)"
| "commandInfo ReadCleanReq = ([IsRead, IsRequest, NeedsResponse], ReadResp)"
| "commandInfo ReadSharedReq = ([IsRead, IsRequest, NeedsResponse], ReadResp)"
| "commandInfo LoadLockedReq = ([IsRead, IsLlsc, IsRequest, NeedsResponse], ReadResp)"
| "commandInfo StoreCondReq = ([IsWrite, NeedsExclusive, IsLlsc, IsRequest, NeedsResponse, HasData], StoreCondResp)"
| "commandInfo StoreCondFailReq = ([IsWrite, NeedsExclusive, IsLlsc, IsRequest, NeedsResponse, HasData], StoreCondResp)"
| "commandInfo StoreCondResp = ([IsWrite, NeedsExclusive, IsLlsc, IsResponse], InvalidCmd)"
| "commandInfo SwapReq = ([IsRead, IsWrite, NeedsExclusive, IsRequest, HasData, NeedsResponse], SwapResp)"
| "commandInfo SwapResp = ([IsRead, IsWrite, NeedsExclusive, IsResponse, HasData], InvalidCmd)"
| "commandInfo MessageReq = ([IsWrite, IsRequest, NeedsResponse, HasData], MessageResp)"
| "commandInfo MessageResp = ([IsWrite, IsResponse], InvalidCmd)"
| "commandInfo ReleaseReq = ([IsRequest, NeedsResponse], ReleaseResp)"
| "commandInfo ReleaseResp = ([IsResponse], InvalidCmd)"
| "commandInfo AcquireReq = ([IsRequest, NeedsResponse], AcquireResp)"
| "commandInfo AcquireResp = ([IsResponse, NeedsResponse], InvalidCmd)"
| "commandInfo InvalidDestError = ([IsResponse, IsError], InvalidCmd)"
| "commandInfo BadAddressError = ([IsResponse, IsError], InvalidCmd)"
| "commandInfo FunctionalReadError = ([IsRead, IsResponse, IsError], InvalidCmd)"
| "commandInfo FunctionalWriteError = ([IsWrite, IsResponse, IsError], InvalidCmd)"
| "commandInfo PrintReq = ([IsRequest, IsPrint], InvalidCmd)"
| "commandInfo FlushReq = ([IsRequest, IsFlush, NeedsExclusive], InvalidCmd)"
| "commandInfo InvalidateReq = ([IsInvalidate, IsRequest, NeedsExclusive, NeedsResponse], InvalidateResp)"
| "commandInfo InvalidateResp = ([IsInvalidate, IsResponse, NeedsExclusive], InvalidCmd)"

definition testCmdAttrib :: "mem_cmd \<Rightarrow> cmd_attr \<Rightarrow> bool" where
  "testCmdAttrib c a \<longleftrightarrow> a \<in> set (fst (commandInfo c))"

definition responseCommand :: "mem_cmd \<Rightarrow> mem_cmd" where
  "responseCommand c = snd (commandInfo c)"

text \<open>The table is consistent: a request that needs a response has one of its own kind.\<close>

lemma response_of_request:
  assumes "testCmdAttrib c IsRequest" "testCmdAttrib c NeedsResponse"
  shows "testCmdAttrib (responseCommand c) IsResponse" "\<not> testCmdAttrib (responseCommand c) IsRequest"
    "testCmdAttrib (responseCommand c) IsRead = testCmdAttrib c IsRead"
    "testCmdAttrib (responseCommand c) IsWrite = testCmdAttrib c IsWrite"
    "testCmdAttrib c IsRead \<Longrightarrow> testCmdAttrib (responseCommand c) HasData"
    "testCmdAttrib (responseCommand c) NeedsResponse \<longleftrightarrow> c = AcquireReq"
  using assms by (cases c; simp add: testCmdAttrib_def responseCommand_def)+

lemma request_or_response: "testCmdAttrib c IsRequest \<and> testCmdAttrib c IsResponse \<longleftrightarrow> False"
  by (cases c) (simp_all add: testCmdAttrib_def)

section \<open>Packets\<close>

definition EXPRESS_SNOOP :: "32 word" where "EXPRESS_SNOOP = 0x00000002"
definition MEM_INHIBIT :: "32 word" where "MEM_INHIBIT = 0x00000008"
definition VALID_ADDR :: "32 word" where "VALID_ADDR = 0x00000100"
definition PKT_VALID_SIZE :: "32 word" where "PKT_VALID_SIZE = 0x00000200"
definition STATIC_DATA :: "32 word" where "STATIC_DATA = 0x00001000"
definition DYNAMIC_DATA :: "32 word" where "DYNAMIC_DATA = 0x00002000"

lemmas packet_flags = EXPRESS_SNOOP_def MEM_INHIBIT_def VALID_ADDR_def PKT_VALID_SIZE_def STATIC_DATA_def DYNAMIC_DATA_def

type_synonym byte8 = "8 word"

datatype pkt_data = NoData | Bytes "byte8 list" | RowPayload rowop_payload

record packet =
  pkt_flags :: "32 word"
  cmd :: mem_cmd
  req :: request
  pdata :: pkt_data
  paddr :: "64 word"
  pkt_secure :: bool
  psize :: nat
  bytesValid :: "bool list"
  headerDelay :: nat
  snoopDelay :: nat
  payloadDelay :: nat

abbreviation isRead :: "packet \<Rightarrow> bool" where "isRead p \<equiv> testCmdAttrib (cmd p) IsRead"
abbreviation isWrite :: "packet \<Rightarrow> bool" where "isWrite p \<equiv> testCmdAttrib (cmd p) IsWrite"
abbreviation isRequest :: "packet \<Rightarrow> bool" where "isRequest p \<equiv> testCmdAttrib (cmd p) IsRequest"
abbreviation isResponse :: "packet \<Rightarrow> bool" where "isResponse p \<equiv> testCmdAttrib (cmd p) IsResponse"
abbreviation needsResponse :: "packet \<Rightarrow> bool" where "needsResponse p \<equiv> testCmdAttrib (cmd p) NeedsResponse"
abbreviation isInvalidate :: "packet \<Rightarrow> bool" where "isInvalidate p \<equiv> testCmdAttrib (cmd p) IsInvalidate"
abbreviation hasData :: "packet \<Rightarrow> bool" where "hasData p \<equiv> testCmdAttrib (cmd p) HasData"
abbreviation isLLSC :: "packet \<Rightarrow> bool" where "isLLSC p \<equiv> testCmdAttrib (cmd p) IsLlsc"
abbreviation isPrint :: "packet \<Rightarrow> bool" where "isPrint p \<equiv> testCmdAttrib (cmd p) IsPrint"
abbreviation isError :: "packet \<Rightarrow> bool" where "isError p \<equiv> testCmdAttrib (cmd p) IsError"

definition memInhibitAsserted :: "packet \<Rightarrow> bool" where
  "memInhibitAsserted p \<longleftrightarrow> isSet (pkt_flags p) MEM_INHIBIT"

definition assertMemInhibit :: "packet \<Rightarrow> packet option" where
  "assertMemInhibit p = (if isRequest p \<and> \<not> isSet (pkt_flags p) MEM_INHIBIT
     then Some (p\<lparr>pkt_flags := setFlags (pkt_flags p) MEM_INHIBIT\<rparr>) else None)"

definition getAddr :: "packet \<Rightarrow> 64 word option" where
  "getAddr p = (if isSet (pkt_flags p) VALID_ADDR then Some (paddr p) else None)"

definition getSize :: "packet \<Rightarrow> nat option" where
  "getSize p = (if isSet (pkt_flags p) PKT_VALID_SIZE then Some (psize p) else None)"

definition getOffset :: "nat \<Rightarrow> packet \<Rightarrow> 64 word option" where
  "getOffset blk_size p = map_option (\<lambda>a. a AND (of_nat blk_size - 1)) (getAddr p)"

definition getBlockAddr :: "nat \<Rightarrow> packet \<Rightarrow> 64 word option" where
  "getBlockAddr blk_size p = map_option (\<lambda>a. a AND NOT (of_nat blk_size - 1)) (getAddr p)"

definition getPtr :: "packet \<Rightarrow> byte8 list option" where
  "getPtr p = (if isSet (pkt_flags p) (STATIC_DATA OR DYNAMIC_DATA)
     then (case pdata p of Bytes bs \<Rightarrow> Some bs | _ \<Rightarrow> None) else None)"

definition getPayload :: "packet \<Rightarrow> rowop_payload option" where
  "getPayload p = (if isSet (pkt_flags p) (STATIC_DATA OR DYNAMIC_DATA)
     then (case pdata p of RowPayload pl \<Rightarrow> Some pl | _ \<Rightarrow> None) else None)"

subsection \<open>Building packets\<close>

definition new_packet :: "request \<Rightarrow> mem_cmd \<Rightarrow> packet" where
  "new_packet r c =
     (let p = \<lparr>pkt_flags = 0, cmd = c, req = r, pdata = NoData, paddr = 0, pkt_secure = False, psize = 0, bytesValid = [],
               headerDelay = 0, snoopDelay = 0, payloadDelay = 0\<rparr>;
          p = (if isSet (privateFlags r) VALID_PADDR
               then p\<lparr>paddr := req_paddr r, pkt_flags := setFlags (pkt_flags p) VALID_ADDR, pkt_secure := isSet (req_flags r) SECURE\<rparr>
               else p)
      in if isSet (privateFlags r) VALID_SIZE
         then p\<lparr>psize := unat (req_size r), pkt_flags := setFlags (pkt_flags p) PKT_VALID_SIZE\<rparr>
         else p)"

text \<open>A packet for the whole block around the address of the request.\<close>

definition block_packet :: "request \<Rightarrow> mem_cmd \<Rightarrow> nat \<Rightarrow> packet" where
  "block_packet r c blkSize =
     (let p = \<lparr>pkt_flags = 0, cmd = c, req = r, pdata = NoData, paddr = 0, pkt_secure = False, psize = 0, bytesValid = [],
               headerDelay = 0, snoopDelay = 0, payloadDelay = 0\<rparr>;
          p = (if isSet (privateFlags r) VALID_PADDR
               then p\<lparr>paddr := req_paddr r AND NOT (of_nat blkSize - 1), pkt_flags := setFlags (pkt_flags p) VALID_ADDR,
                      pkt_secure := isSet (req_flags r) SECURE\<rparr>
               else p)
      in p\<lparr>psize := blkSize, pkt_flags := setFlags (pkt_flags p) PKT_VALID_SIZE\<rparr>)"

definition makeReadCmd :: "request \<Rightarrow> mem_cmd" where
  "makeReadCmd r = (if req_isLLSC r then LoadLockedReq else if isPrefetch r then SoftPFReq else ReadReq)"

definition makeWriteCmd :: "request \<Rightarrow> mem_cmd" where
  "makeWriteCmd r = (if req_isLLSC r then StoreCondReq else if isSwap r then SwapReq else WriteReq)"

definition createRead :: "request \<Rightarrow> packet" where
  "createRead r = new_packet r (makeReadCmd r)"

definition createWrite :: "request \<Rightarrow> packet" where
  "createWrite r = new_packet r (makeWriteCmd r)"

definition makeResponse :: "packet \<Rightarrow> packet option" where
  "makeResponse p = (if needsResponse p \<and> isRequest p
     then Some (p\<lparr>cmd := responseCommand (cmd p), pkt_flags := clearFlags (pkt_flags p) EXPRESS_SNOOP\<rparr>) else None)"

definition convertScToWrite :: "packet \<Rightarrow> packet option" where
  "convertScToWrite p = (if isLLSC p \<and> isWrite p then Some (p\<lparr>cmd := WriteReq\<rparr>) else None)"

definition convertLlToRead :: "packet \<Rightarrow> packet option" where
  "convertLlToRead p = (if isLLSC p \<and> isRead p then Some (p\<lparr>cmd := ReadReq\<rparr>) else None)"

definition setFunctionalResponseStatus :: "bool \<Rightarrow> packet \<Rightarrow> packet" where
  "setFunctionalResponseStatus success p = (if success then p
     else if isWrite p then p\<lparr>cmd := FunctionalWriteError\<rparr> else p\<lparr>cmd := FunctionalReadError\<rparr>)"

definition dataDynamic :: "pkt_data \<Rightarrow> packet \<Rightarrow> packet option" where
  "dataDynamic d p = (if noneSet (pkt_flags p) (STATIC_DATA OR DYNAMIC_DATA)
     then Some (p\<lparr>pdata := d, pkt_flags := setFlags (pkt_flags p) DYNAMIC_DATA\<rparr>) else None)"

definition evictingBlock :: "packet \<Rightarrow> bool" where
  "evictingBlock p \<longleftrightarrow> cmd p = Writeback \<or> cmd p = CleanEvict"

definition mustCheckAbove :: "packet \<Rightarrow> bool" where
  "mustCheckAbove p \<longleftrightarrow> cmd p = HardPFReq \<or> evictingBlock p"

section \<open>The functional check\<close>

definition copy_bytes :: "byte8 list \<Rightarrow> nat \<Rightarrow> byte8 list \<Rightarrow> nat \<Rightarrow> nat \<Rightarrow> byte8 list option" where
  "copy_bytes dst doff src soff n =
     (if doff + n \<le> length dst \<and> soff + n \<le> length src
      then Some (take doff dst @ take n (drop soff src) @ drop (doff + n) dst) else None)"

text \<open>The offsets in the value and in the packet, and the number of bytes to copy, of a partial overlap.\<close>

definition partial_overlap :: "64 word \<Rightarrow> 64 word \<Rightarrow> 64 word \<Rightarrow> 64 word \<Rightarrow> nat \<Rightarrow> (nat \<times> nat \<times> nat) option" where
  "partial_overlap func_start func_end val_start val_end sz =
     (if val_start < func_start \<and> val_end \<le> func_end then
        Some (unat (func_start - val_start), 0, unat (val_end - func_start))
      else if val_start \<ge> func_start \<and> val_end > func_end then
        Some (0, unat (val_start - func_start), unat (func_end - val_start))
      else if val_start \<ge> func_start \<and> val_end \<le> func_end then
        Some (0, unat (val_start - func_start), sz)
      else if val_start < func_start \<and> val_end > func_end then
        Some (unat (func_start - val_start), 0, unat (func_end - func_start))
      else None)"

definition check_read :: "packet \<Rightarrow> nat \<Rightarrow> 64 word \<Rightarrow> 64 word \<Rightarrow> 64 word \<Rightarrow> 64 word \<Rightarrow> nat \<Rightarrow> byte8 list \<Rightarrow> (bool \<times> packet) option" where
  "check_read p fsz func_start func_end val_start val_end sz d =
     (if func_start \<ge> val_start \<and> func_end \<le> val_end then do {
        buf \<leftarrow> getPtr p;
        buf \<leftarrow> copy_bytes buf 0 d (unat (func_start - val_start)) fsz;
        Some (True, p\<lparr>pdata := Bytes buf, bytesValid := (if bytesValid p = [] then replicate fsz True else bytesValid p)\<rparr>) }
      else do {
        (val_offset, func_offset, overlap_size) \<leftarrow> partial_overlap func_start func_end val_start val_end sz;
        buf \<leftarrow> getPtr p;
        buf \<leftarrow> copy_bytes buf func_offset d val_offset overlap_size;
        let bv = (if bytesValid p = [] then replicate fsz False else bytesValid p);
        let all_bytes_valid = list_all id (take func_offset bv) \<and> list_all id (drop (func_offset + overlap_size) bv);
        Some (all_bytes_valid, p\<lparr>pdata := Bytes buf,
          bytesValid := take func_offset bv @ replicate overlap_size True @ drop (func_offset + overlap_size) bv\<rparr>) })"

definition check_write :: "packet \<Rightarrow> 64 word \<Rightarrow> 64 word \<Rightarrow> 64 word \<Rightarrow> 64 word \<Rightarrow> byte8 list \<Rightarrow> byte8 list option" where
  "check_write p func_start func_end val_start val_end d = do {
     buf \<leftarrow> getPtr p;
     if func_start \<ge> val_start then
       copy_bytes d (unat (func_start - val_start)) buf 0 (unat (min func_end val_end - func_start + 1))
     else
       copy_bytes d 0 buf (unat (val_start - func_start)) (unat (min func_end val_end - val_start + 1)) }"

text \<open>The result, the packet and the data of the other party; no data is \<open>NULL\<close>.\<close>

definition checkFunctional ::
    "packet \<Rightarrow> 64 word \<Rightarrow> bool \<Rightarrow> nat \<Rightarrow> byte8 list option \<Rightarrow> (bool \<times> packet \<times> byte8 list option) option" where
  "checkFunctional p val_start is_secure sz data = do {
     func_start \<leftarrow> getAddr p;
     fsz \<leftarrow> getSize p;
     let func_end = func_start + of_nat fsz - 1;
     let val_end = val_start + of_nat sz - 1;
     if is_secure \<noteq> pkt_secure p \<or> func_start > val_end \<or> val_start > func_end then Some (False, p, data)
     else if isPrint p then (if data = None then Some (False, p, data) else None)
     else (case data of
         None \<Rightarrow> Some (False, p, data)
       | Some d \<Rightarrow>
           if isRead p then do {
             (done, p) \<leftarrow> check_read p fsz func_start func_end val_start val_end sz d;
             Some (done, p, data) }
           else if isWrite p then do {
             d \<leftarrow> check_write p func_start func_end val_start val_end d;
             Some (False, p, Some d) }
           else None) }"

subsection \<open>What the check copies\<close>

lemma copy_bytes_nth:
  assumes "copy_bytes dst doff src soff n = Some r"
  shows "length r = length dst"
    and "i < length dst \<Longrightarrow> r ! i = (if doff \<le> i \<and> i < doff + n then src ! (soff + (i - doff)) else dst ! i)"
proof -
  have r: "r = take doff dst @ take n (drop soff src) @ drop (doff + n) dst" "doff + n \<le> length dst" "soff + n \<le> length src"
    using assms by (auto simp: copy_bytes_def split: if_splits)
  then show "length r = length dst" by simp
  assume "i < length dst"
  then show "r ! i = (if doff \<le> i \<and> i < doff + n then src ! (soff + (i - doff)) else dst ! i)"
    using r by (auto simp: nth_append)
qed

text \<open>A packet and a value whose last bytes do not wrap around the address space.\<close>

definition pkt_at :: "packet \<Rightarrow> 64 word \<Rightarrow> byte8 list \<Rightarrow> bool" where
  "pkt_at p a buf \<longleftrightarrow> getAddr p = Some a \<and> getSize p = Some (length buf) \<and> getPtr p = Some buf \<and> buf \<noteq> [] \<and>
     unat a + length buf < 2 ^ 64 \<and> \<not> isPrint p"

lemma unat_last:
  fixes a :: "64 word"
  assumes "0 < n" "unat a + n < 2 ^ 64"
  shows "unat (a + of_nat n - 1) = unat a + n - 1"
proof -
  have "unat (of_nat n :: 64 word) = n" using assms(2) by (simp add: unsigned_of_nat take_bit_nat_eq_self)
  then have "unat (a + of_nat n) = unat a + n" using assms(2) by (simp add: unat_word_ariths)
  then show ?thesis using assms(1) by (simp add: unat_sub_if')
qed

lemma pkt_ends:
  fixes v :: "64 word"
  assumes "pkt_at p a buf" "d \<noteq> []" "unat v + length d < 2 ^ 64"
  shows "unat (a + of_nat (length buf) - 1) = unat a + length buf - 1" "unat (v + of_nat (length d) - 1) = unat v + length d - 1"
  using unat_last [of "length buf" a] unat_last [of "length d" v] assms by (simp_all add: pkt_at_def)

lemma copy_bytes_ok: "doff + n \<le> length dst \<Longrightarrow> soff + n \<le> length src \<Longrightarrow> \<exists>r. copy_bytes dst doff src soff n = Some r"
  by (simp add: copy_bytes_def)

lemma checkFunctional_read_covered:
  assumes "pkt_at p a buf" "isRead p" "pkt_secure p = sec" "d \<noteq> []" "unat v + length d < 2 ^ 64"
    and "unat v \<le> unat a" "unat a + length buf \<le> unat v + length d"
  shows "\<exists>p' buf'. checkFunctional p v sec (length d) (Some d) = Some (True, p', Some d) \<and> pdata p' = Bytes buf' \<and>
    buf' = take (length buf) (drop (unat a - unat v) d)"
proof -
  note e = pkt_ends [OF assms(1,4,5)]
  have pos: "0 < length buf" "0 < length d" using assms(1,4) by (auto simp: pkt_at_def)
  have off: "unat (a - v) = unat a - unat v" using assms(6) by (simp add: unat_sub_if')
  have "copy_bytes buf 0 d (unat a - unat v) (length buf) = Some (take (length buf) (drop (unat a - unat v) d))"
    using assms(6,7) by (simp add: copy_bytes_def)
  moreover have "\<not> a > v + of_nat (length d) - 1" "\<not> v > a + of_nat (length buf) - 1"
      "a \<ge> v" "a + of_nat (length buf) - 1 \<le> v + of_nat (length d) - 1"
    unfolding word_less_nat_alt word_le_nat_alt e using assms(6,7) pos by linarith+
  ultimately show ?thesis
    using assms(1-3) by (simp add: checkFunctional_def check_read_def pkt_at_def off)
qed

text \<open>A value that ends inside the packet: the copy stops one byte early.\<close>

lemma checkFunctional_read_from_below:
  assumes "pkt_at p a buf" "isRead p" "pkt_secure p = sec" "d \<noteq> []" "unat v + length d < 2 ^ 64"
    and "unat v < unat a" "unat a < unat v + length d" "unat v + length d < unat a + length buf" "bytesValid p = []"
  shows "\<exists>p' buf'. checkFunctional p v sec (length d) (Some d) = Some (False, p', Some d) \<and> pdata p' = Bytes buf' \<and>
    length buf' = length buf \<and> (\<forall>i<length buf. buf' ! i = (if unat a + i + 1 < unat v + length d then d ! (unat a - unat v + i) else buf ! i)) \<and>
    bytesValid p' = map (\<lambda>i. unat a + i + 1 < unat v + length d) [0..<length buf]"
proof -
  let ?n = "unat v + length d - 1 - unat a"
  note e = pkt_ends [OF assms(1,4,5)]
  have off: "unat (a - v) = unat a - unat v" using assms(6) by (simp add: unat_sub_if')
  have n: "unat (v + of_nat (length d) - 1 - a) = ?n" using assms(7) e(2) by (simp add: unat_sub_if')
  obtain buf' where buf': "copy_bytes buf 0 d (unat a - unat v) ?n = Some buf'"
    using copy_bytes_ok [of 0 ?n buf "unat a - unat v" d] assms(6-8) by force
  have po: "partial_overlap a (a + of_nat (length buf) - 1) v (v + of_nat (length d) - 1) (length d) = Some (unat a - unat v, 0, ?n)"
    using assms(6-8) by (simp add: partial_overlap_def word_less_nat_alt word_le_nat_alt e off n)
  have "\<not> list_all id (drop ?n (replicate (length buf) False))"
    using assms(7,8) by (simp add: list_all_iff)
  moreover have "replicate ?n True @ drop ?n (replicate (length buf) False) = map (\<lambda>i. unat a + i + 1 < unat v + length d) [0..<length buf]"
    using assms(7,8) by (intro nth_equalityI) (auto simp: nth_append)
  moreover have "\<not> (a \<ge> v \<and> a + of_nat (length buf) - 1 \<le> v + of_nat (length d) - 1)"
    unfolding word_le_nat_alt e using assms(7,8) by linarith
  moreover have "\<not> a > v + of_nat (length d) - 1" "\<not> v > a + of_nat (length buf) - 1"
    unfolding word_less_nat_alt e using assms(6-8) by linarith+
  ultimately show ?thesis
    using assms(1-3,9) po buf' copy_bytes_nth [OF buf']
    by (auto simp: checkFunctional_def check_read_def pkt_at_def Let_def)
qed

lemma checkFunctional_write:
  assumes "pkt_at p a buf" "\<not> isRead p" "isWrite p" "pkt_secure p = sec" "d \<noteq> []" "unat v + length d < 2 ^ 64"
    and "unat a < unat v + length d" "unat v < unat a + length buf"
  shows "\<exists>d'. checkFunctional p v sec (length d) (Some d) = Some (False, p, Some d') \<and> length d' = length d \<and>
    (\<forall>i<length d. d' ! i = (if unat a \<le> unat v + i \<and> unat v + i < unat a + length buf then buf ! (unat v + i - unat a) else d ! i))"
proof -
  note e = pkt_ends [OF assms(1,5,6)]
  let ?m = "min (unat a + length buf) (unat v + length d)"
  have m: "unat (min (a + of_nat (length buf) - 1) (v + of_nat (length d) - 1)) = ?m - 1"
    by (simp add: min_def word_le_nat_alt e)
  have m1: "unat (min (a + of_nat (length buf) - 1) (v + of_nat (length d) - 1) - x + 1) = ?m - unat x"
    if "unat x < ?m" for x :: "64 word"
  proof -
    define k where "k = ?m"
    have "k < 2 ^ 64" "unat x < k" using assms(6) that by (simp_all add: k_def)
    then show ?thesis by (auto simp: unat_sub_if' m unat_word_ariths k_def [symmetric])
  qed
  have w: "\<exists>d'. check_write p a (a + of_nat (length buf) - 1) v (v + of_nat (length d) - 1) d = Some d' \<and> length d' = length d \<and>
    (\<forall>i<length d. d' ! i = (if unat a \<le> unat v + i \<and> unat v + i < unat a + length buf then buf ! (unat v + i - unat a) else d ! i))"
  proof (cases "unat v \<le> unat a")
    case True
    then have off: "unat (a - v) = unat a - unat v" by (simp add: unat_sub_if')
    obtain d' where d': "copy_bytes d (unat a - unat v) buf 0 (?m - unat a) = Some d'"
      using copy_bytes_ok [of "unat a - unat v" "?m - unat a" d 0 buf] True assms(7) by force
    moreover have "getPtr p = Some buf" using assms(1) by (simp add: pkt_at_def)
    ultimately have "check_write p a (a + of_nat (length buf) - 1) v (v + of_nat (length d) - 1) d = Some d'"
      using True m1 [of a] assms(1,7) by (simp add: check_write_def word_le_nat_alt off pkt_at_def)
    moreover have "0 + (i - (unat a - unat v)) = unat v + i - unat a" for i using True by simp
    ultimately show ?thesis using True copy_bytes_nth [OF d'] assms(7) by auto
  next
    case False
    then have off: "unat (v - a) = unat v - unat a" by (simp add: unat_sub_if')
    obtain d' where d': "copy_bytes d 0 buf (unat v - unat a) (?m - unat v) = Some d'"
      using copy_bytes_ok [of 0 "?m - unat v" d "unat v - unat a" buf] False assms(8) by force
    moreover have "getPtr p = Some buf" using assms(1) by (simp add: pkt_at_def)
    ultimately have "check_write p a (a + of_nat (length buf) - 1) v (v + of_nat (length d) - 1) d = Some d'"
      using False m1 [of v] assms(5,8) by (simp add: check_write_def word_le_nat_alt off)
    then show ?thesis using False copy_bytes_nth [OF d'] assms(8) by (auto simp: add.commute)
  qed
  moreover have "\<not> a > v + of_nat (length d) - 1" "\<not> v > a + of_nat (length buf) - 1"
    unfolding word_less_nat_alt e using assms(7,8) by linarith+
  ultimately show ?thesis
    using assms(1-4) by (auto simp: checkFunctional_def pkt_at_def Let_def)
qed

end
