(* ===== verification/Phys_Mem.thy ===== *)
theory Phys_Mem
  imports Mem_Packet Addr_Range
begin

text \<open>
  The untimed memory behind the controllers (\<open>gem5/src/mem/abstract_mem.hh\<close> and \<open>abstract_mem.cc\<close>):
  the backing store, the list of load-locked addresses, ordinary, conditional and swapping accesses,
  and the row operations, which act on whole rows of the backing store. A failed assertion, a panic
  and an access outside the backing store are \<open>None\<close>. Statistics are left out.
\<close>

section \<open>State\<close>

record locked_addr =
  la_addr :: "64 word"
  la_context :: int

text \<open>The store is \<open>None\<close> for a null memory; \<open>wakeups\<close> are the contexts whose processor is woken.\<close>

record memory =
  mrange :: addr_range
  pmem :: "byte8 list option"
  lockedAddrList :: "locked_addr list"
  wakeups :: "int list"

definition Addr_Mask :: "64 word" where "Addr_Mask = 0xf"

definition lock_mask :: "64 word \<Rightarrow> 64 word" where
  "lock_mask a = a AND NOT Addr_Mask"

definition set_mem :: "byte8 list \<Rightarrow> memory \<Rightarrow> memory" where
  "set_mem bs m = m\<lparr>pmem := Some bs\<rparr>"

text \<open>The store a memory is given when the system is set up; without one, reads and writes have no effect.\<close>

definition setBackingStore :: "byte8 list option \<Rightarrow> memory \<Rightarrow> memory" where
  "setBackingStore pmem_addr m = m\<lparr>pmem := pmem_addr\<rparr>"

section \<open>Load-locked and store-conditional\<close>

fun track_loop :: "64 word \<Rightarrow> int \<Rightarrow> locked_addr list \<Rightarrow> locked_addr list option" where
  "track_loop a cid [] = None"
| "track_loop a cid (l # ls) =
     (if la_context l = cid then Some (l\<lparr>la_addr := a\<rparr> # ls) else map_option (\<lambda>ls. l # ls) (track_loop a cid ls))"

definition trackLoadLocked :: "packet \<Rightarrow> memory \<Rightarrow> memory option" where
  "trackLoadLocked p m = do {
     a \<leftarrow> getPaddr (req p);
     cid \<leftarrow> contextId (req p);
     Some (case track_loop (lock_mask a) cid (lockedAddrList m) of
         Some ls \<Rightarrow> m\<lparr>lockedAddrList := ls\<rparr>
       | None \<Rightarrow> m\<lparr>lockedAddrList := \<lparr>la_addr = lock_mask a, la_context = cid\<rparr> # lockedAddrList m\<rparr>) }"

text \<open>The search of a store-conditional for its own record; the context is looked at only where the address matches.\<close>

fun find_lock :: "64 word \<Rightarrow> int option \<Rightarrow> locked_addr list \<Rightarrow> bool option" where
  "find_lock a cid [] = Some False"
| "find_lock a cid (l # ls) =
     (if la_addr l = a then (case cid of None \<Rightarrow> None | Some c \<Rightarrow> if la_context l = c then Some True else find_lock a cid ls)
      else find_lock a cid ls)"

definition checkLockedAddrList :: "packet \<Rightarrow> memory \<Rightarrow> (bool \<times> packet \<times> memory) option" where
  "checkLockedAddrList p m = do {
     a \<leftarrow> map_option lock_mask (getPaddr (req p));
     allowStore \<leftarrow> (if isLLSC p then find_lock a (contextId (req p)) (lockedAddrList m) else Some True);
     let p' = (if isLLSC p then p\<lparr>req := setExtraData (if allowStore then 1 else 0) (req p)\<rparr> else p);
     Some (allowStore, p',
       if allowStore
       then m\<lparr>lockedAddrList := filter (\<lambda>l. la_addr l \<noteq> a) (lockedAddrList m),
              wakeups := wakeups m @ map la_context (filter (\<lambda>l. la_addr l = a) (lockedAddrList m))\<rparr>
       else m) }"

definition writeOK :: "packet \<Rightarrow> memory \<Rightarrow> (bool \<times> packet \<times> memory) option" where
  "writeOK p m =
     (if lockedAddrList m = []
      then Some (\<not> isLLSC p, (if isLLSC p then p\<lparr>req := setExtraData 0 (req p)\<rparr> else p), m)
      else checkLockedAddrList p m)"

section \<open>Row operations\<close>

definition GEM5_ROW_SIZE :: nat where "GEM5_ROW_SIZE = 8192"

text \<open>
  One word of the row after the other. The operators act on the bytes of a word one by one, so a word
  is its eight bytes.
\<close>

fun row_loop :: "nat \<Rightarrow> (byte8 \<Rightarrow> byte8 \<Rightarrow> byte8) \<Rightarrow> nat \<Rightarrow> nat \<Rightarrow> nat \<Rightarrow> byte8 list \<Rightarrow> byte8 list option" where
  "row_loop 0 f d s1 s2 pm = Some pm"
| "row_loop (Suc n) f d s1 s2 pm =
     (if d + 8 \<le> length pm \<and> s1 + 8 \<le> length pm \<and> s2 + 8 \<le> length pm
      then row_loop n f (d + 8) (s1 + 8) (s2 + 8)
        (take d pm @ map2 f (take 8 (drop s1 pm)) (take 8 (drop s2 pm)) @ drop (d + 8) pm)
      else None)"

fun row_byte :: "rowop \<Rightarrow> byte8 \<Rightarrow> byte8 \<Rightarrow> byte8" where
  "row_byte ROWAND x y = x AND y"
| "row_byte ROWOR x y = x OR y"
| "row_byte ROWNOT x y = NOT x"
| "row_byte ROWXOR x y = x XOR y"
| "row_byte ROWAP x y = x"
| "row_byte ROWAAP x y = x"

definition row_access :: "rowop_payload \<Rightarrow> memory \<Rightarrow> memory option" where
  "row_access addrs m = do {
     pm \<leftarrow> pmem m;
     let dest = unat (pl_dest addrs - rstart (mrange m));
     let src1 = unat (pl_src1 addrs - rstart (mrange m));
     let src2 = unat (pl_src2 addrs - rstart (mrange m));
     (case pl_op addrs of
         ROWAP \<Rightarrow> Some m
       | ROWAAP \<Rightarrow> Some m
       | ROWNOT \<Rightarrow> map_option (\<lambda>pm. set_mem pm m) (row_loop (GEM5_ROW_SIZE div 8) (row_byte ROWNOT) dest src1 src1 pm)
       | op \<Rightarrow> map_option (\<lambda>pm. set_mem pm m) (row_loop (GEM5_ROW_SIZE div 8) (row_byte op) dest src1 src2 pm)) }"

section \<open>Accesses\<close>

definition in_memory :: "64 word \<Rightarrow> 64 word \<Rightarrow> memory \<Rightarrow> bool" where
  "in_memory s e m \<longleftrightarrow> isSubset (make_range s e) (mrange m) = Inr True"

text \<open>Copying \<open>sz\<close> bytes from and to the store; a null memory copies nothing.\<close>

definition read_store :: "packet \<Rightarrow> nat \<Rightarrow> nat \<Rightarrow> memory \<Rightarrow> packet option" where
  "read_store p off sz m = (case pmem m of
       None \<Rightarrow> Some p
     | Some pm \<Rightarrow> do {
         buf \<leftarrow> getPtr p;
         buf \<leftarrow> copy_bytes buf 0 pm off sz;
         Some (p\<lparr>pdata := Bytes buf\<rparr>) })"

definition write_store :: "packet \<Rightarrow> nat \<Rightarrow> nat \<Rightarrow> memory \<Rightarrow> memory option" where
  "write_store p off sz m = (case pmem m of
       None \<Rightarrow> Some m
     | Some pm \<Rightarrow> do {
         buf \<leftarrow> getPtr p;
         pm \<leftarrow> copy_bytes pm off buf 0 sz;
         Some (set_mem pm m) })"

text \<open>The condition of a conditional swap compares the extra data, least significant byte first, with the store.\<close>

definition le_bytes :: "nat \<Rightarrow> 64 word \<Rightarrow> byte8 list" where
  "le_bytes n x = map (\<lambda>i. ucast (drop_bit (8 * i) x)) [0..<n]"

definition swap_access :: "packet \<Rightarrow> nat \<Rightarrow> nat \<Rightarrow> memory \<Rightarrow> (packet \<times> memory) option" where
  "swap_access p off sz m = do {
     pm \<leftarrow> pmem m;
     overwrite_val \<leftarrow> getPtr p;
     p' \<leftarrow> read_store p off sz m;
     overwrite_mem \<leftarrow> (if isCondSwap (req p) then
         (if sz = 8 \<or> sz = 4 then do { x \<leftarrow> getExtraData (req p); Some (le_bytes sz x = take sz (drop off pm)) } else None)
       else Some True);
     pm' \<leftarrow> (if overwrite_mem then copy_bytes pm off overwrite_val 0 sz else Some pm);
     if isInstFetch (req p) then None else Some (p', set_mem pm' m) }"

definition respond :: "packet \<Rightarrow> packet option" where
  "respond p = (if needsResponse p then makeResponse p else Some p)"

definition access :: "packet \<Rightarrow> memory \<Rightarrow> (packet \<times> memory) option" where
  "access p m =
     (if memInhibitAsserted p then Some (p, m)
      else if cmd p = CleanEvict then Some (p, m)
      else if isRowOp (req p) then do {
        addrs \<leftarrow> getPayload p;
        m \<leftarrow> row_access addrs m;
        p \<leftarrow> respond p;
        Some (p, m) }
      else do {
        a \<leftarrow> getAddr p;
        sz \<leftarrow> getSize p;
        if in_memory a (a + of_nat ((sz + (2 ^ 32 - 1)) mod 2 ^ 32)) m then do {
          let off = unat (a - rstart (mrange m));
          (p, m) \<leftarrow>
            (if cmd p = SwapReq then swap_access p off sz m
             else if isRead p then
               (if isWrite p then None
                else do {
                  m \<leftarrow> (if isLLSC p then trackLoadLocked p m else Some m);
                  p \<leftarrow> read_store p off sz m;
                  Some (p, m) })
             else if isInvalidate p then Some (p, m)
             else if isWrite p then do {
               (ok, p, m) \<leftarrow> writeOK p m;
               if ok then do {
                 m \<leftarrow> write_store p off sz m;
                 if isInstFetch (req p) then None else Some (p, m) }
               else Some (p, m) }
             else None);
          p \<leftarrow> respond p;
          Some (p, m) }
        else None })"

text \<open>The debugging access: no locks, no inhibition. Printing leaves packet and memory alone.\<close>

definition functionalAccess :: "packet \<Rightarrow> memory \<Rightarrow> (packet \<times> memory) option" where
  "functionalAccess p m = do {
     a \<leftarrow> getAddr p;
     sz \<leftarrow> getSize p;
     if in_memory a (a + of_nat sz - 1) m then do {
       let off = unat (a - rstart (mrange m));
       if isRead p then do { p \<leftarrow> read_store p off sz m; p \<leftarrow> makeResponse p; Some (p, m) }
       else if isWrite p then do { m \<leftarrow> write_store p off sz m; p \<leftarrow> makeResponse p; Some (p, m) }
       else if isPrint p then Some (p, m)
       else None }
     else None }"

section \<open>Row operations act on whole rows\<close>

lemma row_loop_ok:
  assumes "d + 8 * n \<le> length pm" "s1 + 8 * n \<le> length pm" "s2 + 8 * n \<le> length pm"
    and "s1 = d \<or> s1 + 8 * n \<le> d \<or> d + 8 * n \<le> s1" "s2 = d \<or> s2 + 8 * n \<le> d \<or> d + 8 * n \<le> s2"
  shows "\<exists>pm'. row_loop n f d s1 s2 pm = Some pm' \<and> length pm' = length pm \<and>
    (\<forall>i<length pm. pm' ! i = (if d \<le> i \<and> i < d + 8 * n then f (pm ! (s1 + (i - d))) (pm ! (s2 + (i - d))) else pm ! i))"
  using assms
proof (induction n arbitrary: d s1 s2 pm)
  case (Suc n)
  define pm1 where "pm1 = take d pm @ map2 f (take 8 (drop s1 pm)) (take 8 (drop s2 pm)) @ drop (d + 8) pm"
  have len: "length pm1 = length pm" using Suc.prems(1-3) by (simp add: pm1_def)
  have pm1: "pm1 ! i = (if d \<le> i \<and> i < d + 8 then f (pm ! (s1 + (i - d))) (pm ! (s2 + (i - d))) else pm ! i)" if "i < length pm" for i
    using that Suc.prems(1-3) by (auto simp: pm1_def nth_append)
  have shifted: "s1 + 8 = d + 8 \<or> s1 + 8 + 8 * n \<le> d + 8 \<or> d + 8 + 8 * n \<le> s1 + 8" "s2 + 8 = d + 8 \<or> s2 + 8 + 8 * n \<le> d + 8 \<or> d + 8 + 8 * n \<le> s2 + 8"
    using Suc.prems(4,5) by auto
  obtain pm' where pm': "row_loop n f (d + 8) (s1 + 8) (s2 + 8) pm1 = Some pm'" "length pm' = length pm"
    "\<And>i. i < length pm \<Longrightarrow> pm' ! i = (if d + 8 \<le> i \<and> i < d + 8 + 8 * n then f (pm1 ! (s1 + 8 + (i - (d + 8)))) (pm1 ! (s2 + 8 + (i - (d + 8)))) else pm1 ! i)"
    using Suc.IH [of "d + 8" pm1 "s1 + 8" "s2 + 8"] Suc.prems(1-3) shifted len by auto
  have same: "pm1 ! (s + 8 + (i - (d + 8))) = pm ! (s + (i - d))" if "d + 8 \<le> i" "i < d + 8 + 8 * n"
    "s = d \<or> s + 8 * Suc n \<le> d \<or> d + 8 * Suc n \<le> s" "s + 8 * Suc n \<le> length pm" for s i
  proof -
    have "s + 8 + (i - (d + 8)) = s + (i - d)" using that(1) by simp
    moreover have "s + (i - d) < length pm" "\<not> (d \<le> s + (i - d) \<and> s + (i - d) < d + 8)" using that by auto
    ultimately show ?thesis using pm1 [of "s + (i - d)"] by (simp only: if_False simp_thms)
  qed
  have "pm' ! i = (if d \<le> i \<and> i < d + 8 * Suc n then f (pm ! (s1 + (i - d))) (pm ! (s2 + (i - d))) else pm ! i)" if "i < length pm" for i
  proof (cases "d + 8 \<le> i \<and> i < d + 8 + 8 * n")
    case True
    then show ?thesis using pm'(3) [OF that] same [of i s1] same [of i s2] Suc.prems by simp
  next
    case False
    then show ?thesis using pm'(3) [OF that] pm1 [OF that] by auto
  qed
  then show ?case using pm'(1,2) Suc.prems(1-3) by (simp add: pm1_def)
qed auto

text \<open>The offset of an address in the store.\<close>

definition store_off :: "memory \<Rightarrow> 64 word \<Rightarrow> nat" where
  "store_off m a = unat (a - rstart (mrange m))"

definition row_of_store :: "memory \<Rightarrow> 64 word \<Rightarrow> bool" where
  "row_of_store m a \<longleftrightarrow> (case pmem m of None \<Rightarrow> False
     | Some pm \<Rightarrow> GEM5_ROW_SIZE dvd store_off m a \<and> store_off m a + GEM5_ROW_SIZE \<le> length pm)"

lemma rows_apart: "r dvd a \<Longrightarrow> r dvd b \<Longrightarrow> a = b \<or> a + r \<le> b \<or> b + r \<le> (a::nat)"
proof -
  assume "r dvd a" "r dvd b"
  then obtain i j where "a = r * i" "b = r * j" by (auto elim!: dvdE)
  then show ?thesis
    using mult_le_mono2 [of "Suc i" j r] mult_le_mono2 [of "Suc j" i r] by (cases i j rule: linorder_cases) auto
qed

lemma row_access_ok:
  assumes "pmem m = Some pm" "row_of_store m (pl_dest addrs)" "row_of_store m (pl_src1 addrs)"
    "pl_op addrs \<noteq> ROWNOT \<longrightarrow> row_of_store m (pl_src2 addrs)" "pl_op addrs \<noteq> ROWAP" "pl_op addrs \<noteq> ROWAAP"
  shows "\<exists>pm'. row_access addrs m = Some (set_mem pm' m) \<and> length pm' = length pm \<and>
    (\<forall>i<length pm. pm' ! i = (if store_off m (pl_dest addrs) \<le> i \<and> i < store_off m (pl_dest addrs) + GEM5_ROW_SIZE
       then row_byte (pl_op addrs) (pm ! (store_off m (pl_src1 addrs) + (i - store_off m (pl_dest addrs))))
              (pm ! (store_off m (pl_src2 addrs) + (i - store_off m (pl_dest addrs))))
       else pm ! i))"
proof -
  let ?n = "GEM5_ROW_SIZE div 8"
  have row: "8 * ?n = GEM5_ROW_SIZE" by (simp add: GEM5_ROW_SIZE_def)
  define s2 where "s2 = (if pl_op addrs = ROWNOT then store_off m (pl_src1 addrs) else store_off m (pl_src2 addrs))"
  have in_store: "store_off m (pl_dest addrs) + 8 * ?n \<le> length pm" "store_off m (pl_src1 addrs) + 8 * ?n \<le> length pm" "s2 + 8 * ?n \<le> length pm"
    using assms(1-4) by (auto simp: row_of_store_def s2_def row)
  have dvd: "GEM5_ROW_SIZE dvd store_off m (pl_dest addrs)" "GEM5_ROW_SIZE dvd store_off m (pl_src1 addrs)" "GEM5_ROW_SIZE dvd s2"
    using assms(1-4) by (auto simp: row_of_store_def s2_def)
  have apart: "store_off m (pl_src1 addrs) = store_off m (pl_dest addrs) \<or> store_off m (pl_src1 addrs) + 8 * ?n \<le> store_off m (pl_dest addrs) \<or>
      store_off m (pl_dest addrs) + 8 * ?n \<le> store_off m (pl_src1 addrs)"
    "s2 = store_off m (pl_dest addrs) \<or> s2 + 8 * ?n \<le> store_off m (pl_dest addrs) \<or> store_off m (pl_dest addrs) + 8 * ?n \<le> s2"
    unfolding row using rows_apart [OF dvd(2,1)] rows_apart [OF dvd(3,1)] by blast+
  from row_loop_ok [OF in_store apart, of "row_byte (pl_op addrs)"] obtain pm' where
    pm': "row_loop ?n (row_byte (pl_op addrs)) (store_off m (pl_dest addrs)) (store_off m (pl_src1 addrs)) s2 pm = Some pm'"
      "length pm' = length pm" and
    nth: "\<forall>i<length pm. pm' ! i = (if store_off m (pl_dest addrs) \<le> i \<and> i < store_off m (pl_dest addrs) + 8 * ?n
       then row_byte (pl_op addrs) (pm ! (store_off m (pl_src1 addrs) + (i - store_off m (pl_dest addrs)))) (pm ! (s2 + (i - store_off m (pl_dest addrs))))
       else pm ! i)" by blast
  have "row_access addrs m = Some (set_mem pm' m)"
    using pm'(1) assms(1,5,6) by (cases "pl_op addrs") (simp_all add: row_access_def s2_def store_off_def Let_def)
  moreover have src2: "row_byte (pl_op addrs) x (pm ! (s2 + j)) = row_byte (pl_op addrs) x (pm ! (store_off m (pl_src2 addrs) + j))" for x j
    by (cases "pl_op addrs = ROWNOT") (simp_all add: s2_def)
  ultimately show ?thesis using pm'(2) nth unfolding row src2 by blast
qed

section \<open>Reads, writes and reservations\<close>

definition overwrite :: "nat \<Rightarrow> byte8 list \<Rightarrow> byte8 list \<Rightarrow> byte8 list" where
  "overwrite off buf pm = take off pm @ buf @ drop (off + length buf) pm"

text \<open>A packet for bytes of the memory: physically addressed, not inhibited, and inside the store \<open>pm\<close>.\<close>

definition mem_pkt :: "packet \<Rightarrow> 64 word \<Rightarrow> byte8 list \<Rightarrow> memory \<Rightarrow> byte8 list \<Rightarrow> bool" where
  "mem_pkt p a buf m pm \<longleftrightarrow> pkt_at p a buf \<and> length buf < 2 ^ 32 \<and> \<not> memInhibitAsserted p \<and> \<not> isRowOp (req p) \<and>
     \<not> isInstFetch (req p) \<and> getPaddr (req p) = Some a \<and> pmem m = Some pm \<and> rstart (mrange m) \<le> a \<and>
     unat a + length buf \<le> unat (rend (mrange m)) + 1 \<and> store_off m a + length buf \<le> length pm"

lemma mem_pkt_in_memory:
  assumes "mem_pkt p a buf m pm"
  shows "in_memory a (a + of_nat ((length buf + (2 ^ 32 - 1)) mod 2 ^ 32)) m"
proof -
  have b: "0 < length buf" "length buf < 2 ^ 32" "unat a + length buf < 2 ^ 64" using assms by (auto simp: mem_pkt_def pkt_at_def)
  have "length buf + (2 ^ 32 - 1) = (length buf - 1) + 2 ^ 32" using b(1) by simp
  then have "(length buf + (2 ^ 32 - 1)) mod 2 ^ 32 = (length buf - 1 + 2 ^ 32) mod 2 ^ 32" by (simp only:)
  also have "\<dots> = length buf - 1" using b(2) by (subst mod_add_self2) (simp add: less_imp_diff_less)
  finally have m: "(length buf + (2 ^ 32 - 1)) mod 2 ^ 32 = length buf - 1" .
  define l where "l = a + of_nat (length buf - 1)"
  have "l = a + of_nat (length buf) - 1" using b(1) by (simp add: l_def of_nat_diff Suc_le_eq)
  then have "unat l = unat a + length buf - 1" using unat_last [OF b(1,3)] by (simp only:)
  then show ?thesis
    unfolding m l_def [symmetric] in_memory_def using assms b(1)
    by (auto simp: isSubset_def make_range_def interleaved_def mem_pkt_def word_le_nat_alt)
qed

lemma read_store_ok:
  assumes "mem_pkt p a buf m pm"
  shows "read_store p (store_off m a) (length buf) m = Some (p\<lparr>pdata := Bytes (take (length buf) (drop (store_off m a) pm))\<rparr>)"
  using assms by (simp add: read_store_def mem_pkt_def pkt_at_def copy_bytes_def)

lemma write_store_ok:
  assumes "mem_pkt p a buf m pm"
  shows "write_store p (store_off m a) (length buf) m = Some (set_mem (overwrite (store_off m a) buf pm) m)"
  using assms by (simp add: write_store_def mem_pkt_def pkt_at_def copy_bytes_def overwrite_def)

text \<open>The store and the address of a packet do not depend on its locks and extra data.\<close>

lemma mem_pkt_locks: "mem_pkt p a buf (m\<lparr>lockedAddrList := ls, wakeups := ws\<rparr>) pm = mem_pkt p a buf m pm"
  "mem_pkt p a buf (m\<lparr>lockedAddrList := ls\<rparr>) pm = mem_pkt p a buf m pm"
  by (simp_all add: mem_pkt_def store_off_def)

lemma mem_pkt_extra: "mem_pkt (p\<lparr>req := setExtraData x (req p)\<rparr>) a buf m pm = mem_pkt p a buf m pm"
proof -
  have "isSet (privateFlags (req p) OR 0x80) 0x02 = isSet (privateFlags (req p)) (0x02 :: 8 word)"
    by (simp add: isSet_def bit.conj_disj_distrib2)
  then show ?thesis
    by (simp add: mem_pkt_def pkt_at_def getAddr_def getSize_def getPtr_def memInhibitAsserted_def isRowOp_def isInstFetch_def
        getPaddr_def setExtraData_def setFlags_def VALID_EXTRA_DATA_def VALID_PADDR_def)
qed

subsection \<open>Reservations\<close>

definition lock_inv :: "memory \<Rightarrow> bool" where
  "lock_inv m \<longleftrightarrow> distinct (map la_context (lockedAddrList m))"

definition reservations :: "memory \<Rightarrow> (int \<times> 64 word) set" where
  "reservations m = set (map (\<lambda>l. (la_context l, la_addr l)) (lockedAddrList m))"

lemma track_loop_None: "track_loop a c ls = None \<longleftrightarrow> c \<notin> la_context ` set ls"
  by (induction ls) auto

lemma track_loop_Some:
  assumes "track_loop a c ls = Some ls'" "distinct (map la_context ls)"
  shows "map la_context ls' = map la_context ls"
    "set (map (\<lambda>l. (la_context l, la_addr l)) ls') = {r \<in> set (map (\<lambda>l. (la_context l, la_addr l)) ls). fst r \<noteq> c} \<union> {(c, a)}"
  using assms
proof (induction ls arbitrary: ls')
  case (Cons l ls)
  {
    case 1
    then show ?case using Cons.IH(1) by (auto split: if_splits)
  next
    case 2
    show ?case
    proof (cases "la_context l = c")
      case True
      then have "la_context r \<noteq> c" if "r \<in> set ls" for r using 2(2) imageI [OF that, of la_context] by auto
      then show ?thesis using 2 True by auto
    next
      case False
      then obtain ls1 where "track_loop a c ls = Some ls1" "ls' = l # ls1" using 2(1) by auto
      then show ?thesis using Cons.IH(2) [of ls1] 2(2) False by auto
    qed
  }
qed simp_all

lemma track_reserves:
  assumes "getPaddr (req p) = Some a" "contextId (req p) = Some c" "lock_inv m"
  shows "\<exists>ls. trackLoadLocked p m = Some (m\<lparr>lockedAddrList := ls\<rparr>) \<and> lock_inv (m\<lparr>lockedAddrList := ls\<rparr>) \<and>
    reservations (m\<lparr>lockedAddrList := ls\<rparr>) = {r \<in> reservations m. fst r \<noteq> c} \<union> {(c, lock_mask a)}"
proof (cases "track_loop (lock_mask a) c (lockedAddrList m)")
  case None
  then have "c \<notin> la_context ` set (lockedAddrList m)" by (simp add: track_loop_None)
  then show ?thesis
    using None assms
    by (intro exI [of _ "\<lparr>la_addr = lock_mask a, la_context = c\<rparr> # lockedAddrList m"])
       (auto simp: trackLoadLocked_def lock_inv_def reservations_def)
next
  case (Some ls)
  then show ?thesis
    using track_loop_Some [OF Some] assms
    by (intro exI [of _ ls]) (auto simp: trackLoadLocked_def lock_inv_def reservations_def)
qed

lemma find_lock_Some: "find_lock a (Some c) ls = Some ((c, a) \<in> set (map (\<lambda>l. (la_context l, la_addr l)) ls))"
  by (induction ls) auto

text \<open>What a store does to the locks, and whether it may write.\<close>

definition drop_block :: "64 word \<Rightarrow> memory \<Rightarrow> memory" where
  "drop_block b m = m\<lparr>lockedAddrList := filter (\<lambda>l. la_addr l \<noteq> b) (lockedAddrList m),
     wakeups := wakeups m @ map la_context (filter (\<lambda>l. la_addr l = b) (lockedAddrList m))\<rparr>"

lemma drop_block_locks:
  "lock_inv m \<Longrightarrow> lock_inv (drop_block b m)" "reservations (drop_block b m) = {r \<in> reservations m. snd r \<noteq> b}"
  by (auto simp: lock_inv_def drop_block_def reservations_def distinct_map_filter)

lemma set_mem_locks [simp]: "lock_inv (set_mem x m) = lock_inv m" "reservations (set_mem x m) = reservations m" "pmem (set_mem x m) = Some x"
  by (simp_all add: lock_inv_def reservations_def set_mem_def)

lemma writeOK_plain:
  assumes "getPaddr (req p) = Some a" "\<not> isLLSC p"
  shows "writeOK p m = Some (True, p, drop_block (lock_mask a) m)"
  using assms by (cases m) (auto simp: writeOK_def checkLockedAddrList_def drop_block_def)

lemma writeOK_conditional:
  assumes "getPaddr (req p) = Some a" "contextId (req p) = Some c" "isLLSC p"
  shows "writeOK p m = (let ok = (c, lock_mask a) \<in> reservations m in
    Some (ok, p\<lparr>req := setExtraData (if ok then 1 else 0) (req p)\<rparr>, if ok then drop_block (lock_mask a) m else m))"
  using assms by (auto simp: writeOK_def checkLockedAddrList_def drop_block_def find_lock_Some reservations_def Let_def)


subsection \<open>The accesses\<close>

lemma respond_ok:
  assumes "isRequest p" "needsResponse p"
  shows "respond p = Some (p\<lparr>cmd := responseCommand (cmd p), pkt_flags := clearFlags (pkt_flags p) EXPRESS_SNOOP\<rparr>)"
  using assms by (simp add: respond_def makeResponse_def)

lemmas cmd_eval = testCmdAttrib_def responseCommand_def

lemma access_read:
  assumes "mem_pkt p a buf m pm" "cmd p = ReadReq"
  shows "\<exists>p'. access p m = Some (p', m) \<and> cmd p' = ReadResp \<and> pdata p' = Bytes (take (length buf) (drop (store_off m a) pm))"
  using assms read_store_ok [OF assms(1)] mem_pkt_in_memory [OF assms(1)]
  by (simp add: access_def mem_pkt_def pkt_at_def store_off_def respond_ok cmd_eval)

lemma access_write:
  assumes "mem_pkt p a buf m pm" "cmd p = WriteReq"
  shows "\<exists>p'. access p m = Some (p', set_mem (overwrite (store_off m a) buf pm) (drop_block (lock_mask a) m)) \<and> cmd p' = WriteResp"
proof -
  have "mem_pkt p a buf (drop_block (lock_mask a) m) pm" using assms(1) by (simp add: drop_block_def mem_pkt_locks)
  from write_store_ok [OF this] show ?thesis
    using assms writeOK_plain [of p a m] mem_pkt_in_memory [OF assms(1)]
    by (simp add: access_def mem_pkt_def pkt_at_def store_off_def respond_ok cmd_eval drop_block_def)
qed

lemma access_load_locked:
  assumes "mem_pkt p a buf m pm" "cmd p = LoadLockedReq" "contextId (req p) = Some c" "lock_inv m"
  shows "\<exists>p' m'. access p m = Some (p', m') \<and> pdata p' = Bytes (take (length buf) (drop (store_off m a) pm)) \<and> pmem m' = Some pm \<and>
    lock_inv m' \<and> reservations m' = {r \<in> reservations m. fst r \<noteq> c} \<union> {(c, lock_mask a)}"
proof -
  have "getPaddr (req p) = Some a" using assms(1) by (simp add: mem_pkt_def)
  from track_reserves [OF this assms(3,4)] obtain ls where ls: "trackLoadLocked p m = Some (m\<lparr>lockedAddrList := ls\<rparr>)"
    "lock_inv (m\<lparr>lockedAddrList := ls\<rparr>)" "reservations (m\<lparr>lockedAddrList := ls\<rparr>) = {r \<in> reservations m. fst r \<noteq> c} \<union> {(c, lock_mask a)}"
    by blast
  have "mem_pkt p a buf (m\<lparr>lockedAddrList := ls\<rparr>) pm" using assms(1) by (simp add: mem_pkt_locks)
  from read_store_ok [OF this] show ?thesis
    using assms ls mem_pkt_in_memory [OF assms(1)]
    by (simp add: access_def mem_pkt_def pkt_at_def store_off_def respond_ok cmd_eval)
qed

lemma getExtraData_set: "getExtraData (setExtraData x r) = Some x"
proof -
  have "(privateFlags r OR 0x80) AND 0x80 = 0x80" by (simp add: word_ao_absorbs)
  then show ?thesis by (simp add: getExtraData_def setExtraData_def isSet_def setFlags_def VALID_EXTRA_DATA_def)
qed

lemma access_store_conditional:
  assumes "mem_pkt p a buf m pm" "cmd p = StoreCondReq" "contextId (req p) = Some c" "lock_inv m"
  defines "ok \<equiv> (c, lock_mask a) \<in> reservations m"
  shows "\<exists>p' m'. access p m = Some (p', m') \<and> getExtraData (req p') = Some (if ok then 1 else 0) \<and>
    pmem m' = Some (if ok then overwrite (store_off m a) buf pm else pm) \<and> lock_inv m' \<and>
    reservations m' = (if ok then {r \<in> reservations m. snd r \<noteq> lock_mask a} else reservations m)"
proof -
  let ?p = "p\<lparr>req := setExtraData (if ok then 1 else 0) (req p)\<rparr>"
  have "mem_pkt ?p a buf (drop_block (lock_mask a) m) pm" using assms(1) unfolding mem_pkt_extra by (simp add: drop_block_def mem_pkt_locks)
  note store = write_store_ok [OF this]
  have ok: "writeOK p m = Some (ok, ?p, if ok then drop_block (lock_mask a) m else m)"
    using writeOK_conditional [of p a c m] assms(1-3) by (simp add: ok_def mem_pkt_def cmd_eval Let_def)
  have fetch: "\<not> isInstFetch (setExtraData x (req p))" for x
    using assms(1) by (simp add: isInstFetch_def setExtraData_def mem_pkt_def)
  show ?thesis
  proof (cases ok)
    case True
    then have "\<exists>p'. access p m = Some (p', set_mem (overwrite (store_off m a) buf pm) (drop_block (lock_mask a) m)) \<and> req p' = req ?p"
      using assms(1,2) ok store fetch mem_pkt_in_memory [OF assms(1)]
      by (simp add: access_def mem_pkt_def pkt_at_def store_off_def respond_ok cmd_eval) (simp add: drop_block_def)
    then show ?thesis
      using True assms(4) drop_block_locks(1) [of m "lock_mask a"] drop_block_locks(2) [of "lock_mask a" m] getExtraData_set by auto
  next
    case False
    then have "\<exists>p'. access p m = Some (p', m) \<and> req p' = req ?p"
      using assms(1,2) ok mem_pkt_in_memory [OF assms(1)]
      by (simp add: access_def mem_pkt_def pkt_at_def store_off_def respond_ok cmd_eval)
    then show ?thesis using False assms(1,4) getExtraData_set by (auto simp: mem_pkt_def)
  qed
qed

lemma access_row_op:
  assumes "isRowOp (req p)" "\<not> memInhibitAsserted p" "cmd p = WriteReq" "getPayload p = Some addrs" "row_access addrs m = Some m'"
  shows "\<exists>p'. access p m = Some (p', m') \<and> cmd p' = WriteResp"
  using assms by (simp add: access_def respond_ok cmd_eval)

end
