(* ===== verification/Row_Refine.thy ===== *)
theory Row_Refine
  imports Row_Ops Phys_Mem
begin

text \<open>
  The row operations seen from both sides: the memory controller times them as a sequence of
  activate commands (\<open>DRAMCtrl::doDRAMAccess\<close>), the functional memory carries them out on the bytes
  of whole rows (\<open>AbstractMemory::access\<close>). Executed on the bit lines of the substrate, the commands
  compute what the functional memory stores.
\<close>

text \<open>The word lines behind the row numbers of the controller; other rows are data.\<close>

definition row_ptr :: "32 word \<Rightarrow> ptr" where
  "row_ptr w =
     (if w = row_T0 then B_T0 else if w = row_T1 then B_T1 else if w = row_T2 then B_T2 else if w = row_T3 then B_T3
      else if w = row_DCC0 then B_DCC0 else if w = row_DCC0N then B_DCC0N else if w = row_DCC1 then B_DCC1 else if w = row_DCC1N then B_DCC1N
      else if w = row_DCC0N_T0 then B_DCC0N_T0 else if w = row_DCC1N_T1 then B_DCC1N_T1 else if w = row_T2_T3 then B_T2_T3
      else if w = row_T0_T3 then B_T0_T3 else if w = row_T0_T1_T2 then B_T0_T1_T2 else if w = row_T1_T2_T3 then B_T1_T2_T3
      else if w = row_DCC0_T1_T2 then B_DCC0_T1_T2 else if w = row_DCC1_T0_T3 then B_DCC1_T0_T3
      else if w = row_C_0 then C_0 else if w = row_C_1 then C_1 else Vec Vals (unat w))"

definition data_row :: "32 word \<Rightarrow> bool" where
  "data_row w \<longleftrightarrow> w < row_C_1"

text \<open>An activate-activate-precharge copies the first row it names to the second.\<close>

fun cmd_vop :: "row_cmd \<Rightarrow> vop" where
  "cmd_vop (AAP row1 row2) = AAPV (row_ptr row2, 0) (row_ptr row1, 0)"
| "cmd_vop (AP row) = APV (row_ptr row, 0)"

lemma row_ptr_data: "data_row w \<Longrightarrow> row_ptr w = Vec Vals (unat w)"
proof -
  assume "data_row w"
  then have ne: "w \<noteq> x" if "row_C_1 \<le> x" for x using that by (auto simp: data_row_def)
  have "row_C_1 \<le> row_T0" "row_C_1 \<le> row_T1" "row_C_1 \<le> row_T2" "row_C_1 \<le> row_T3" "row_C_1 \<le> row_DCC0" "row_C_1 \<le> row_DCC0N"
    "row_C_1 \<le> row_DCC1" "row_C_1 \<le> row_DCC1N" "row_C_1 \<le> row_DCC0N_T0" "row_C_1 \<le> row_DCC1N_T1" "row_C_1 \<le> row_T2_T3"
    "row_C_1 \<le> row_T0_T3" "row_C_1 \<le> row_T0_T1_T2" "row_C_1 \<le> row_T1_T2_T3" "row_C_1 \<le> row_DCC0_T1_T2"
    "row_C_1 \<le> row_DCC1_T0_T3" "row_C_1 \<le> row_C_0" "row_C_1 \<le> row_C_1"
    by (simp_all add: special_rows)
  from this [THEN ne] show ?thesis by (simp only: row_ptr_def if_False)
qed

lemma row_ptr_special [simp]:
  "row_ptr row_T0 = B_T0" "row_ptr row_T1 = B_T1" "row_ptr row_T2 = B_T2" "row_ptr row_DCC0 = B_DCC0" "row_ptr row_DCC0N = B_DCC0N"
  "row_ptr row_DCC0N_T0 = B_DCC0N_T0" "row_ptr row_DCC1N_T1 = B_DCC1N_T1" "row_ptr row_T2_T3 = B_T2_T3" "row_ptr row_T0_T1_T2 = B_T0_T1_T2"
  "row_ptr row_DCC0_T1_T2 = B_DCC0_T1_T2" "row_ptr row_DCC1_T0_T3 = B_DCC1_T0_T3" "row_ptr row_C_0 = C_0" "row_ptr row_C_1 = C_1"
  by (simp_all add: row_ptr_def special_rows)

text \<open>The bit a row operation computes from two bits.\<close>

fun row_bit :: "rowop \<Rightarrow> bool \<Rightarrow> bool \<Rightarrow> bool" where
  "row_bit ROWAND x y = (x \<and> y)"
| "row_bit ROWOR x y = (x \<or> y)"
| "row_bit ROWNOT x y = (\<not> x)"
| "row_bit ROWXOR x y = (x \<noteq> y)"
| "row_bit ROWAP x y = x"
| "row_bit ROWAAP x y = x"

lemma row_commands_bit:
  assumes "data_row d" "data_row s1" "data_row s2" "op \<noteq> ROWAP" "op \<noteq> ROWAAP"
  shows "lane_run (map cmd_vop (row_op_cmds op d s1 s2)) B (Data Vals r 0) =
    (if r = unat d then row_bit op (B (Data Vals (unat s1) 0)) (B (Data Vals (unat s2) 0)) else B (Data Vals r 0))"
  using assms by (cases op) (auto simp: row_ptr_data row_simps maj_def Let_def)

lemma bit_row_byte: "j < 8 \<Longrightarrow> op \<noteq> ROWAP \<Longrightarrow> op \<noteq> ROWAAP \<Longrightarrow> bit (row_byte op x y) j = row_bit op (bit x j) (bit y j)"
  by (cases op) (auto simp: bit_simps)

text \<open>Column \<open>c\<close> of the rows of a store.\<close>

definition column :: "byte8 list \<Rightarrow> nat \<Rightarrow> bitline" where
  "column pm c l = (case l of Data a r b \<Rightarrow> bit (pm ! (GEM5_ROW_SIZE * r + c div 8)) (c mod 8) | _ \<Rightarrow> False)"

lemma row_commands_refine:
  assumes "pmem m = Some pm" "pl_op addrs \<noteq> ROWAP" "pl_op addrs \<noteq> ROWAAP" "data_row d" "data_row s1" "data_row s2"
    and "store_off m (pl_dest addrs) = GEM5_ROW_SIZE * unat d" "store_off m (pl_src1 addrs) = GEM5_ROW_SIZE * unat s1"
    and "store_off m (pl_src2 addrs) = GEM5_ROW_SIZE * unat s2"
    and "GEM5_ROW_SIZE * n \<le> length pm" "unat d < n" "unat s1 < n" "unat s2 < n"
  shows "\<exists>pm'. row_access addrs m = Some (set_mem pm' m) \<and>
    (\<forall>r<n. \<forall>c<8 * GEM5_ROW_SIZE. column pm' c (Data Vals r 0) =
       lane_run (map cmd_vop (row_op_cmds (pl_op addrs) d s1 s2)) (column pm c) (Data Vals r 0))"
proof -
  have fits: "GEM5_ROW_SIZE * r + GEM5_ROW_SIZE \<le> length pm" if "r < n" for r
    using mult_le_mono2 [of "Suc r" n GEM5_ROW_SIZE] that assms(10) by simp
  then have rows: "row_of_store m (pl_dest addrs)" "row_of_store m (pl_src1 addrs)" "row_of_store m (pl_src2 addrs)"
    using assms(1,7-9,11-13) by (simp_all add: row_of_store_def)
  from row_access_ok [OF assms(1) rows(1,2) _ assms(2,3)] rows(3) obtain pm' where
    pm': "row_access addrs m = Some (set_mem pm' m)" "length pm' = length pm" and
    nth: "\<And>i. i < length pm \<Longrightarrow> pm' ! i = (if GEM5_ROW_SIZE * unat d \<le> i \<and> i < GEM5_ROW_SIZE * unat d + GEM5_ROW_SIZE
       then row_byte (pl_op addrs) (pm ! (GEM5_ROW_SIZE * unat s1 + (i - GEM5_ROW_SIZE * unat d)))
              (pm ! (GEM5_ROW_SIZE * unat s2 + (i - GEM5_ROW_SIZE * unat d)))
       else pm ! i)"
    unfolding assms(7-9) by blast
  have "column pm' c (Data Vals r 0) =
      (if r = unat d then row_bit (pl_op addrs) (column pm c (Data Vals (unat s1) 0)) (column pm c (Data Vals (unat s2) 0))
       else column pm c (Data Vals r 0))" if "r < n" "c < 8 * GEM5_ROW_SIZE" for r c
  proof -
    have c: "c div 8 < GEM5_ROW_SIZE" "c mod 8 < 8" using that(2) by auto
    then have i: "GEM5_ROW_SIZE * r + c div 8 < length pm" using fits [OF that(1)] by simp
    show ?thesis
    proof (cases "r = unat d")
      case True
      then show ?thesis using nth [OF i] c bit_row_byte [OF c(2) assms(2,3)] by (simp add: column_def)
    next
      case False
      then have "r < unat d \<or> unat d < r" by linarith
      then have "\<not> (GEM5_ROW_SIZE * unat d \<le> GEM5_ROW_SIZE * r + c div 8 \<and> GEM5_ROW_SIZE * r + c div 8 < GEM5_ROW_SIZE * unat d + GEM5_ROW_SIZE)"
        using c(1) mult_le_mono2 [of "Suc r" "unat d" GEM5_ROW_SIZE] mult_le_mono2 [of "Suc (unat d)" r GEM5_ROW_SIZE] by auto
      then show ?thesis using nth [OF i] False by (simp only: column_def loc.case if_False simp_thms)
    qed
  qed
  then show ?thesis using pm'(1) row_commands_bit [OF assms(4-6,2,3)] by (intro exI [of _ pm']) simp
qed

end
