(* ===== verification/Dram_Queue.thy ===== *)
theory Dram_Queue
  imports Phys_Mem
begin

text \<open>
  The front end of the DRAM controller (\<open>gem5/src/mem/dram_ctrl.hh\<close> and \<open>dram_ctrl.cc\<close>): the packets
  of its queues, the decoding of addresses, the read, write and response queues, and the handling of
  incoming requests and of responses. The state is a record; the memory behind the controller and
  its \<open>access\<close> are a type parameter and an argument \<open>acc\<close>. A failed assertion or a panic is
  \<open>None\<close>. An event is the tick it is scheduled for; what the port sends is recorded in order.
  Statistics are left out. \<open>sendRetryReq\<close> is always the last action of its caller, so a request
  the peer sends from inside it arrives as if it came next.
\<close>

section \<open>State\<close>

record dram_packet =
  entryTime :: nat
  readyTime :: nat
  dp_pkt :: packet
  dp_isRead :: bool
  dp_rank :: nat
  dp_bank :: nat
  dp_row :: "32 word"
  src1_row :: "32 word"
  src2_row :: "32 word"
  is_row_op :: bool
  dp_row_op :: rowop
  dp_bankId :: nat
  dp_addr :: "64 word"
  dp_size :: nat
  burstHelper :: "nat option"

record burst_helper =
  burstCount :: nat
  burstsServiced :: nat

datatype bus_state = READ | READ_TO_WRITE | WRITE | WRITE_TO_READ
datatype drain_state = Running | Draining | Drained

text \<open>Burst helpers live on a heap, a list indexed by the pointers of the packets.\<close>

record 'm ctrl =
  isTimingMode :: bool
  ranks :: "rank list"
  readQueue :: "dram_packet list"
  writeQueue :: "dram_packet list"
  respQueue :: "dram_packet list"
  isInWriteQueue :: "64 word set"
  helpers :: "burst_helper list"
  retryRdReq :: bool
  retryWrReq :: bool
  busState :: bus_state
  pendingRowOps :: int
  nextReqEvent :: "nat option"
  respondEvent :: "nat option"
  writesThisTime :: nat
  readsThisTime :: nat
  busBusyUntil :: nat
  prevArrival :: nat
  nextReqTime :: nat
  activeRank :: nat
  pendingDelete :: "packet list"
  drainState :: drain_state
  drainDone :: nat
  timingResps :: "(packet \<times> nat) list"
  retryReqs :: nat
  mem :: 'm

section \<open>Addresses\<close>

definition burstAlign :: "config \<Rightarrow> 64 word \<Rightarrow> 64 word" where
  "burstAlign cfg a = a AND NOT (of_nat (burstSize cfg) - 1)"

text \<open>Rank, bank and row of an address, before they are narrowed to the types of a packet.\<close>

definition decode_parts :: "config \<Rightarrow> nat \<Rightarrow> nat \<times> nat \<times> nat" where
  "decode_parts cfg dramPktAddr =
     (let addr = dramPktAddr div burstSize cfg in
      case addrMapping cfg of
        RoRaBaChCo \<Rightarrow>
          let addr = addr div columnsPerRowBuffer cfg;
              addr = addr div channels cfg;
              bnk = addr mod banksPerRank cfg;
              addr = addr div banksPerRank cfg;
              rnk = addr mod ranksPerChannel cfg;
              addr = addr div ranksPerChannel cfg;
              row = addr mod rowsPerBank cfg
          in (rnk, bnk, row)
      | RoRaBaCoCh \<Rightarrow>
          let addr = addr div columnsPerStripe cfg;
              addr = addr div channels cfg;
              addr = addr div (columnsPerRowBuffer cfg div columnsPerStripe cfg);
              bnk = addr mod banksPerRank cfg;
              addr = addr div banksPerRank cfg;
              rnk = addr mod ranksPerChannel cfg;
              addr = addr div ranksPerChannel cfg;
              row = addr mod rowsPerBank cfg
          in (rnk, bnk, row)
      | RoCoRaBaCh \<Rightarrow>
          let addr = addr div columnsPerStripe cfg;
              addr = addr div channels cfg;
              bnk = addr mod banksPerRank cfg;
              addr = addr div banksPerRank cfg;
              rnk = addr mod ranksPerChannel cfg;
              addr = addr div ranksPerChannel cfg;
              addr = addr div (columnsPerRowBuffer cfg div columnsPerStripe cfg);
              row = addr mod rowsPerBank cfg
          in (rnk, bnk, row))"

text \<open>
  Rank and bank are stored in a \<open>uint8_t\<close>, the bank identifier in a \<open>uint16_t\<close>. The operation of a plain
  packet is not initialised by the source and never read; the model puts some operation there.
\<close>

definition decodeAddr :: "config \<Rightarrow> nat \<Rightarrow> packet \<Rightarrow> 64 word \<Rightarrow> nat \<Rightarrow> bool \<Rightarrow> dram_packet option" where
  "decodeAddr cfg now pkt dramPktAddr sz is_read =
     (let (rnk, bnk, row) = decode_parts cfg (unat dramPktAddr);
          rnk = rnk mod 2 ^ 8;
          bnk = bnk mod 2 ^ 8
      in if rnk < ranksPerChannel cfg \<and> bnk < banksPerRank cfg \<and> row < rowsPerBank cfg \<and> row < unat NO_ROW
         then Some \<lparr>entryTime = now, readyTime = now, dp_pkt = pkt, dp_isRead = is_read, dp_rank = rnk, dp_bank = bnk,
           dp_row = of_nat row, src1_row = 0, src2_row = 0, is_row_op = False, dp_row_op = ROWAND,
           dp_bankId = (banksPerRank cfg * rnk + bnk) mod 2 ^ 16, dp_addr = dramPktAddr, dp_size = sz, burstHelper = None\<rparr>
         else None)"

section \<open>Queues\<close>

definition readQueueFull :: "config \<Rightarrow> nat \<Rightarrow> 'm ctrl \<Rightarrow> bool" where
  "readQueueFull cfg neededEntries c \<longleftrightarrow> length (readQueue c) + length (respQueue c) + neededEntries > readBufferSize cfg"

definition writeQueueFull :: "config \<Rightarrow> nat \<Rightarrow> 'm ctrl \<Rightarrow> bool" where
  "writeQueueFull cfg neededEntries c \<longleftrightarrow> length (writeQueue c) + neededEntries > writeBufferSize cfg"

definition accessAndRespond ::
    "(packet \<Rightarrow> 'm \<Rightarrow> (packet \<times> 'm) option) \<Rightarrow> nat \<Rightarrow> packet \<Rightarrow> nat \<Rightarrow> 'm ctrl \<Rightarrow> 'm ctrl option" where
  "accessAndRespond acc now pkt static_latency c = do {
     (pkt', m) \<leftarrow> acc pkt (mem c);
     let c = c\<lparr>mem := m\<rparr>;
     if needsResponse pkt then
       (if isResponse pkt'
        then Some (c\<lparr>timingResps := timingResps c @
          [(pkt'\<lparr>headerDelay := 0, payloadDelay := 0\<rparr>, now + static_latency + headerDelay pkt' + payloadDelay pkt')]\<rparr>)
        else None)
     else Some (c\<lparr>pendingDelete := pendingDelete c @ [pkt']\<rparr>) }"

text \<open>Where the burst after the one of an address starts, and the bytes of a packet in the burst of an address.\<close>

definition next_burst :: "config \<Rightarrow> 64 word \<Rightarrow> 64 word" where
  "next_burst cfg a = (a OR (of_nat (burstSize cfg) - 1)) + 1"

definition burst_bytes :: "config \<Rightarrow> 64 word \<Rightarrow> nat \<Rightarrow> 64 word \<Rightarrow> nat" where
  "burst_bytes cfg pkt_addr pkt_size a = unat (min (next_burst cfg a) (pkt_addr + of_nat pkt_size) - a) mod 2 ^ 32"

definition schedule_next :: "nat \<Rightarrow> 'm ctrl \<Rightarrow> 'm ctrl" where
  "schedule_next tick c = (if nextReqEvent c = None then c\<lparr>nextReqEvent := Some tick\<rparr> else c)"

text \<open>The loop of \<open>addToReadQueue\<close> over the bursts left: the address, the helper and the bursts found in the write queue.\<close>

primrec read_bursts :: "config \<Rightarrow> nat \<Rightarrow> packet \<Rightarrow> 64 word \<Rightarrow> nat \<Rightarrow> nat \<Rightarrow> nat \<Rightarrow> 64 word \<Rightarrow> nat option \<Rightarrow> nat \<Rightarrow>
    'm ctrl \<Rightarrow> ('m ctrl \<times> nat option \<times> nat) option" where
  "read_bursts cfg now pkt pa psz pktCount 0 addr helper serviced c = Some (c, helper, serviced)"
| "read_bursts cfg now pkt pa psz pktCount (Suc n) addr helper serviced c =
     (let sz = burst_bytes cfg pa psz addr;
          foundInWrQ = burstAlign cfg addr \<in> isInWriteQueue c \<and>
            (\<exists>p\<in>set (writeQueue c). dp_addr p \<le> addr \<and> addr + of_nat sz \<le> dp_addr p + of_nat (dp_size p))
      in if foundInWrQ then read_bursts cfg now pkt pa psz pktCount n (next_burst cfg addr) helper (serviced + 1) c
         else
           let (helper, c) = (if pktCount > 1 \<and> helper = None
                 then (Some (length (helpers c)), c\<lparr>helpers := helpers c @ [\<lparr>burstCount = pktCount, burstsServiced = 0\<rparr>]\<rparr>)
                 else (helper, c))
           in (case decodeAddr cfg now pkt addr sz True of
               None \<Rightarrow> None
             | Some dram_pkt \<Rightarrow>
                 if readQueueFull cfg 1 c then None
                 else read_bursts cfg now pkt pa psz pktCount n (next_burst cfg addr) helper serviced
                   (c\<lparr>readQueue := readQueue c @ [dram_pkt\<lparr>burstHelper := helper\<rparr>]\<rparr>)))"

definition addToReadQueue ::
    "(packet \<Rightarrow> 'm \<Rightarrow> (packet \<times> 'm) option) \<Rightarrow> config \<Rightarrow> nat \<Rightarrow> packet \<Rightarrow> nat \<Rightarrow> 'm ctrl \<Rightarrow> 'm ctrl option" where
  "addToReadQueue acc cfg now pkt pktCount c =
     (if isWrite pkt \<or> pktCount = 0 then None
      else do {
        pa \<leftarrow> getAddr pkt;
        psz \<leftarrow> getSize pkt;
        (c, helper, serviced) \<leftarrow> read_bursts cfg now pkt pa psz pktCount pktCount pa None 0 c;
        if serviced = pktCount then accessAndRespond acc now pkt (frontendLatency cfg) c
        else
          let c = (case helper of None \<Rightarrow> c
              | Some h \<Rightarrow> c\<lparr>helpers := (helpers c)[h := (helpers c ! h)\<lparr>burstsServiced := serviced\<rparr>]\<rparr>)
          in Some (schedule_next now c) })"

text \<open>A row operation is one entry of the write queue, with the rows of its operands.\<close>

definition enqueue_row_op :: "config \<Rightarrow> nat \<Rightarrow> packet \<Rightarrow> 'm ctrl \<Rightarrow> 'm ctrl option" where
  "enqueue_row_op cfg now pkt c = do {
     addrs \<leftarrow> getPayload pkt;
     dram_pkt \<leftarrow> decodeAddr cfg now pkt (pl_dest addrs) 0 False;
     dram_pkt1 \<leftarrow> decodeAddr cfg now pkt (pl_src1 addrs) 0 False;
     dram_pkt2 \<leftarrow> decodeAddr cfg now pkt (pl_src2 addrs) 0 False;
     if (pl_op addrs \<noteq> ROWAP \<longrightarrow> dp_rank dram_pkt = dp_rank dram_pkt1 \<and> dp_bank dram_pkt = dp_bank dram_pkt1) \<and>
        (pl_op addrs \<noteq> ROWNOT \<and> pl_op addrs \<noteq> ROWAAP \<and> pl_op addrs \<noteq> ROWAP \<longrightarrow>
           dp_rank dram_pkt = dp_rank dram_pkt2 \<and> dp_bank dram_pkt = dp_bank dram_pkt2)
     then Some (c\<lparr>writeQueue := writeQueue c @ [dram_pkt\<lparr>is_row_op := True, dp_row_op := pl_op addrs,
         src1_row := dp_row dram_pkt1, src2_row := dp_row dram_pkt2\<rparr>],
       pendingRowOps := pendingRowOps c + 1\<rparr>)
     else None }"

primrec write_bursts :: "config \<Rightarrow> nat \<Rightarrow> packet \<Rightarrow> 64 word \<Rightarrow> nat \<Rightarrow> nat \<Rightarrow> 64 word \<Rightarrow> 'm ctrl \<Rightarrow> 'm ctrl option" where
  "write_bursts cfg now pkt pa psz 0 addr c = Some c"
| "write_bursts cfg now pkt pa psz (Suc n) addr c =
     (if burstAlign cfg addr \<in> isInWriteQueue c then write_bursts cfg now pkt pa psz n (next_burst cfg addr) c
      else (case decodeAddr cfg now pkt addr (burst_bytes cfg pa psz addr) False of
          None \<Rightarrow> None
        | Some dram_pkt \<Rightarrow>
            if length (writeQueue c) < writeBufferSize cfg
            then write_bursts cfg now pkt pa psz n (next_burst cfg addr)
              (c\<lparr>writeQueue := writeQueue c @ [dram_pkt], isInWriteQueue := insert (burstAlign cfg addr) (isInWriteQueue c)\<rparr>)
            else None))"

definition addToWriteQueue ::
    "(packet \<Rightarrow> 'm \<Rightarrow> (packet \<times> 'm) option) \<Rightarrow> config \<Rightarrow> nat \<Rightarrow> packet \<Rightarrow> nat \<Rightarrow> 'm ctrl \<Rightarrow> 'm ctrl option" where
  "addToWriteQueue acc cfg now pkt pktCount c =
     (if \<not> isWrite pkt then None
      else do {
        c \<leftarrow> (if isRowOp (req pkt) then enqueue_row_op cfg now pkt c
              else do {
                pa \<leftarrow> getAddr pkt;
                psz \<leftarrow> getSize pkt;
                write_bursts cfg now pkt pa psz pktCount pa c });
        c \<leftarrow> accessAndRespond acc now pkt (frontendLatency cfg) c;
        Some (schedule_next now c) })"

section \<open>Requests and responses\<close>

definition dram_pkt_count :: "config \<Rightarrow> 64 word \<Rightarrow> nat \<Rightarrow> nat" where
  "dram_pkt_count cfg a sz =
     (let offset = unat (a AND (of_nat (burstSize cfg) - 1)) in (offset + sz + burstSize cfg - 1) div burstSize cfg)"

definition recvTimingReq ::
    "(packet \<Rightarrow> 'm \<Rightarrow> (packet \<times> 'm) option) \<Rightarrow> config \<Rightarrow> nat \<Rightarrow> packet \<Rightarrow> 'm ctrl \<Rightarrow> (bool \<times> 'm ctrl) option" where
  "recvTimingReq acc cfg now pkt c =
     (let c = c\<lparr>pendingDelete := []\<rparr> in
      if memInhibitAsserted pkt \<or> cmd pkt = CleanEvict then Some (True, c\<lparr>pendingDelete := [pkt]\<rparr>)
      else do {
        let c = c\<lparr>prevArrival := now\<rparr>;
        sz \<leftarrow> getSize pkt;
        a \<leftarrow> getAddr pkt;
        let count = dram_pkt_count cfg a sz;
        if isRead pkt then
          (if sz = 0 then None
           else if readQueueFull cfg count c then Some (False, c\<lparr>retryRdReq := True\<rparr>)
           else map_option (Pair True) (addToReadQueue acc cfg now pkt count c))
        else if isWrite pkt then
          (if sz = 0 then None
           else if writeQueueFull cfg count c then Some (False, c\<lparr>retryWrReq := True\<rparr>)
           else map_option (Pair True) (addToWriteQueue acc cfg now pkt count c))
        else map_option (Pair True) (accessAndRespond acc now pkt 1 c) })"

text \<open>A packet of several bursts is answered with its last burst.\<close>

definition respond_front ::
    "(packet \<Rightarrow> 'm \<Rightarrow> (packet \<times> 'm) option) \<Rightarrow> config \<Rightarrow> nat \<Rightarrow> dram_packet \<Rightarrow> 'm ctrl \<Rightarrow> 'm ctrl option" where
  "respond_front acc cfg now dram_pkt c = (case burstHelper dram_pkt of
       None \<Rightarrow> accessAndRespond acc now (dp_pkt dram_pkt) (frontendLatency cfg + backendLatency cfg) c
     | Some h \<Rightarrow>
         let b = (helpers c ! h)\<lparr>burstsServiced := burstsServiced (helpers c ! h) + 1\<rparr>;
             c = c\<lparr>helpers := (helpers c)[h := b]\<rparr>
         in if burstsServiced b = burstCount b
            then accessAndRespond acc now (dp_pkt dram_pkt) (frontendLatency cfg + backendLatency cfg) c
            else Some c)"

definition signal_drained :: "'m ctrl \<Rightarrow> 'm ctrl" where
  "signal_drained c = c\<lparr>drainDone := drainDone c + 1, drainState := Drained\<rparr>"

definition processRespondEvent ::
    "(packet \<Rightarrow> 'm \<Rightarrow> (packet \<times> 'm) option) \<Rightarrow> config \<Rightarrow> nat \<Rightarrow> 'm ctrl \<Rightarrow> 'm ctrl option" where
  "processRespondEvent acc cfg now c =
     (case respQueue c of
        [] \<Rightarrow> None
      | dram_pkt # rest \<Rightarrow> do {
          c \<leftarrow> respond_front acc cfg now dram_pkt (c\<lparr>respondEvent := None\<rparr>);
          let c = c\<lparr>respQueue := rest\<rparr>;
          c \<leftarrow> (case rest of
              p # ps \<Rightarrow> if now \<le> readyTime p then Some (c\<lparr>respondEvent := Some (readyTime p)\<rparr>) else None
            | [] \<Rightarrow> Some (if drainState c = Draining \<and> writeQueue c = [] \<and> readQueue c = [] then signal_drained c else c));
          Some (if retryRdReq c then c\<lparr>retryRdReq := False, retryReqs := retryReqs c + 1\<rparr> else c) })"

end
