(* ===== verification/Dram_Refresh.thy ===== *)
theory Dram_Refresh
  imports Dram_Queue
begin

text \<open>
  The refresh and power state machines of a rank (\<open>DRAMCtrl::Rank\<close> in \<open>gem5/src/mem/dram_ctrl.cc\<close>)
  and the events that drive them. The event queue asserts that an event is not scheduled twice and
  not in the past. The energy accounting of the DRAMPower library is left out.
\<close>

section \<open>Definitions\<close>

definition schedule_event :: "nat \<Rightarrow> nat \<Rightarrow> nat option \<Rightarrow> nat option option" where
  "schedule_event now tick ev = (if ev = None \<and> now \<le> tick then Some (Some tick) else None)"

definition rank_startup :: "nat \<Rightarrow> nat \<Rightarrow> rank \<Rightarrow> rank option" where
  "rank_startup now ref_tick r =
     (if now < ref_tick then do {
        ev \<leftarrow> schedule_event now ref_tick (refreshEvent r);
        Some (r\<lparr>pwrStateTick := now, refreshEvent := ev\<rparr>) }
      else None)"

definition rank_suspend :: "rank \<Rightarrow> rank option" where
  "rank_suspend r = (if refreshEvent r = None then None else Some (r\<lparr>refreshEvent := None\<rparr>))"

definition checkDrainDone :: "nat \<Rightarrow> rank \<Rightarrow> rank option" where
  "checkDrainDone now r =
     (if refreshState r = REF_DRAIN then do {
        ev \<leftarrow> schedule_event now now (refreshEvent r);
        Some (r\<lparr>refreshState := REF_PRE, refreshEvent := ev\<rparr>) }
      else Some r)"

definition schedulePowerEvent :: "nat \<Rightarrow> power_state \<Rightarrow> nat \<Rightarrow> rank \<Rightarrow> rank option" where
  "schedulePowerEvent now pwr_state tick r =
     (if now \<le> tick \<and> powerEvent r = None then Some (r\<lparr>pwrStateTrans := pwr_state, powerEvent := Some tick\<rparr>) else None)"

definition processActivateEvent :: "nat \<Rightarrow> rank \<Rightarrow> rank option" where
  "processActivateEvent now r =
     (let r = r\<lparr>activateEvent := None\<rparr> in if pwrState r \<noteq> PWR_ACT then schedulePowerEvent now PWR_ACT now r else Some r)"

definition processPrechargeEvent :: "nat \<Rightarrow> rank \<Rightarrow> rank option" where
  "processPrechargeEvent now r =
     (let r = r\<lparr>prechargeEvent := None\<rparr> in if numBanksActive r = 0 then schedulePowerEvent now PWR_IDLE now r else Some r)"

text \<open>The tick of the precharge of all banks, and the precharge of the banks from number \<open>b\<close> on.\<close>

definition precharge_tick :: "nat \<Rightarrow> rank \<Rightarrow> nat" where
  "precharge_tick now r = fold (\<lambda>b pre_at. max (preAllowedAt b) pre_at) (banks r) now"

primrec precharge_banks :: "config \<Rightarrow> nat \<Rightarrow> nat \<Rightarrow> nat \<Rightarrow> rank \<Rightarrow> rank option" where
  "precharge_banks cfg pre_at 0 b r = Some r"
| "precharge_banks cfg pre_at (Suc n) b r = do {
     r \<leftarrow> (if openRow (banks r ! b) \<noteq> NO_ROW then prechargeBank cfg b pre_at r
           else Some (r\<lparr>banks := (banks r)[b := (banks r ! b)\<lparr>actAllowedAt := max (actAllowedAt (banks r ! b)) (pre_at + tRP cfg),
             preAllowedAt := max (preAllowedAt (banks r ! b)) pre_at\<rparr>]\<rparr>));
     precharge_banks cfg pre_at n (b + 1) r }"

definition refresh_precharge :: "config \<Rightarrow> nat \<Rightarrow> rank \<Rightarrow> rank option" where
  "refresh_precharge cfg now r = do {
     r \<leftarrow> (if pwrState r \<noteq> PWR_IDLE then precharge_banks cfg (precharge_tick now r) (length (banks r)) 0 r
           else schedulePowerEvent now PWR_REF now r);
     if numBanksActive r = 0 then Some (r\<lparr>refreshState := REF_RUN\<rparr>) else None }"

definition refresh_run :: "config \<Rightarrow> nat \<Rightarrow> rank \<Rightarrow> rank option" where
  "refresh_run cfg now r =
     (if numBanksActive r = 0 \<and> pwrState r = PWR_REF \<and> \<not> refreshDueAt r + tREFI cfg < now + tRFC cfg then do {
        let ref_done_at = now + tRFC cfg;
        let r = r\<lparr>banks := map (\<lambda>b. b\<lparr>actAllowedAt := ref_done_at\<rparr>) (banks r)\<rparr>;
        ev \<leftarrow> schedule_event now (refreshDueAt r + tREFI cfg - tRP cfg) (refreshEvent r);
        schedulePowerEvent now PWR_IDLE ref_done_at (r\<lparr>refreshEvent := ev\<rparr>) }
      else None)"

definition processRefreshEvent :: "config \<Rightarrow> nat \<Rightarrow> nat \<Rightarrow> bool \<Rightarrow> rank \<Rightarrow> rank option" where
  "processRefreshEvent cfg now active_rank next_scheduled r =
     (let r = (if refreshState r = REF_IDLE then r\<lparr>refreshDueAt := now, refreshState := REF_DRAIN\<rparr> else r) in
      if refreshState r = REF_DRAIN \<and> rankNo r = active_rank \<and> next_scheduled then Some r
      else
        let r = (if refreshState r = REF_DRAIN then r\<lparr>refreshState := REF_PRE\<rparr> else r) in
        if refreshState r = REF_PRE then refresh_precharge cfg now r else refresh_run cfg now r)"

text \<open>The power event also says whether the request loop is to be kicked.\<close>

definition processPowerEvent :: "config \<Rightarrow> nat \<Rightarrow> nat \<Rightarrow> bool \<Rightarrow> rank \<Rightarrow> (rank \<times> bool) option" where
  "processPowerEvent cfg now active_rank next_scheduled r =
     (let prev_state = pwrState r;
          r = r\<lparr>powerEvent := None, pwrState := pwrStateTrans r, pwrStateTick := now\<rparr>
      in if pwrState r = PWR_IDLE \<and> prev_state = PWR_REF then Some (r\<lparr>refreshState := REF_IDLE\<rparr>, True)
         else if pwrState r = PWR_IDLE \<and> prev_state \<noteq> PWR_ACT then None
         else
           let r = (if pwrState r = PWR_IDLE \<and> refreshState r = REF_RUN then r\<lparr>pwrState := PWR_REF\<rparr> else r)
           in if pwrState r = PWR_REF then
                (if refreshState r = REF_RUN
                 then map_option (\<lambda>r. (r, False)) (processRefreshEvent cfg now active_rank next_scheduled r)
                 else None)
              else Some (r, False))"

section \<open>The events of the controller\<close>

definition update_rank :: "nat \<Rightarrow> rank \<Rightarrow> 'm ctrl \<Rightarrow> 'm ctrl" where
  "update_rank i r c = c\<lparr>ranks := (ranks c)[i := r]\<rparr>"

definition refresh_event :: "config \<Rightarrow> nat \<Rightarrow> nat \<Rightarrow> 'm ctrl \<Rightarrow> 'm ctrl option" where
  "refresh_event cfg now i c = do {
     r \<leftarrow> processRefreshEvent cfg now (activeRank c) (nextReqEvent c \<noteq> None) ((ranks c ! i)\<lparr>refreshEvent := None\<rparr>);
     Some (update_rank i r c) }"

definition power_event :: "config \<Rightarrow> nat \<Rightarrow> nat \<Rightarrow> 'm ctrl \<Rightarrow> 'm ctrl option" where
  "power_event cfg now i c = do {
     (r, kick) \<leftarrow> processPowerEvent cfg now (activeRank c) (nextReqEvent c \<noteq> None) (ranks c ! i);
     Some (if kick then schedule_next now (update_rank i r c) else update_rank i r c) }"

definition activate_event :: "nat \<Rightarrow> nat \<Rightarrow> 'm ctrl \<Rightarrow> 'm ctrl option" where
  "activate_event now i c = do { r \<leftarrow> processActivateEvent now (ranks c ! i); Some (update_rank i r c) }"

definition precharge_event :: "nat \<Rightarrow> nat \<Rightarrow> 'm ctrl \<Rightarrow> 'm ctrl option" where
  "precharge_event now i c = do { r \<leftarrow> processPrechargeEvent now (ranks c ! i); Some (update_rank i r c) }"

section \<open>Closing all banks\<close>

definition precharge_after :: "nat \<Rightarrow> rank \<Rightarrow> bool" where
  "precharge_after t r \<longleftrightarrow> (\<exists>w. prechargeEvent r = Some w \<and> t \<le> w)"

lemma precharge_banks_ok:
  assumes "rank_inv cfg r" "n + b = banksPerRank cfg" "\<forall>i<b. openRow (banks r ! i) = NO_ROW"
  shows "\<exists>r'. precharge_banks cfg pre_at n b r = Some r' \<and> rank_inv cfg r' \<and> (\<forall>i<banksPerRank cfg. openRow (banks r' ! i) = NO_ROW) \<and>
    refreshState r' = refreshState r \<and> refreshDueAt r' = refreshDueAt r \<and> pwrState r' = pwrState r \<and> powerEvent r' = powerEvent r \<and>
    refreshEvent r' = refreshEvent r \<and> activateEvent r' = activateEvent r \<and> rankNo r' = rankNo r \<and>
    ((\<exists>i<banksPerRank cfg. openRow (banks r ! i) \<noteq> NO_ROW) \<or> precharge_after (pre_at + tRP cfg) r \<longrightarrow> precharge_after (pre_at + tRP cfg) r')"
  using assms
proof (induction n arbitrary: b r)
  case (Suc n)
  then have b: "b < banksPerRank cfg" "b < length (banks r)" by (simp_all add: rank_inv_def)
  show ?case
  proof (cases "openRow (banks r ! b) = NO_ROW")
    case True
    define r1 where "r1 = r\<lparr>banks := (banks r)[b := (banks r ! b)\<lparr>actAllowedAt := max (actAllowedAt (banks r ! b)) (pre_at + tRP cfg),
      preAllowedAt := max (preAllowedAt (banks r ! b)) pre_at\<rparr>]\<rparr>"
    have "window_inv cfg (actTicks r) (banks r1)"
      by (rule window_later [of cfg _ "banks r"]) (use Suc.prems(1) b in \<open>auto simp: rank_inv_def r1_def nth_list_update\<close>)
    moreover have "open_count (banks r1) = open_count (banks r)"
      using open_count_update [OF b(2)] True by (simp add: r1_def)
    ultimately have "rank_inv cfg r1" using Suc.prems(1) by (simp add: rank_inv_def r1_def)
    moreover have "\<forall>i<b + 1. openRow (banks r1 ! i) = NO_ROW"
      using Suc.prems(3) True b(2) by (auto simp: r1_def nth_list_update less_Suc_eq)
    moreover have "openRow (banks r1 ! i) = openRow (banks r ! i)" for i
      using b(2) by (cases "i = b") (simp_all add: r1_def)
    ultimately show ?thesis using Suc.IH [of r1 "b + 1"] Suc.prems(2) True by (simp add: r1_def precharge_after_def)
  next
    case False
    from prechargeBank_ok [OF Suc.prems(1) b(1) False, of pre_at] obtain r1 where r1: "prechargeBank cfg b pre_at r = Some r1"
      "rank_inv cfg r1" "openRow (banks r1 ! b) = NO_ROW" "\<forall>i. i \<noteq> b \<longrightarrow> banks r1 ! i = banks r ! i" "refreshState r1 = refreshState r" by blast
    have same: "refreshDueAt r1 = refreshDueAt r \<and> pwrState r1 = pwrState r \<and> powerEvent r1 = powerEvent r \<and>
      refreshEvent r1 = refreshEvent r \<and> activateEvent r1 = activateEvent r \<and> rankNo r1 = rankNo r"
      using r1(1) by (auto simp: prechargeBank_def Let_def split: if_splits)
    have "\<forall>i<b + 1. openRow (banks r1 ! i) = NO_ROW" using Suc.prems(3) r1(3,4) by (auto simp: less_Suc_eq)
    moreover have "precharge_after (pre_at + tRP cfg) r1"
      using r1(1) by (auto simp: prechargeBank_def Let_def precharge_after_def split: if_splits option.splits)
    ultimately show ?thesis using Suc.IH [of r1 "b + 1"] Suc.prems(2) False r1(1,2,5) same by auto
  qed
qed auto

section \<open>A refresh completes\<close>

text \<open>
  The events of one refresh: the refresh event at \<open>now\<close>, the precharge event at \<open>t\<close> when banks had to
  be closed, the power event that starts the refresh at \<open>t\<close> and the one that ends it. No request loop
  is waiting for the rank.
\<close>

definition refresh_cycle :: "config \<Rightarrow> nat \<Rightarrow> nat \<Rightarrow> nat \<Rightarrow> rank \<Rightarrow> (rank \<times> bool) option" where
  "refresh_cycle cfg now t ar r = do {
     r \<leftarrow> processRefreshEvent cfg now ar False (r\<lparr>refreshEvent := None\<rparr>);
     r \<leftarrow> (if pwrState r = PWR_IDLE then Some r else processPrechargeEvent t r);
     (r, k) \<leftarrow> processPowerEvent cfg t ar False r;
     processPowerEvent cfg (t + tRFC cfg) ar False r }"

definition refreshed :: "config \<Rightarrow> nat \<Rightarrow> nat \<Rightarrow> rank \<Rightarrow> bool" where
  "refreshed cfg due t r \<longleftrightarrow> isAvailable r \<and> pwrState r = PWR_IDLE \<and> powerEvent r = None \<and> numBanksActive r = 0 \<and>
     refreshEvent r = Some (due + tREFI cfg - tRP cfg) \<and>
     list_all (\<lambda>b. openRow b = NO_ROW \<and> actAllowedAt b = t + tRFC cfg) (banks r)"

text \<open>The last two events, once all banks are closed and the power state machine has been told.\<close>

lemma refresh_finishes:
  assumes "numBanksActive r = 0" "list_all (\<lambda>b. openRow b = NO_ROW) (banks r)" "refreshState r = REF_RUN" "refreshEvent r = None"
    and "powerEvent r = Some t" "pwrStateTrans r = PWR_REF \<or> pwrStateTrans r = PWR_IDLE \<and> pwrState r = PWR_ACT"
    and "t + tRFC cfg \<le> refreshDueAt r + tREFI cfg" "tRP cfg \<le> tRFC cfg"
  shows "\<exists>r1 r2. processPowerEvent cfg t ar False r = Some (r1, False) \<and> \<not> isAvailable r1 \<and>
    processPowerEvent cfg (t + tRFC cfg) ar False r1 = Some (r2, True) \<and> refreshed cfg (refreshDueAt r) t r2"
proof -
  define r0 where "r0 = r\<lparr>powerEvent := None, pwrState := PWR_REF, pwrStateTick := t\<rparr>"
  have "processPowerEvent cfg t ar False r = map_option (\<lambda>r. (r, False)) (processRefreshEvent cfg t ar False r0)"
    using assms(3,6) by (cases r) (auto simp: processPowerEvent_def Let_def r0_def)
  also have "processRefreshEvent cfg t ar False r0 = refresh_run cfg t r0"
    using assms(3) by (simp add: processRefreshEvent_def r0_def)
  also have "refresh_run cfg t r0 = Some (r0\<lparr>banks := map (\<lambda>b. b\<lparr>actAllowedAt := t + tRFC cfg\<rparr>) (banks r),
      refreshEvent := Some (refreshDueAt r + tREFI cfg - tRP cfg), pwrStateTrans := PWR_IDLE, powerEvent := Some (t + tRFC cfg)\<rparr>)"
    using assms by (simp add: refresh_run_def r0_def schedule_event_def schedulePowerEvent_def not_less Let_def)
  finally show ?thesis
    using assms by (auto simp: processPowerEvent_def Let_def r0_def isAvailable_def refreshed_def list_all_iff)
qed

lemma closed_count: "open_count bs = 0 \<longleftrightarrow> list_all (\<lambda>b. openRow b = NO_ROW) bs"
  by (auto simp: open_count_def list_all_iff filter_empty_conv)

lemma refresh_idle_rank:
  assumes "rank_inv cfg r" "isAvailable r" "pwrState r = PWR_IDLE" "powerEvent r = None" "numBanksActive r = 0"
    and "tRFC cfg \<le> tREFI cfg" "tRP cfg \<le> tRFC cfg"
  shows "\<exists>r'. refresh_cycle cfg now now ar r = Some (r', True) \<and> refreshed cfg now now r'"
proof -
  define r1 where "r1 = r\<lparr>refreshEvent := None, refreshDueAt := now, refreshState := REF_RUN, pwrStateTrans := PWR_REF, powerEvent := Some now\<rparr>"
  have "processRefreshEvent cfg now ar False (r\<lparr>refreshEvent := None\<rparr>) = Some r1"
    using assms(2-5)
    by (simp add: processRefreshEvent_def isAvailable_def refresh_precharge_def schedulePowerEvent_def r1_def)
  moreover have "list_all (\<lambda>b. openRow b = NO_ROW) (banks r1)"
    using assms(1,5) closed_count [of "banks r"] by (simp add: rank_inv_def r1_def)
  ultimately show ?thesis
    using refresh_finishes [of r1 now cfg ar] assms(3,5-7) by (auto simp: refresh_cycle_def r1_def)
qed

lemma refresh_active_rank:
  assumes "rank_inv cfg r" "isAvailable r" "pwrState r = PWR_ACT" "powerEvent r = None" "numBanksActive r \<noteq> 0" "tRP cfg \<le> tRFC cfg"
  shows "\<exists>r1 t. processRefreshEvent cfg now ar False (r\<lparr>refreshEvent := None\<rparr>) = Some r1 \<and> \<not> isAvailable r1 \<and>
    prechargeEvent r1 = Some t \<and> now + tRP cfg \<le> t \<and>
    (t + tRFC cfg \<le> now + tREFI cfg \<longrightarrow> (\<exists>r'. refresh_cycle cfg now t ar r = Some (r', True) \<and> refreshed cfg now t r'))"
proof -
  define r0 where "r0 = r\<lparr>refreshEvent := None, refreshDueAt := now, refreshState := REF_PRE\<rparr>"
  define pre_at where "pre_at = precharge_tick now r0"
  have fold_max: "now \<le> fold (\<lambda>b t. max (preAllowedAt b) t) bs now" for bs :: "bank list"
  proof (induction bs rule: rev_induct)
    case (snoc b bs)
    then show ?case by (simp add: le_max_iff_disj)
  qed simp
  have "length (banks r0) = banksPerRank cfg" using assms(1) by (simp add: rank_inv_def r0_def)
  moreover have "rank_inv cfg r0" using assms(1) by (simp add: rank_inv_def r0_def)
  ultimately obtain r2 where r2: "precharge_banks cfg pre_at (length (banks r0)) 0 r0 = Some r2" "rank_inv cfg r2"
      "\<forall>i<banksPerRank cfg. openRow (banks r2 ! i) = NO_ROW" "refreshState r2 = refreshState r0" "refreshDueAt r2 = refreshDueAt r0"
      "pwrState r2 = pwrState r0" "powerEvent r2 = powerEvent r0" "refreshEvent r2 = refreshEvent r0"
      "(\<exists>i<banksPerRank cfg. openRow (banks r0 ! i) \<noteq> NO_ROW) \<longrightarrow> precharge_after (pre_at + tRP cfg) r2"
    using precharge_banks_ok [of cfg r0 "banksPerRank cfg" 0 pre_at] by auto
  have "\<exists>i<banksPerRank cfg. openRow (banks r0 ! i) \<noteq> NO_ROW"
    using assms(1,5) closed_count [of "banks r"] by (auto simp: rank_inv_def r0_def list_all_length)
  then obtain t where t: "prechargeEvent r2 = Some t" "now + tRP cfg \<le> t"
    using r2(9) fold_max [of "banks r0"] by (fastforce simp: precharge_after_def pre_at_def precharge_tick_def)
  have closed: "list_all (\<lambda>b. openRow b = NO_ROW) (banks r2)" using r2(2,3) by (simp add: list_all_length rank_inv_def)
  then have none: "numBanksActive r2 = 0" using r2(2) closed_count [of "banks r2"] by (simp add: rank_inv_def)
  define r1 where "r1 = r2\<lparr>refreshState := REF_RUN\<rparr>"
  have p: "processRefreshEvent cfg now ar False (r\<lparr>refreshEvent := None\<rparr>) = Some r1"
    using assms(2,3) r2(1) none
    by (simp add: processRefreshEvent_def isAvailable_def refresh_precharge_def r1_def r0_def [symmetric] pre_at_def [symmetric])
       (simp add: r0_def)
  define r3 where "r3 = r1\<lparr>prechargeEvent := None, pwrStateTrans := PWR_IDLE, powerEvent := Some t\<rparr>"
  have pre: "processPrechargeEvent t r1 = Some r3"
    using none r2(7) assms(4) by (simp add: processPrechargeEvent_def schedulePowerEvent_def r1_def r3_def r0_def)
  have "\<exists>r'. refresh_cycle cfg now t ar r = Some (r', True) \<and> refreshed cfg now t r'" if "t + tRFC cfg \<le> now + tREFI cfg"
  proof -
    have "pwrState r1 = PWR_ACT" using r2(6) assms(3) by (simp add: r1_def r0_def)
    moreover have "\<exists>ra rb. processPowerEvent cfg t ar False r3 = Some (ra, False) \<and> \<not> isAvailable ra \<and>
        processPowerEvent cfg (t + tRFC cfg) ar False ra = Some (rb, True) \<and> refreshed cfg (refreshDueAt r3) t rb"
      by (rule refresh_finishes) (use none closed r2(5,6,8) assms(3,6) that in \<open>auto simp: r3_def r1_def r0_def\<close>)
    moreover have "refreshDueAt r3 = now" using r2(5) by (simp add: r3_def r1_def r0_def)
    ultimately show ?thesis using p pre by (auto simp: refresh_cycle_def)
  qed
  then show ?thesis using p t by (auto simp: r1_def isAvailable_def)
qed

section \<open>A refresh ahead of an activation\<close>

text \<open>
  A rank that is idle may have an activation ahead of it, issued for a later tick together with its precharge, so that
  no bank counts as active. A refresh that comes in between starts at once, and the activation then panics.
\<close>

lemma apBank_frame:
  assumes "apBank cfg b t row r = Some r'"
  shows "refreshState r' = refreshState r" "pwrState r' = pwrState r" "powerEvent r' = powerEvent r" "numBanksActive r' = numBanksActive r"
    "activateEvent r = None \<Longrightarrow> activateEvent r' = Some t"
  using assms by (auto simp: apBank_def activateBank_def prechargeBank_def schedule_activate_def bind_eq_Some_conv Let_def split: if_splits)

lemma refresh_meets_activation:
  assumes "rank_inv cfg r" "isAvailable r" "pwrState r = PWR_IDLE" "powerEvent r = None" "numBanksActive r = 0"
    and "tRFC cfg \<le> tREFI cfg" "tRP cfg \<le> tRFC cfg" "b < banksPerRank cfg" "actAllowedAt (banks r ! b) \<le> t" "row \<noteq> NO_ROW" "activateEvent r = None"
  shows "\<exists>r0 r1 r2. apBank cfg b t row r = Some r0 \<and> processRefreshEvent cfg now ar False (r0\<lparr>refreshEvent := None\<rparr>) = Some r1 \<and>
    processPowerEvent cfg now ar False r1 = Some (r2, False) \<and> powerEvent r2 = Some (now + tRFC cfg) \<and> activateEvent r2 = Some t \<and>
    processActivateEvent t r2 = None"
proof -
  have "openRow (banks r ! b) = NO_ROW"
    using assms(1,5,8) closed_count [of "banks r"] by (simp add: rank_inv_def list_all_length)
  from apBank_ok [OF assms(1,8) this assms(9,10)] obtain r0 where r0: "apBank cfg b t row r = Some r0" by auto
  note f = apBank_frame [OF r0]
  define r1 where "r1 = r0\<lparr>refreshEvent := None, refreshDueAt := now, refreshState := REF_RUN, pwrStateTrans := PWR_REF, powerEvent := Some now\<rparr>"
  have p1: "processRefreshEvent cfg now ar False (r0\<lparr>refreshEvent := None\<rparr>) = Some r1"
    using assms(2-5) f by (simp add: processRefreshEvent_def isAvailable_def refresh_precharge_def schedulePowerEvent_def r1_def)
  define r2 where "r2 = r1\<lparr>powerEvent := Some (now + tRFC cfg), pwrState := PWR_REF, pwrStateTick := now,
    banks := map (\<lambda>b. b\<lparr>actAllowedAt := now + tRFC cfg\<rparr>) (banks r1), refreshEvent := Some (now + tREFI cfg - tRP cfg), pwrStateTrans := PWR_IDLE\<rparr>"
  have p2: "processPowerEvent cfg now ar False r1 = Some (r2, False)"
    using assms(5-7) f
    by (cases r0) (simp add: processPowerEvent_def processRefreshEvent_def refresh_run_def schedule_event_def schedulePowerEvent_def r1_def r2_def Let_def)
  have "processActivateEvent t r2 = None" by (simp add: processActivateEvent_def schedulePowerEvent_def r2_def)
  moreover have "powerEvent r2 = Some (now + tRFC cfg)" "activateEvent r2 = Some t" using f(5) assms(11) by (simp_all add: r2_def r1_def)
  ultimately show ?thesis using r0 p1 p2 by blast
qed

end
