(* ===== verification/Dram_Sched.thy ===== *)
theory Dram_Sched
  imports Dram_Refresh "HOL-Library.Multiset"
begin

text \<open>
  The back end of the DRAM controller (\<open>gem5/src/mem/dram_ctrl.cc\<close>): the arbitration of a queue, the
  access to a bank, the loop that handles the next request, and starting, draining and resuming the
  controller. Shifts past the width of the bank mask are undefined behaviour and give \<open>None\<close>, like
  a failed assertion.
\<close>

section \<open>Arbitration\<close>

definition MaxTick :: nat where "MaxTick = 2 ^ 64 - 1"

text \<open>Which banks have a packet waiting that goes to an available rank.\<close>

definition got_waiting :: "config \<Rightarrow> rank list \<Rightarrow> dram_packet list \<Rightarrow> bool list option" where
  "got_waiting cfg rs q =
     (let waiting = filter (\<lambda>p. isAvailable (rs ! dp_rank p)) q; n = ranksPerChannel cfg * banksPerRank cfg
      in if list_all (\<lambda>p. dp_bankId p < n) waiting then Some (map (\<lambda>i. i \<in> dp_bankId ` set waiting) [0..<n]) else None)"

record bank_prep =
  bank_mask :: "64 word"
  min_act_at :: nat
  found_seamless_bank :: bool
  hidden_bank_prep :: bool

text \<open>One round of the loops of \<open>minBankPrep\<close>, for bank \<open>j\<close> of rank \<open>i\<close>.\<close>

definition prep_bank :: "config \<Rightarrow> nat \<Rightarrow> nat \<Rightarrow> rank list \<Rightarrow> bool list \<Rightarrow> nat \<times> nat \<Rightarrow> bank_prep \<Rightarrow> bank_prep option" where
  "prep_bank cfg now min_col_at rs waiting ij st =
     (let (i, j) = ij;
          bank_id = (i * banksPerRank cfg + j) mod 2 ^ 16;
          hidden_act_max = max (tick_sub min_col_at (tRCD cfg)) now;
          bk = banks (rs ! i) ! j
      in if \<not> waiting ! bank_id then Some st
         else if \<not> isAvailable (rs ! i) then None
         else
           let act_at = (if openRow bk = NO_ROW then max (actAllowedAt bk) now else max (preAllowedAt bk) now + tRP cfg);
               col_at = max (colAllowedAt bk) (act_at + tRCD cfg);
               new_seamless_bank = col_at \<le> min_col_at
           in if new_seamless_bank \<or> \<not> found_seamless_bank st \<and> act_at \<le> min_act_at st then
                let mask = (if \<not> found_seamless_bank st \<and> (new_seamless_bank \<or> act_at < min_act_at st) then 0 else bank_mask st)
                in if 64 \<le> bank_id then None
                   else Some \<lparr>bank_mask = insertBits mask bank_id bank_id 1, min_act_at = act_at,
                     found_seamless_bank = found_seamless_bank st \<or> new_seamless_bank, hidden_bank_prep = act_at \<le> hidden_act_max\<rparr>
              else Some st)"

primrec prep_banks :: "config \<Rightarrow> nat \<Rightarrow> nat \<Rightarrow> rank list \<Rightarrow> bool list \<Rightarrow> (nat \<times> nat) list \<Rightarrow> bank_prep \<Rightarrow> bank_prep option" where
  "prep_banks cfg now min_col_at rs waiting [] st = Some st"
| "prep_banks cfg now min_col_at rs waiting (ij # ijs) st = do {
     st \<leftarrow> prep_bank cfg now min_col_at rs waiting ij st;
     prep_banks cfg now min_col_at rs waiting ijs st }"

definition minBankPrep :: "config \<Rightarrow> nat \<Rightarrow> nat \<Rightarrow> rank list \<Rightarrow> dram_packet list \<Rightarrow> (64 word \<times> bool) option" where
  "minBankPrep cfg now min_col_at rs q = do {
     waiting \<leftarrow> got_waiting cfg rs q;
     st \<leftarrow> prep_banks cfg now min_col_at rs waiting (List.product [0..<ranksPerChannel cfg] [0..<banksPerRank cfg])
       \<lparr>bank_mask = 0, min_act_at = MaxTick, found_seamless_bank = False, hidden_bank_prep = False\<rparr>;
     Some (bank_mask st, hidden_bank_prep st) }"

text \<open>The search of \<open>reorderQueue\<close>: the position selected so far and what was found.\<close>

record search =
  selected_pkt :: "nat option"
  earliest_banks :: "64 word"
  search_hidden :: bool
  found_hidden_bank :: bool
  found_prepped_pkt :: bool
  found_earliest_pkt :: bool

definition look_at :: "config \<Rightarrow> nat \<Rightarrow> nat \<Rightarrow> rank list \<Rightarrow> dram_packet list \<Rightarrow> nat \<Rightarrow> dram_packet \<Rightarrow> search \<Rightarrow> search option" where
  "look_at cfg now min_col_at rs q i p st = do {
     (earliest, hidden) \<leftarrow> (if earliest_banks st = 0 then minBankPrep cfg now min_col_at rs q else Some (earliest_banks st, search_hidden st));
     let st = st\<lparr>earliest_banks := earliest, search_hidden := hidden\<rparr>;
     if 64 \<le> dp_bankId p then None
     else if bits earliest (dp_bankId p) (dp_bankId p) \<noteq> 0 then
       Some (st\<lparr>found_earliest_pkt := True, found_hidden_bank := hidden,
         selected_pkt := (if hidden \<or> \<not> found_prepped_pkt st then Some i else selected_pkt st)\<rparr>)
     else Some st }"

primrec reorder_search :: "config \<Rightarrow> nat \<Rightarrow> nat \<Rightarrow> rank list \<Rightarrow> dram_packet list \<Rightarrow> nat \<Rightarrow> dram_packet list \<Rightarrow> search \<Rightarrow> search option" where
  "reorder_search cfg now min_col_at rs q i [] st = Some st"
| "reorder_search cfg now min_col_at rs q i (p # ps) st =
     (let bk = banks (rs ! dp_rank p) ! dp_bank p in
      if isAvailable (rs ! dp_rank p) then
        if openRow bk = dp_row p then
          if colAllowedAt bk \<le> min_col_at then Some (st\<lparr>selected_pkt := Some i\<rparr>)
          else reorder_search cfg now min_col_at rs q (i + 1) ps
            (if \<not> found_hidden_bank st \<and> \<not> found_prepped_pkt st then st\<lparr>selected_pkt := Some i, found_prepped_pkt := True\<rparr> else st)
        else if \<not> found_earliest_pkt st then do {
          st \<leftarrow> look_at cfg now min_col_at rs q i p st;
          reorder_search cfg now min_col_at rs q (i + 1) ps st }
        else reorder_search cfg now min_col_at rs q (i + 1) ps st
      else reorder_search cfg now min_col_at rs q (i + 1) ps st)"

definition move_front :: "nat \<Rightarrow> 'a list \<Rightarrow> 'a list" where
  "move_front i q = q ! i # take i q @ drop (Suc i) q"

definition reorderQueue :: "config \<Rightarrow> nat \<Rightarrow> rank list \<Rightarrow> nat \<Rightarrow> nat \<Rightarrow> dram_packet list \<Rightarrow> (bool \<times> dram_packet list) option" where
  "reorderQueue cfg now rs busy_until extra_col_delay q = do {
     let min_col_at = max (tick_sub (busy_until + extra_col_delay) (tCL cfg)) now;
     st \<leftarrow> reorder_search cfg now min_col_at rs q 0 q \<lparr>selected_pkt = None, earliest_banks = 0, search_hidden = False,
       found_hidden_bank = False, found_prepped_pkt = False, found_earliest_pkt = False\<rparr>;
     Some (case selected_pkt st of None \<Rightarrow> (False, q) | Some i \<Rightarrow> (True, move_front i q)) }"

text \<open>The position of the first packet to an available rank.\<close>

primrec first_available :: "rank list \<Rightarrow> nat \<Rightarrow> dram_packet list \<Rightarrow> nat option" where
  "first_available rs i [] = None"
| "first_available rs i (p # ps) = (if isAvailable (rs ! dp_rank p) then Some i else first_available rs (i + 1) ps)"

definition chooseNext :: "config \<Rightarrow> nat \<Rightarrow> rank list \<Rightarrow> nat \<Rightarrow> nat \<Rightarrow> dram_packet list \<Rightarrow> (bool \<times> dram_packet list) option" where
  "chooseNext cfg now rs busy_until extra_col_delay q =
     (case q of
        [] \<Rightarrow> None
      | [p] \<Rightarrow> Some (isAvailable (rs ! dp_rank p), q)
      | _ \<Rightarrow> (case memSchedPolicy cfg of
            fcfs \<Rightarrow> Some (case first_available rs 0 q of None \<Rightarrow> (False, q) | Some i \<Rightarrow> (True, move_front i q))
          | frfcfs \<Rightarrow> reorderQueue cfg now rs busy_until extra_col_delay q))"

section \<open>Accessing a bank\<close>

text \<open>A row operation: the bank is closed, the row commands run, and the bus is taken until they are done.\<close>

definition row_op_access :: "config \<Rightarrow> nat \<Rightarrow> dram_packet \<Rightarrow> 'm ctrl \<Rightarrow> (dram_packet \<times> 'm ctrl) option" where
  "row_op_access cfg now p c = do {
     let r = ranks c ! dp_rank p;
     let bk = banks r ! dp_bank p;
     let cmd_at = max (colAllowedAt bk) now;
     r \<leftarrow> (if openRow bk \<noteq> NO_ROW then prechargeBank cfg (dp_bank p) (max (preAllowedAt bk) now) r else Some r);
     let cmd_at = max cmd_at (actAllowedAt (banks r ! dp_bank p));
     (r, cmd_at) \<leftarrow> run_row_cmds cfg (dp_bank p) (row_op_cmds (dp_row_op p) (dp_row p) (src1_row p) (src2_row p)) cmd_at r;
     let ready = cmd_at + tCL cfg;
     Some (p\<lparr>readyTime := ready\<rparr>, (update_rank (dp_rank p) r c)\<lparr>activeRank := dp_rank p, busBusyUntil := ready,
       nextReqTime := tick_sub ready (tRP cfg + tRCD cfg + tCL cfg), pendingRowOps := pendingRowOps c - 1\<rparr>) }"

text \<open>Opening the row of a packet, and the earliest tick for its column command.\<close>

definition open_row :: "config \<Rightarrow> nat \<Rightarrow> dram_packet \<Rightarrow> rank \<Rightarrow> (rank \<times> nat) option" where
  "open_row cfg now p r =
     (let bk = banks r ! dp_bank p in
      if openRow bk = dp_row p then Some (r, max (colAllowedAt bk) now)
      else do {
        r \<leftarrow> (if openRow bk \<noteq> NO_ROW then prechargeBank cfg (dp_bank p) (max (preAllowedAt bk) now) r else Some r);
        r \<leftarrow> activateBank cfg (dp_bank p) (max (actAllowedAt (banks r ! dp_bank p)) now) (dp_row p) r;
        Some (r, colAllowedAt (banks r ! dp_bank p)) })"

text \<open>The delay of the next column command to bank \<open>x\<close> of rank \<open>j\<close> after one to bank \<open>bk\<close>.\<close>

definition column_delay :: "config \<Rightarrow> nat \<Rightarrow> bank \<Rightarrow> nat \<Rightarrow> bank \<Rightarrow> nat" where
  "column_delay cfg rnk bk j x =
     (if rnk = j then (if bankGroupArch cfg \<and> bankgr bk = bankgr x then tCCD_L cfg else tBURST cfg) else tBURST cfg + tCS cfg)"

definition push_columns :: "config \<Rightarrow> nat \<Rightarrow> bank \<Rightarrow> nat \<Rightarrow> rank list \<Rightarrow> rank list" where
  "push_columns cfg rnk bk cmd_at rs = map (\<lambda>(j, r). r\<lparr>banks := map (\<lambda>x. x\<lparr>colAllowedAt :=
     max (cmd_at + column_delay cfg rnk bk j x) (colAllowedAt x)\<rparr>) (banks r)\<rparr>) (enumerate 0 rs)"

text \<open>Whether the rest of the queue has a hit on the row of the packet, and a conflict before the first hit.\<close>

primrec look_ahead :: "dram_packet \<Rightarrow> dram_packet list \<Rightarrow> bool \<Rightarrow> bool \<times> bool" where
  "look_ahead p [] got_bank_conflict = (False, got_bank_conflict)"
| "look_ahead p (x # xs) got_bank_conflict =
     (let same_rank_bank = (dp_rank p = dp_rank x \<and> dp_bank p = dp_bank x); same_row = (dp_row p = dp_row x) in
      if same_rank_bank \<and> same_row then (True, got_bank_conflict)
      else look_ahead p xs (got_bank_conflict \<or> same_rank_bank \<and> \<not> same_row))"

definition auto_precharge :: "config \<Rightarrow> dram_packet \<Rightarrow> bank \<Rightarrow> dram_packet list \<Rightarrow> bool" where
  "auto_precharge cfg p bk q =
     (if pageMgmt cfg = page_close \<or> rowAccesses bk = maxAccessesPerRow cfg then True
      else if pageMgmt cfg = open_adaptive \<or> pageMgmt cfg = close_adaptive then
        let (got_more_hits, got_bank_conflict) = look_ahead p (tl q) False
        in \<not> got_more_hits \<and> (got_bank_conflict \<or> pageMgmt cfg = close_adaptive)
      else False)"

definition doDRAMAccess :: "config \<Rightarrow> nat \<Rightarrow> dram_packet \<Rightarrow> 'm ctrl \<Rightarrow> (dram_packet \<times> 'm ctrl) option" where
  "doDRAMAccess cfg now p c =
     (if is_row_op p then row_op_access cfg now p c
      else do {
        (r, cmd_at) \<leftarrow> open_row cfg now p (ranks c ! dp_rank p);
        let cmd_at = max cmd_at (tick_sub (busBusyUntil c) (tCL cfg));
        let ready = cmd_at + tCL cfg + tBURST cfg;
        if tick_sub ready (busBusyUntil c) < tBURST cfg then None
        else do {
          let rs = push_columns cfg (dp_rank p) (banks r ! dp_bank p) cmd_at ((ranks c)[dp_rank p := r]);
          let r = rs ! dp_rank p;
          let bk = banks r ! dp_bank p;
          let bk = bk\<lparr>preAllowedAt := max (preAllowedAt bk) (if dp_isRead p then cmd_at + tRTP cfg else ready + tWR cfg),
            bytesAccessed := (bytesAccessed bk + burstSize cfg) mod 2 ^ 32, rowAccesses := (rowAccesses bk + 1) mod 2 ^ 32\<rparr>;
          let r = r\<lparr>banks := (banks r)[dp_bank p := bk]\<rparr>;
          r \<leftarrow> (if auto_precharge cfg p bk (if dp_isRead p then readQueue c else writeQueue c)
                then prechargeBank cfg (dp_bank p) (max now (preAllowedAt bk)) r else Some r);
          let c = c\<lparr>ranks := rs[dp_rank p := r], activeRank := dp_rank p, busBusyUntil := ready,
            nextReqTime := tick_sub ready (tRP cfg + tRCD cfg + tCL cfg)\<rparr>;
          Some (p\<lparr>readyTime := ready\<rparr>,
            if dp_isRead p then c\<lparr>readsThisTime := (readsThisTime c + 1) mod 2 ^ 32\<rparr>
            else c\<lparr>writesThisTime := (writesThisTime c + 1) mod 2 ^ 32\<rparr>) } })"

section \<open>The next request\<close>

text \<open>Ranks that wait to drain are told to proceed; the result also counts the ranks that are busy.\<close>

primrec check_ranks :: "nat \<Rightarrow> rank list \<Rightarrow> (rank list \<times> nat) option" where
  "check_ranks now [] = Some ([], 0)"
| "check_ranks now (r # rs) = do {
     (r, k) \<leftarrow> (if isAvailable r then Some (r, 0) else map_option (\<lambda>r. (r, 1)) (checkDrainDone now r));
     (rs, n) \<leftarrow> check_ranks now rs;
     Some (r # rs, k + n) }"

definition switch_bus :: "'m ctrl \<Rightarrow> 'm ctrl \<times> bool" where
  "switch_bus c = (case busState c of
       READ_TO_WRITE \<Rightarrow> (c\<lparr>readsThisTime := 0, busState := WRITE\<rparr>, True)
     | WRITE_TO_READ \<Rightarrow> (c\<lparr>writesThisTime := 0, busState := READ\<rparr>, True)
     | _ \<Rightarrow> (c, False))"

text \<open>An access that was read joins the response queue.\<close>

definition queue_response :: "nat \<Rightarrow> dram_packet \<Rightarrow> 'm ctrl \<Rightarrow> 'm ctrl option" where
  "queue_response now p c =
     (if respQueue c = [] then do {
        ev \<leftarrow> schedule_event now (readyTime p) (respondEvent c);
        Some (c\<lparr>respondEvent := ev, respQueue := [p]\<rparr>) }
      else if readyTime (last (respQueue c)) \<le> readyTime p \<and> respondEvent c \<noteq> None then Some (c\<lparr>respQueue := respQueue c @ [p]\<rparr>)
      else None)"

text \<open>The read and the write branch; the flag says whether the request loop goes on.\<close>

definition next_read :: "config \<Rightarrow> nat \<Rightarrow> bool \<Rightarrow> 'm ctrl \<Rightarrow> (bool \<times> 'm ctrl) option" where
  "next_read cfg now switched c =
     (if readQueue c = [] then
        if writeQueue c \<noteq> [] \<and> (drainState c = Draining \<or> length (writeQueue c) > writeLowThreshold cfg \<or> pendingRowOps c > 0)
        then Some (True, c\<lparr>busState := READ_TO_WRITE\<rparr>)
        else Some (False, if drainState c = Draining \<and> respQueue c = [] then signal_drained c else c)
      else do {
        (found_read, q) \<leftarrow> chooseNext cfg now (ranks c) (busBusyUntil c) (if switched then tCS cfg else 0) (readQueue c);
        let c = c\<lparr>readQueue := q\<rparr>;
        if \<not> found_read then Some (False, c)
        else if \<not> isAvailable (ranks c ! dp_rank (hd q)) then None
        else do {
          let c = (if switched \<and> dp_rank (hd q) = activeRank c then c\<lparr>busBusyUntil := busBusyUntil c + (tWTR cfg + tCL cfg)\<rparr> else c);
          (p, c) \<leftarrow> doDRAMAccess cfg now (hd q) c;
          let c = c\<lparr>readQueue := tl (readQueue c)\<rparr>;
          if dp_size p > burstSize cfg \<or> readyTime p < now then None
          else do {
            c \<leftarrow> queue_response now p c;
            Some (True, if length (writeQueue c) > writeHighThreshold cfg \<or> pendingRowOps c > 0 then c\<lparr>busState := READ_TO_WRITE\<rparr> else c) } } })"

definition next_write :: "config \<Rightarrow> nat \<Rightarrow> bool \<Rightarrow> 'm ctrl \<Rightarrow> (bool \<times> 'm ctrl) option" where
  "next_write cfg now switched c = do {
     (found_write, q) \<leftarrow> chooseNext cfg now (ranks c) (busBusyUntil c) (if switched then min (tRTW cfg) (tCS cfg) else 0) (writeQueue c);
     let c = c\<lparr>writeQueue := q\<rparr>;
     if \<not> found_write then Some (False, c)
     else if \<not> isAvailable (ranks c ! dp_rank (hd q)) \<or> dp_size (hd q) > burstSize cfg then None
     else do {
       let c = (if switched \<and> dp_rank (hd q) = activeRank c then c\<lparr>busBusyUntil := busBusyUntil c + tRTW cfg\<rparr> else c);
       (p, c) \<leftarrow> doDRAMAccess cfg now (hd q) c;
       let c = c\<lparr>writeQueue := tl (writeQueue c), isInWriteQueue := isInWriteQueue c - {burstAlign cfg (dp_addr p)}\<rparr>;
       Some (True,
         if pendingRowOps c = 0 \<and> (writeQueue c = [] \<or>
              length (writeQueue c) + minWritesPerSwitch cfg < writeLowThreshold cfg \<and> drainState c \<noteq> Draining \<or>
              readQueue c \<noteq> [] \<and> writesThisTime c \<ge> minWritesPerSwitch cfg)
         then c\<lparr>busState := WRITE_TO_READ\<rparr> else c) } }"

definition go_on :: "config \<Rightarrow> nat \<Rightarrow> 'm ctrl \<Rightarrow> 'm ctrl" where
  "go_on cfg now c =
     (let c = schedule_next (max (nextReqTime c) now) c in
      if retryWrReq c \<and> length (writeQueue c) < writeBufferSize cfg then c\<lparr>retryWrReq := False, retryReqs := retryReqs c + 1\<rparr> else c)"

definition processNextReqEvent :: "config \<Rightarrow> nat \<Rightarrow> 'm ctrl \<Rightarrow> 'm ctrl option" where
  "processNextReqEvent cfg now c = do {
     (rs, busyRanks) \<leftarrow> check_ranks now (ranks c);
     let c = c\<lparr>nextReqEvent := None, ranks := rs\<rparr>;
     if busyRanks = ranksPerChannel cfg then Some c
     else do {
       let (c, switched_cmd_type) = switch_bus c;
       (more, c) \<leftarrow> (if busState c = READ then next_read cfg now switched_cmd_type c else next_write cfg now switched_cmd_type c);
       Some (if more then go_on cfg now c else c) } }"

section \<open>What arbitration promises\<close>

text \<open>A packet decoded for this geometry, and a geometry whose banks fit the bank mask.\<close>

definition pkt_ok :: "config \<Rightarrow> dram_packet \<Rightarrow> bool" where
  "pkt_ok cfg p \<longleftrightarrow> dp_rank p < ranksPerChannel cfg \<and> dp_bank p < banksPerRank cfg \<and>
     dp_bankId p = banksPerRank cfg * dp_rank p + dp_bank p \<and> dp_row p \<noteq> NO_ROW \<and> dp_size p \<le> burstSize cfg"

definition banks_fit :: "config \<Rightarrow> bool" where
  "banks_fit cfg \<longleftrightarrow> ranksPerChannel cfg * banksPerRank cfg \<le> 64"

text \<open>The bank number of bank \<open>j\<close> of rank \<open>i\<close>.\<close>

lemma bank_number:
  assumes "i < (R::nat)" "j < B"
  shows "i * B + j < R * B" "(i * B + j) div B = i"
proof -
  have "i * B + j < Suc i * B" using assms(2) by simp
  also have "\<dots> \<le> R * B" using assms(1) by (intro mult_le_mono1) simp
  finally show "i * B + j < R * B" .
  show "(i * B + j) div B = i" using assms(2) by simp
qed

lemma got_waiting_ok:
  assumes "list_all (pkt_ok cfg) q"
  shows "\<exists>w. got_waiting cfg rs q = Some w \<and> length w = ranksPerChannel cfg * banksPerRank cfg \<and>
    (\<forall>k<length w. w ! k \<longleftrightarrow> (\<exists>p\<in>set q. isAvailable (rs ! dp_rank p) \<and> dp_bankId p = k))"
proof -
  have "dp_bankId p < ranksPerChannel cfg * banksPerRank cfg" if "p \<in> set q" for p
    using assms that bank_number(1) [of "dp_rank p" "ranksPerChannel cfg" "dp_bank p" "banksPerRank cfg"]
    by (auto simp: list_all_iff pkt_ok_def mult.commute)
  then show ?thesis by (auto simp: got_waiting_def Let_def list_all_iff)
qed

text \<open>The tick at which a bank could be activated for a waiting packet.\<close>

definition act_tick_of :: "config \<Rightarrow> nat \<Rightarrow> bank \<Rightarrow> nat" where
  "act_tick_of cfg now bk = (if openRow bk = NO_ROW then max (actAllowedAt bk) now else max (preAllowedAt bk) now + tRP cfg)"

definition mask_inv :: "config \<Rightarrow> nat \<Rightarrow> rank list \<Rightarrow> bool list \<Rightarrow> nat set \<Rightarrow> bank_prep \<Rightarrow> bool" where
  "mask_inv cfg now rs w done st \<longleftrightarrow> (\<forall>k. bit (bank_mask st) k \<longrightarrow> k < length w \<and> w ! k) \<and>
     (bank_mask st = 0 \<longrightarrow> \<not> found_seamless_bank st \<and> min_act_at st = MaxTick \<and>
       (\<forall>k\<in>done. w ! k \<longrightarrow> MaxTick < act_tick_of cfg now (banks (rs ! (k div banksPerRank cfg)) ! (k mod banksPerRank cfg))))"

lemma prep_bank_ok:
  assumes "mask_inv cfg now rs w done st" "i < ranksPerChannel cfg" "j < banksPerRank cfg" "banks_fit cfg"
    and "length w = ranksPerChannel cfg * banksPerRank cfg" "w ! (i * banksPerRank cfg + j) \<Longrightarrow> isAvailable (rs ! i)"
  shows "\<exists>st'. prep_bank cfg now mc rs w (i, j) st = Some st' \<and> mask_inv cfg now rs w (insert (i * banksPerRank cfg + j) done) st'"
proof -
  define k where "k = i * banksPerRank cfg + j"
  define bk where "bk = banks (rs ! i) ! j"
  define a where "a = act_tick_of cfg now bk"
  define sl where "sl \<longleftrightarrow> max (colAllowedAt bk) (a + tRCD cfg) \<le> mc"
  have k: "k < length w" "k < 64" using bank_number(1) [OF assms(2,3)] assms(4,5) by (simp_all add: k_def banks_fit_def)
  then have k16: "(i * banksPerRank cfg + j) mod 2 ^ 16 = k" by (simp add: k_def)
  have kdiv: "k div banksPerRank cfg = i" "k mod banksPerRank cfg = j" using assms(3) by (simp_all add: k_def)
  show ?thesis
  proof (cases "w ! k \<and> (sl \<or> \<not> found_seamless_bank st \<and> a \<le> min_act_at st)")
    case False
    have "mask_inv cfg now rs w (insert k done) st"
      using False assms(1) kdiv by (auto simp: mask_inv_def a_def bk_def)
    moreover have "prep_bank cfg now mc rs w (i, j) st = Some st"
      unfolding prep_bank_def Let_def case_prod_conv k16 bk_def [symmetric] act_tick_of_def [symmetric] a_def [symmetric]
        sl_def [symmetric]
      using False assms(6) by (auto simp: k_def)
    ultimately show ?thesis by (simp add: k_def)
  next
    case True
    define mask where "mask = (if \<not> found_seamless_bank st \<and> (sl \<or> a < min_act_at st) then 0 else bank_mask st)"
    define st' where "st' = \<lparr>bank_mask = insertBits mask k k 1, min_act_at = a, found_seamless_bank = found_seamless_bank st \<or> sl,
      hidden_bank_prep = a \<le> max (tick_sub mc (tRCD cfg)) now\<rparr>"
    have step: "prep_bank cfg now mc rs w (i, j) st = Some st'"
      unfolding prep_bank_def Let_def case_prod_conv k16 bk_def [symmetric] act_tick_of_def [symmetric] a_def [symmetric]
        sl_def [symmetric] mask_def [symmetric]
      using True assms(6) k(2) by (simp add: st'_def k_def)
    have bits: "bit (bank_mask st') x \<longleftrightarrow> x = k \<or> bit mask x" for x
      using k(2) by (auto simp: st'_def bit_insertBits bit_1_iff)
    then have "bank_mask st' \<noteq> 0" by (metis bit_0_eq bot_apply bot_bool_def)
    moreover have "x < length w \<and> w ! x" if "bit (bank_mask st') x" for x
      using that True k(1) assms(1) by (auto simp: bits mask_def mask_inv_def split: if_splits)
    ultimately show ?thesis using step by (simp add: mask_inv_def)
  qed
qed

lemma prep_banks_ok:
  assumes "mask_inv cfg now rs w done st" "\<forall>(i, j)\<in>set ijs. i < ranksPerChannel cfg \<and> j < banksPerRank cfg" "banks_fit cfg"
    and "length w = ranksPerChannel cfg * banksPerRank cfg"
    and "\<And>i j. i < ranksPerChannel cfg \<Longrightarrow> j < banksPerRank cfg \<Longrightarrow> w ! (i * banksPerRank cfg + j) \<Longrightarrow> isAvailable (rs ! i)"
  shows "\<exists>st'. prep_banks cfg now mc rs w ijs st = Some st' \<and>
    mask_inv cfg now rs w (done \<union> (\<lambda>(i, j). i * banksPerRank cfg + j) ` set ijs) st'"
  using assms(1,2)
proof (induction ijs arbitrary: st "done")
  case (Cons ij ijs)
  obtain i j where ij: "ij = (i, j)" by (cases ij)
  from Cons.prems ij prep_bank_ok [OF Cons.prems(1) _ _ assms(3,4), of i j mc] assms(5) [of i j] obtain st1
    where "prep_bank cfg now mc rs w ij st = Some st1" "mask_inv cfg now rs w (insert (i * banksPerRank cfg + j) done) st1" by auto
  with Cons.IH [OF this(2)] Cons.prems(2) ij show ?case by simp
qed simp

definition waits_for :: "rank list \<Rightarrow> dram_packet list \<Rightarrow> nat \<Rightarrow> bool" where
  "waits_for rs q k \<longleftrightarrow> (\<exists>p\<in>set q. isAvailable (rs ! dp_rank p) \<and> dp_bankId p = k)"

lemma minBankPrep_ok:
  assumes "list_all (pkt_ok cfg) q" "banks_fit cfg"
  shows "\<exists>mask h. minBankPrep cfg now mc rs q = Some (mask, h) \<and> (\<forall>k. bit mask k \<longrightarrow> waits_for rs q k) \<and>
    (mask = 0 \<longrightarrow> (\<forall>p\<in>set q. isAvailable (rs ! dp_rank p) \<longrightarrow> MaxTick < act_tick_of cfg now (banks (rs ! dp_rank p) ! dp_bank p)))"
proof -
  obtain w where w: "got_waiting cfg rs q = Some w" "length w = ranksPerChannel cfg * banksPerRank cfg"
      "\<And>k. k < length w \<Longrightarrow> w ! k \<longleftrightarrow> waits_for rs q k"
    using got_waiting_ok [OF assms(1), of rs] by (auto simp: waits_for_def)
  have avail: "isAvailable (rs ! i)" if "i < ranksPerChannel cfg" "j < banksPerRank cfg" "w ! (i * banksPerRank cfg + j)" for i j
  proof -
    have "waits_for rs q (i * banksPerRank cfg + j)" using that w bank_number(1) [OF that(1,2)] by simp
    then obtain p where p: "p \<in> set q" "isAvailable (rs ! dp_rank p)" "dp_bankId p = i * banksPerRank cfg + j" by (auto simp: waits_for_def)
    then have "dp_rank p * banksPerRank cfg + dp_bank p = i * banksPerRank cfg + j" "dp_bank p < banksPerRank cfg"
      using assms(1) by (auto simp: list_all_iff pkt_ok_def mult.commute)
    then have "dp_rank p = i"
      by (metis that(2) bank_number(2) lessI)
    then show ?thesis using p(2) by simp
  qed
  define st0 where "st0 = \<lparr>bank_mask = 0, min_act_at = MaxTick, found_seamless_bank = False, hidden_bank_prep = False\<rparr>"
  define ijs where "ijs = List.product [0..<ranksPerChannel cfg] [0..<banksPerRank cfg]"
  have "mask_inv cfg now rs w {} st0" by (simp add: mask_inv_def st0_def)
  moreover have "\<forall>(i, j)\<in>set ijs. i < ranksPerChannel cfg \<and> j < banksPerRank cfg" by (auto simp: ijs_def)
  ultimately have "\<exists>st'. prep_banks cfg now mc rs w ijs st0 = Some st' \<and>
      mask_inv cfg now rs w ({} \<union> (\<lambda>(i, j). i * banksPerRank cfg + j) ` set ijs) st'"
    using assms(2) w(2) avail by (rule prep_banks_ok)
  then obtain st where st: "prep_banks cfg now mc rs w ijs st0 = Some st"
      "mask_inv cfg now rs w ((\<lambda>(i, j). i * banksPerRank cfg + j) ` set ijs) st" by auto
  have "MaxTick < act_tick_of cfg now (banks (rs ! dp_rank p) ! dp_bank p)"
    if z: "bank_mask st = 0" and p: "p \<in> set q" "isAvailable (rs ! dp_rank p)" for p
  proof -
    have ok: "dp_rank p < ranksPerChannel cfg" "dp_bank p < banksPerRank cfg" "dp_bankId p = dp_rank p * banksPerRank cfg + dp_bank p"
      using assms(1) p(1) by (auto simp: list_all_iff pkt_ok_def mult.commute)
    then have "dp_bankId p \<in> (\<lambda>(i, j). i * banksPerRank cfg + j) ` set ijs" by (auto simp: ijs_def)
    moreover have "w ! dp_bankId p" using w p ok bank_number(1) [OF ok(1,2)] by (auto simp: waits_for_def)
    ultimately show ?thesis using st(2) z ok by (fastforce simp: mask_inv_def)
  qed
  then show ?thesis using w st by (auto simp: minBankPrep_def st0_def [symmetric] ijs_def [symmetric] mask_inv_def)
qed

text \<open>
  The search: what is selected goes to an available rank, and as long as nothing is selected no packet
  passed is a row hit or waits for one of the earliest banks.
\<close>

definition search_inv :: "config \<Rightarrow> rank list \<Rightarrow> dram_packet list \<Rightarrow> 64 word \<times> bool \<Rightarrow> dram_packet list \<Rightarrow> search \<Rightarrow> bool" where
  "search_inv cfg rs q prep passed st \<longleftrightarrow>
     (\<forall>n. selected_pkt st = Some n \<longrightarrow> n < length q \<and> isAvailable (rs ! dp_rank (q ! n))) \<and>
     (found_hidden_bank st \<or> found_prepped_pkt st \<or> found_earliest_pkt st \<longrightarrow> selected_pkt st \<noteq> None) \<and>
     (earliest_banks st \<noteq> 0 \<longrightarrow> (earliest_banks st, search_hidden st) = prep) \<and>
     (selected_pkt st = None \<longrightarrow> (\<forall>p\<in>set passed. isAvailable (rs ! dp_rank p) \<longrightarrow> \<not> bit (fst prep) (dp_bankId p)))"

lemma bits_single: "k < 64 \<Longrightarrow> bits w k k \<noteq> 0 \<longleftrightarrow> bit w k"
  by (simp only: bits_take bit_iff_odd_drop_bit diff_self_eq_0 add_0 take_bit_Suc_0 One_nat_def order_refl) (simp only: mod_2_eq_odd of_bool_eq_0_iff, simp)

lemma look_at_ok:
  assumes "search_inv cfg rs q prep passed st" "minBankPrep cfg now mc rs q = Some prep" "dp_bankId p < 64"
    and "i < length q" "q ! i = p" "isAvailable (rs ! dp_rank p)"
  shows "\<exists>st'. look_at cfg now mc rs q i p st = Some st' \<and> search_inv cfg rs q prep (passed @ [p]) st'"
proof -
  define st1 where "st1 = st\<lparr>earliest_banks := fst prep, search_hidden := snd prep\<rparr>"
  have "look_at cfg now mc rs q i p st = (if bits (fst prep) (dp_bankId p) (dp_bankId p) \<noteq> 0 then
      Some (st1\<lparr>found_earliest_pkt := True, found_hidden_bank := snd prep,
        selected_pkt := (if snd prep \<or> \<not> found_prepped_pkt st1 then Some i else selected_pkt st1)\<rparr>) else Some st1)"
    using assms(1-3) by (cases prep) (auto simp: look_at_def search_inv_def st1_def)
  then show ?thesis
    using assms by (auto simp: bits_single search_inv_def st1_def)
qed

lemma reorder_search_ok:
  assumes "q = passed @ ps" "search_inv cfg rs q prep passed st" "minBankPrep cfg now mc rs q = Some prep"
    and "list_all (\<lambda>p. dp_bankId p < 64) q"
  shows "\<exists>st' passed'. reorder_search cfg now mc rs q (length passed) ps st = Some st' \<and> search_inv cfg rs q prep passed' st' \<and>
    (selected_pkt st' = None \<longrightarrow> passed' = q)"
  using assms(1,2)
proof (induction ps arbitrary: passed st)
  case (Cons p ps)
  have q: "q = (passed @ [p]) @ ps" "q ! length passed = p" "length passed < length q" "dp_bankId p < 64"
    using Cons.prems(1) assms(4) by (auto simp: nth_append)
  note IH = Cons.IH [OF q(1)]
  show ?case
  proof (cases "isAvailable (rs ! dp_rank p)")
    case False
    then have "search_inv cfg rs q prep (passed @ [p]) st" using Cons.prems(2) by (auto simp: search_inv_def)
    with IH False show ?thesis by simp
  next
    case avail: True
    let ?bk = "banks (rs ! dp_rank p) ! dp_bank p"
    consider "openRow ?bk = dp_row p" "colAllowedAt ?bk \<le> mc" | "openRow ?bk = dp_row p" "\<not> colAllowedAt ?bk \<le> mc"
      | "openRow ?bk \<noteq> dp_row p" "found_earliest_pkt st" | "openRow ?bk \<noteq> dp_row p" "\<not> found_earliest_pkt st" by blast
    then show ?thesis
    proof cases
      case 1
      have "search_inv cfg rs q prep passed (st\<lparr>selected_pkt := Some (length passed)\<rparr>)"
        using Cons.prems(2) q avail by (auto simp: search_inv_def)
      with 1 avail show ?thesis by auto
    next
      case 2
      define st1 where "st1 = (if \<not> found_hidden_bank st \<and> \<not> found_prepped_pkt st
        then st\<lparr>selected_pkt := Some (length passed), found_prepped_pkt := True\<rparr> else st)"
      have "search_inv cfg rs q prep (passed @ [p]) st1" using Cons.prems(2) q avail by (auto simp: search_inv_def st1_def)
      with IH [of st1] 2 avail show ?thesis by (simp add: st1_def)
    next
      case 3
      then have "search_inv cfg rs q prep (passed @ [p]) st" using Cons.prems(2) by (auto simp: search_inv_def)
      with IH 3 avail show ?thesis by simp
    next
      case 4
      from look_at_ok [OF Cons.prems(2) assms(3) q(4,3,2) avail] obtain st1 where
        "look_at cfg now mc rs q (length passed) p st = Some st1" "search_inv cfg rs q prep (passed @ [p]) st1" by blast
      with IH [of st1] 4 avail show ?thesis by simp
    qed
  qed
qed auto

lemma move_front_ok: "i < length q \<Longrightarrow> mset (move_front i q) = mset q \<and> hd (move_front i q) = q ! i"
  by (simp add: move_front_def) (metis add_mset_add_single id_take_nth_drop mset.simps(2) mset_append union_mset_add_mset_right)

text \<open>What the scheduler returns: the same packets, one for an available rank in front if it says so.\<close>

definition scheduled :: "rank list \<Rightarrow> dram_packet list \<Rightarrow> bool \<Rightarrow> dram_packet list \<Rightarrow> bool" where
  "scheduled rs q found q' \<longleftrightarrow> mset q' = mset q \<and> (found \<longrightarrow> isAvailable (rs ! dp_rank (hd q')))"

definition ticks_fit :: "config \<Rightarrow> nat \<Rightarrow> rank list \<Rightarrow> bool" where
  "ticks_fit cfg now rs \<longleftrightarrow> (\<forall>r\<in>set rs. \<forall>b\<in>set (banks r). act_tick_of cfg now b \<le> MaxTick)"

lemma reorderQueue_ok:
  assumes "list_all (pkt_ok cfg) q" "banks_fit cfg"
  shows "\<exists>found q'. reorderQueue cfg now rs busy extra q = Some (found, q') \<and> scheduled rs q found q' \<and>
    (\<not> found \<longrightarrow> (\<forall>p\<in>set q. isAvailable (rs ! dp_rank p) \<longrightarrow> MaxTick < act_tick_of cfg now (banks (rs ! dp_rank p) ! dp_bank p)))"
proof -
  define mc where "mc = max (tick_sub (busy + extra) (tCL cfg)) now"
  obtain mask h where prep: "minBankPrep cfg now mc rs q = Some (mask, h)" "\<And>k. bit mask k \<Longrightarrow> waits_for rs q k"
      "mask = 0 \<Longrightarrow> \<forall>p\<in>set q. isAvailable (rs ! dp_rank p) \<longrightarrow> MaxTick < act_tick_of cfg now (banks (rs ! dp_rank p) ! dp_bank p)"
    using minBankPrep_ok [OF assms, of now mc rs] by blast
  have "dp_bankId p < 64" if "p \<in> set q" for p
    using assms that bank_number(1) [of "dp_rank p" "ranksPerChannel cfg" "dp_bank p" "banksPerRank cfg"]
    by (fastforce simp: list_all_iff pkt_ok_def banks_fit_def mult.commute)
  then have ids: "list_all (\<lambda>p. dp_bankId p < 64) q" by (simp add: list_all_iff)
  define st0 where "st0 = \<lparr>selected_pkt = None, earliest_banks = 0, search_hidden = False,
    found_hidden_bank = False, found_prepped_pkt = False, found_earliest_pkt = False\<rparr>"
  have "search_inv cfg rs q (mask, h) [] st0" by (simp add: search_inv_def st0_def)
  from reorder_search_ok [OF _ this prep(1) ids] obtain st passed where st: "reorder_search cfg now mc rs q 0 q st0 = Some st"
      "search_inv cfg rs q (mask, h) passed st" "selected_pkt st = None \<longrightarrow> passed = q" by auto
  have run: "reorderQueue cfg now rs busy extra q =
      Some (case selected_pkt st of None \<Rightarrow> (False, q) | Some i \<Rightarrow> (True, move_front i q))"
    using st(1) by (simp add: reorderQueue_def mc_def [symmetric] st0_def [symmetric])
  show ?thesis
  proof (cases "selected_pkt st")
    case None
    then have "\<not> bit mask k" for k using st(2,3) prep(2) [of k] by (auto simp: search_inv_def waits_for_def)
    then have "mask = 0" by (simp add: bit_eq_iff)
    with None run prep(3) show ?thesis by (intro exI [of _ False] exI [of _ q]) (simp add: scheduled_def)
  next
    case (Some i)
    then have "i < length q" "isAvailable (rs ! dp_rank (q ! i))" using st(2) by (auto simp: search_inv_def)
    with Some run move_front_ok [of i q] show ?thesis
      by (intro exI [of _ True] exI [of _ "move_front i q"]) (simp add: scheduled_def)
  qed
qed

lemma first_available_ok:
  "case first_available rs i q of
     None \<Rightarrow> \<forall>p\<in>set q. \<not> isAvailable (rs ! dp_rank p)
   | Some k \<Rightarrow> i \<le> k \<and> k < i + length q \<and> isAvailable (rs ! dp_rank (q ! (k - i)))"
proof (induction q arbitrary: i)
  case (Cons p q)
  then show ?case using Cons [of "i + 1"] by (auto split: option.splits simp: nth_Cons' Suc_diff_Suc not_less_eq_eq)
qed simp

lemma chooseNext_ok:
  assumes "q \<noteq> []" "list_all (pkt_ok cfg) q" "banks_fit cfg"
  shows "\<exists>found q'. chooseNext cfg now rs busy extra q = Some (found, q') \<and> scheduled rs q found q' \<and>
    (\<not> found \<longrightarrow> (\<forall>p\<in>set q. isAvailable (rs ! dp_rank p) \<longrightarrow> MaxTick < act_tick_of cfg now (banks (rs ! dp_rank p) ! dp_bank p)))"
proof -
  have fcfs: "case first_available rs 0 q of None \<Rightarrow> \<forall>p\<in>set q. \<not> isAvailable (rs ! dp_rank p)
      | Some k \<Rightarrow> k < length q \<and> isAvailable (rs ! dp_rank (q ! k))"
    using first_available_ok [where rs = rs and i = 0 and q = q] by (simp split: option.splits)
  consider p where "q = [p]" | p1 p2 ps where "q = p1 # p2 # ps" using assms(1) by (metis neq_Nil_conv)
  then show ?thesis
  proof cases
    case 1
    then show ?thesis by (simp add: chooseNext_def scheduled_def)
  next
    case 2
    then have "chooseNext cfg now rs busy extra q = (case memSchedPolicy cfg of
        fcfs \<Rightarrow> Some (case first_available rs 0 q of None \<Rightarrow> (False, q) | Some i \<Rightarrow> (True, move_front i q))
      | frfcfs \<Rightarrow> reorderQueue cfg now rs busy extra q)" by (simp only: chooseNext_def list.case)
    then show ?thesis
      using reorderQueue_ok [OF assms(2,3), of now rs busy extra] fcfs move_front_ok [of _ q]
      by (auto simp: scheduled_def split: mem_sched.splits option.splits)
  qed
qed

text \<open>A packet whose row is open in an available rank and whose column command can follow without a gap on the bus.\<close>

definition seamless_hit :: "rank list \<Rightarrow> nat \<Rightarrow> dram_packet \<Rightarrow> bool" where
  "seamless_hit rs min_col_at p \<longleftrightarrow> isAvailable (rs ! dp_rank p) \<and> openRow (banks (rs ! dp_rank p) ! dp_bank p) = dp_row p \<and>
     colAllowedAt (banks (rs ! dp_rank p) ! dp_bank p) \<le> min_col_at"

lemma move_front_append [simp]: "move_front (length xs) (xs @ p # ys) = p # xs @ ys"
  by (simp add: move_front_def)

lemma reorder_search_hit:
  assumes "reorder_search cfg now mc rs q i (xs @ p # ys) st = Some st'" "list_all (\<lambda>x. \<not> seamless_hit rs mc x) xs" "seamless_hit rs mc p"
  shows "selected_pkt st' = Some (i + length xs)"
  using assms(1,2)
proof (induction xs arbitrary: i st)
  case Nil
  then show ?case using assms(3) by (auto simp: seamless_hit_def)
next
  case (Cons x xs)
  then have "\<not> seamless_hit rs mc x" "list_all (\<lambda>x. \<not> seamless_hit rs mc x) xs" by simp_all
  moreover from this(1) Cons.prems(1) obtain st1 where "reorder_search cfg now mc rs q (i + 1) (xs @ p # ys) st1 = Some st'"
    by (auto simp: seamless_hit_def Let_def bind_eq_Some_conv split: if_splits)
  ultimately show ?case using Cons.IH [of "i + 1" st1] by simp
qed

lemma first_available_append:
  "list_all (\<lambda>x. \<not> isAvailable (rs ! dp_rank x)) xs \<Longrightarrow> isAvailable (rs ! dp_rank p) \<Longrightarrow>
   first_available rs i (xs @ p # ys) = Some (i + length xs)"
  by (induction xs arbitrary: i) simp_all

lemma chooseNext_first:
  assumes "chooseNext cfg now rs busy extra (xs @ p # ys) = Some (found, q')"
  shows "\<lbrakk>memSchedPolicy cfg = fcfs; list_all (\<lambda>x. \<not> isAvailable (rs ! dp_rank x)) xs; isAvailable (rs ! dp_rank p)\<rbrakk> \<Longrightarrow> found \<and> q' = p # xs @ ys"
    "\<lbrakk>memSchedPolicy cfg = frfcfs; list_all (\<lambda>x. \<not> seamless_hit rs (max (tick_sub (busy + extra) (tCL cfg)) now) x) xs;
      seamless_hit rs (max (tick_sub (busy + extra) (tCL cfg)) now) p\<rbrakk> \<Longrightarrow> found \<and> q' = p # xs @ ys"
proof -
  have c: "xs = [] \<and> ys = [] \<and> found = isAvailable (rs ! dp_rank p) \<and> q' = [p] \<or>
      Some (found, q') = (case memSchedPolicy cfg of
        fcfs \<Rightarrow> Some (case first_available rs 0 (xs @ p # ys) of None \<Rightarrow> (False, xs @ p # ys) | Some i \<Rightarrow> (True, move_front i (xs @ p # ys)))
      | frfcfs \<Rightarrow> reorderQueue cfg now rs busy extra (xs @ p # ys))"
  proof (cases "xs = [] \<and> ys = []")
    case True
    then show ?thesis using assms by (auto simp: chooseNext_def)
  next
    case False
    then obtain a b r where "xs @ p # ys = a # b # r" by (cases xs; cases ys; cases "tl xs") auto
    then show ?thesis using assms by (simp only: chooseNext_def list.case) simp
  qed
  show "found \<and> q' = p # xs @ ys" if "memSchedPolicy cfg = fcfs" "list_all (\<lambda>x. \<not> isAvailable (rs ! dp_rank x)) xs" "isAvailable (rs ! dp_rank p)"
    using c that first_available_append [OF that(2,3), of 0 ys] by auto
  show "found \<and> q' = p # xs @ ys" if "memSchedPolicy cfg = frfcfs"
    "list_all (\<lambda>x. \<not> seamless_hit rs (max (tick_sub (busy + extra) (tCL cfg)) now) x) xs"
    "seamless_hit rs (max (tick_sub (busy + extra) (tCL cfg)) now) p"
  proof (cases "xs = [] \<and> ys = [] \<and> found = isAvailable (rs ! dp_rank p) \<and> q' = [p]")
    case True
    then show ?thesis using that(3) by (simp add: seamless_hit_def)
  next
    case False
    note hit = reorder_search_hit [OF _ that(2,3)]
    have "reorderQueue cfg now rs busy extra (xs @ p # ys) = Some (found, q')" using False c that(1) by auto
    then obtain st where st: "reorder_search cfg now (max (tick_sub (busy + extra) (tCL cfg)) now) rs (xs @ p # ys) 0 (xs @ p # ys)
          \<lparr>selected_pkt = None, earliest_banks = 0, search_hidden = False, found_hidden_bank = False, found_prepped_pkt = False,
            found_earliest_pkt = False\<rparr> = Some st"
        "(case selected_pkt st of None \<Rightarrow> (False, xs @ p # ys) | Some i \<Rightarrow> (True, move_front i (xs @ p # ys))) = (found, q')"
      unfolding reorderQueue_def Let_def bind_eq_Some_conv option.inject by (elim exE conjE)
    from hit [OF st(1)] st(2) show ?thesis by auto
  qed
qed

section \<open>What an access promises\<close>

text \<open>
  A command only moves column commands later; it leaves the number, the refresh state and the
  pending refresh and power events of its rank alone.
\<close>

definition later :: "rank \<Rightarrow> rank \<Rightarrow> bool" where
  "later r r' \<longleftrightarrow> length (banks r') = length (banks r) \<and>
     (\<forall>i<length (banks r). colAllowedAt (banks r ! i) \<le> colAllowedAt (banks r' ! i)) \<and> refreshState r' = refreshState r \<and>
     rankNo r' = rankNo r \<and> refreshEvent r' = refreshEvent r \<and> powerEvent r' = powerEvent r \<and> pwrState r' = pwrState r"

lemma later_refl [simp]: "later r r"
  by (simp add: later_def)

lemma later_trans [trans]: "later r s \<Longrightarrow> later s t \<Longrightarrow> later r t"
  by (auto simp: later_def intro: order_trans)

lemma col_update:
  "i < length bs \<Longrightarrow> colAllowedAt (bs ! b) \<le> colAllowedAt x \<Longrightarrow> colAllowedAt (bs ! i) \<le> colAllowedAt (bs[b := x] ! i)"
  by (cases "i = b") simp_all

lemma prechargeBank_later: "prechargeBank cfg b t r = Some r' \<Longrightarrow> later r r'"
  by (auto simp: prechargeBank_def later_def Let_def intro!: col_update split: if_splits)

text \<open>Both activations write one bank and then only push activations of the rank later.\<close>

lemma activation_columns:
  assumes "colAllowedAt (banks r ! b) \<le> colAllowedAt bk" "i < length (banks r)"
  shows "colAllowedAt (banks r ! i) \<le> colAllowedAt (enforce_tRRD cfg b t ((banks r)[b := bk]) ! i)"
    "colAllowedAt (banks r ! i) \<le> colAllowedAt (push_act_limit x (enforce_tRRD cfg b t ((banks r)[b := bk])) ! i)"
  using assms col_update [of i "banks r" b bk] by (simp_all add: nth_enforce nth_push)

lemma activateBank_later: "activateBank cfg b t row r = Some r' \<Longrightarrow> later r r'"
proof -
  assume act: "activateBank cfg b t row r = Some r'"
  define bk where "bk = (banks r ! b)\<lparr>openRow := row, bytesAccessed := 0, rowAccesses := 0, preAllowedAt := t + tRAS cfg,
    colAllowedAt := max (t + tRCD cfg) (colAllowedAt (banks r ! b))\<rparr>"
  have col: "colAllowedAt (banks r ! b) \<le> colAllowedAt bk" by (simp add: bk_def)
  show ?thesis
    using act activation_columns [OF col] unfolding activateBank_def Let_def bk_def [symmetric]
    by (auto simp: later_def schedule_activate_def split: if_splits)
qed

lemma aapBank_later: "aapBank cfg b t row1 row2 ov r = Some r' \<Longrightarrow> later r r'"
proof -
  assume aap: "aapBank cfg b t row1 row2 ov r = Some r'"
  define bk where "bk = (banks r ! b)\<lparr>openRow := DOUBLE_ROW, bytesAccessed := 0, rowAccesses := 0,
    preAllowedAt := t + tRAS cfg + (if ov then tWLOV cfg else tWL cfg)\<rparr>"
  define bs where "bs = enforce_tRRD cfg b t ((banks r)[b := bk])"
  define ticks where "ticks = (if actTicks r = [] then [] else t # butlast (actTicks r))"
  define bs' where "bs' = (if ticks \<noteq> [] \<and> last ticks \<noteq> 0 \<and> t < last ticks + tXAW cfg then push_act_limit (last ticks + tXAW cfg) bs else bs)"
  define r1 where "r1 = schedule_activate t (r\<lparr>banks := bs', numBanksActive := numBanksActive r + 1, actTicks := ticks\<rparr>)"
  have "colAllowedAt (banks r ! b) \<le> colAllowedAt bk" by (simp add: bk_def)
  from activation_columns [OF this] have "later r r1"
    by (simp add: later_def r1_def schedule_activate_def bs'_def bs_def)
  moreover have "prechargeBank cfg b (preAllowedAt (banks r1 ! b)) r1 = Some r'"
    using aap unfolding aapBank_def Let_def bk_def [symmetric] bs_def [symmetric] ticks_def [symmetric] bs'_def [symmetric] r1_def [symmetric]
    by (simp split: if_splits)
  ultimately show ?thesis using prechargeBank_later later_trans by blast
qed

lemma run_row_cmds_later: "run_row_cmds cfg b cs t r = Some (r', t') \<Longrightarrow> later r r'"
proof (induction cs arbitrary: t r)
  case (Cons c cs)
  have "later r r1" if "apBank cfg b t row r = Some r1" for row r1
    using that by (auto simp: apBank_def bind_eq_Some_conv dest!: activateBank_later prechargeBank_later intro: later_trans)
  then show ?case
    using Cons.prems by (auto simp: bind_eq_Some_conv split: row_cmd.splits dest!: aapBank_later Cons.IH intro: later_trans)
qed simp

lemma rank_inv_columns:
  assumes "rank_inv cfg r" "map openRow bs = map openRow (banks r)" "map actAllowedAt bs = map actAllowedAt (banks r)"
  shows "rank_inv cfg (r\<lparr>banks := bs\<rparr>)"
proof -
  have "open_count bs = open_count (banks r)"
    using arg_cong [OF assms(2), of "\<lambda>rows. length (filter (\<lambda>x. x \<noteq> NO_ROW) rows)"] by (simp add: open_count_def filter_map o_def)
  moreover have "length bs = length (banks r)" using assms(2) by (metis length_map)
  moreover from this have "actAllowedAt (banks r ! i) \<le> actAllowedAt (bs ! i)" if "i < length (banks r)" for i
    using that assms(3) by (metis nth_map order_refl)
  ultimately show ?thesis using assms(1) window_later [of cfg "actTicks r" "banks r" bs] by (simp add: rank_inv_def)
qed

lemma open_row_ok:
  assumes "rank_inv cfg r" "pkt_ok cfg p"
  shows "\<exists>r' t. open_row cfg now p r = Some (r', t) \<and> rank_inv cfg r' \<and> openRow (banks r' ! dp_bank p) = dp_row p \<and> later r r' \<and>
    colAllowedAt (banks r ! dp_bank p) \<le> t \<and> now \<le> t"
proof (cases "openRow (banks r ! dp_bank p) = dp_row p")
  case True
  then show ?thesis using assms(1) by (simp add: open_row_def)
next
  case miss: False
  have b: "dp_bank p < banksPerRank cfg" "dp_row p \<noteq> NO_ROW" using assms(2) by (simp_all add: pkt_ok_def)
  let ?pre = "if openRow (banks r ! dp_bank p) \<noteq> NO_ROW
    then prechargeBank cfg (dp_bank p) (max (preAllowedAt (banks r ! dp_bank p)) now) r else Some r"
  obtain r1 where r1: "?pre = Some r1" "rank_inv cfg r1" "openRow (banks r1 ! dp_bank p) = NO_ROW" "later r r1"
    using prechargeBank_ok [OF assms(1) b(1)] prechargeBank_later assms(1) by (cases "openRow (banks r ! dp_bank p) = NO_ROW") fastforce+
  define t where "t = max (actAllowedAt (banks r1 ! dp_bank p)) now"
  obtain r2 where r2: "activateBank cfg (dp_bank p) t (dp_row p) r1 = Some r2" "rank_inv cfg r2" "openRow (banks r2 ! dp_bank p) = dp_row p"
      "t + tRCD cfg \<le> colAllowedAt (banks r2 ! dp_bank p)"
    using activateBank_ok [OF r1(2) b(1) r1(3) _ b(2), of t] by (auto simp: t_def)
  have "later r r2" using r1(4) activateBank_later [OF r2(1)] later_trans by blast
  moreover from this have "colAllowedAt (banks r ! dp_bank p) \<le> colAllowedAt (banks r2 ! dp_bank p)"
    using assms(1) b(1) by (simp add: later_def rank_inv_def)
  moreover have "open_row cfg now p r = Some (r2, colAllowedAt (banks r2 ! dp_bank p))"
    using miss r1(1) r2(1) by (simp add: open_row_def Let_def t_def)
  ultimately show ?thesis using r2 by (auto simp: t_def)
qed

definition ranks_inv :: "config \<Rightarrow> rank list \<Rightarrow> bool" where
  "ranks_inv cfg rs \<longleftrightarrow> length rs = ranksPerChannel cfg \<and> list_all (rank_inv cfg) rs"

lemma ranks_inv_update:
  assumes "ranks_inv cfg rs" "rank_inv cfg r"
  shows "ranks_inv cfg (rs[i := r])"
  using assms set_update_subset_insert [of rs i r] by (auto simp: ranks_inv_def list_all_iff)

lemma ranks_later_update:
  assumes "i < length rs" "later (rs ! i) r"
  shows "list_all2 later rs (rs[i := r])"
  using assms by (auto simp: list_all2_conv_all_nth nth_list_update)

lemma ranks_later_trans: "list_all2 later rs ss \<Longrightarrow> list_all2 later ss ts \<Longrightarrow> list_all2 later rs ts"
  unfolding list_all2_conv_all_nth by (metis later_trans)

text \<open>
  An access: the bus is busy until the packet is ready, which is not in the past; ranks keep their
  invariant and nothing but the timing of the controller changes.
\<close>

definition access_done :: "config \<Rightarrow> nat \<Rightarrow> dram_packet \<Rightarrow> 'm ctrl \<Rightarrow> dram_packet \<Rightarrow> 'm ctrl \<Rightarrow> bool" where
  "access_done cfg now p c p' c' \<longleftrightarrow> p' = p\<lparr>readyTime := busBusyUntil c'\<rparr> \<and> now \<le> busBusyUntil c' \<and> tCL cfg \<le> busBusyUntil c' \<and>
     ranks_inv cfg (ranks c') \<and> list_all2 later (ranks c) (ranks c') \<and>
     c' = c\<lparr>ranks := ranks c', activeRank := dp_rank p, busBusyUntil := busBusyUntil c', nextReqTime := nextReqTime c',
       readsThisTime := readsThisTime c', writesThisTime := writesThisTime c',
       pendingRowOps := pendingRowOps c - of_bool (is_row_op p)\<rparr>"

lemma row_op_access_ok:
  assumes "ranks_inv cfg (ranks c)" "pkt_ok cfg p" "is_row_op p"
  shows "\<exists>p' c'. row_op_access cfg now p c = Some (p', c') \<and> access_done cfg now p c p' c'"
proof -
  define r where "r = ranks c ! dp_rank p"
  have rk: "dp_rank p < length (ranks c)" "dp_bank p < banksPerRank cfg" using assms by (simp_all add: ranks_inv_def pkt_ok_def)
  then have inv: "rank_inv cfg r" using assms(1) by (simp add: ranks_inv_def list_all_length r_def)
  define bk where "bk = banks r ! dp_bank p"
  let ?pre = "if openRow bk \<noteq> NO_ROW then prechargeBank cfg (dp_bank p) (max (preAllowedAt bk) now) r else Some r"
  obtain r1 where r1: "?pre = Some r1" "rank_inv cfg r1" "openRow (banks r1 ! dp_bank p) = NO_ROW" "later r r1"
    using prechargeBank_ok [OF inv rk(2)] prechargeBank_later inv by (cases "openRow bk = NO_ROW") (fastforce simp: bk_def)+
  define t where "t = max (max (colAllowedAt bk) now) (actAllowedAt (banks r1 ! dp_bank p))"
  obtain r2 t2 where r2: "run_row_cmds cfg (dp_bank p) (row_op_cmds (dp_row_op p) (dp_row p) (src1_row p) (src2_row p)) t r1 = Some (r2, t2)"
      "rank_inv cfg r2" "t \<le> t2"
    using row_op_ok [OF r1(2) rk(2) r1(3), of t "dp_row_op p" "dp_row p" "src1_row p" "src2_row p"] max.cobounded2
    unfolding t_def by (meson add_leD1)
  have "later r r2" using r1(4) run_row_cmds_later [OF r2(1)] later_trans by blast
  then have "list_all2 later (ranks c) ((ranks c)[dp_rank p := r2])" using ranks_later_update [OF rk(1)] by (simp add: r_def)
  moreover have "ranks_inv cfg ((ranks c)[dp_rank p := r2])" using ranks_inv_update [OF assms(1) r2(2)] .
  moreover have "row_op_access cfg now p c = Some (p\<lparr>readyTime := t2 + tCL cfg\<rparr>, (update_rank (dp_rank p) r2 c)\<lparr>activeRank := dp_rank p,
      busBusyUntil := t2 + tCL cfg, nextReqTime := tick_sub (t2 + tCL cfg) (tRP cfg + tRCD cfg + tCL cfg), pendingRowOps := pendingRowOps c - 1\<rparr>)"
    unfolding row_op_access_def Let_def r_def [symmetric] bk_def [symmetric] r1(1) bind.bind_lunit t_def [symmetric] r2(1) by simp
  ultimately show ?thesis using r2(3) assms(3) by (auto simp: access_done_def update_rank_def t_def)
qed

text \<open>The columns of every bank wait for the command that was issued.\<close>

lemma push_columns_nth:
  assumes "j < length rs"
  shows "push_columns cfg rnk bk t rs ! j = (rs ! j)\<lparr>banks := map (\<lambda>x. x\<lparr>colAllowedAt :=
    max (t + column_delay cfg rnk bk j x) (colAllowedAt x)\<rparr>) (banks (rs ! j))\<rparr>"
  using assms by (simp add: push_columns_def nth_enumerate_eq)

lemma length_push_columns [simp]: "length (push_columns cfg rnk bk t rs) = length rs"
  by (simp add: push_columns_def)

definition columns_after :: "nat \<Rightarrow> rank list \<Rightarrow> bool" where
  "columns_after t rs \<longleftrightarrow> (\<forall>r\<in>set rs. \<forall>x\<in>set (banks r). t \<le> colAllowedAt x)"

lemma columns_after_later:
  assumes "columns_after t rs" "list_all2 later rs rs'"
  shows "columns_after t rs'"
proof -
  have "t \<le> colAllowedAt (banks (rs' ! j) ! i)" if "j < length rs'" "i < length (banks (rs' ! j))" for i j
  proof -
    have "later (rs ! j) (rs' ! j)" using assms(2) that by (simp add: list_all2_conv_all_nth)
    then have "i < length (banks (rs ! j))" "colAllowedAt (banks (rs ! j) ! i) \<le> colAllowedAt (banks (rs' ! j) ! i)"
      using that by (auto simp: later_def)
    moreover have "j < length rs" using assms(2) that by (simp add: list_all2_lengthD)
    ultimately show ?thesis using assms(1) nth_mem unfolding columns_after_def by (meson order_trans)
  qed
  then show ?thesis by (auto simp: columns_after_def in_set_conv_nth)
qed

lemma push_columns_ok:
  assumes "ranks_inv cfg rs"
  shows "ranks_inv cfg (push_columns cfg rnk bk t rs)" "list_all2 later rs (push_columns cfg rnk bk t rs)"
    "columns_after t (push_columns cfg rnk bk t rs)"
proof -
  show "ranks_inv cfg (push_columns cfg rnk bk t rs)"
    using assms by (auto simp: ranks_inv_def list_all_length push_columns_nth intro!: rank_inv_columns)
  show "list_all2 later rs (push_columns cfg rnk bk t rs)"
    by (simp add: list_all2_conv_all_nth push_columns_nth later_def)
  show "columns_after t (push_columns cfg rnk bk t rs)"
    by (auto simp: columns_after_def in_set_conv_nth [of _ "push_columns cfg rnk bk t rs"] push_columns_nth le_max_iff_disj)
qed

lemma column_update_ok:
  assumes "rank_inv cfg r" "later r0 r" "openRow bk = openRow (banks r ! b)" "actAllowedAt bk = actAllowedAt (banks r ! b)"
    "colAllowedAt bk = colAllowedAt (banks r ! b)"
  shows "rank_inv cfg (r\<lparr>banks := (banks r)[b := bk]\<rparr>)" "later r0 (r\<lparr>banks := (banks r)[b := bk]\<rparr>)"
proof -
  have "map openRow ((banks r)[b := bk]) = map openRow (banks r)" "map actAllowedAt ((banks r)[b := bk]) = map actAllowedAt (banks r)"
    using assms(3,4) by (metis list_update_id map_update, metis list_update_id map_update)
  then show "rank_inv cfg (r\<lparr>banks := (banks r)[b := bk]\<rparr>)" using assms(1) rank_inv_columns by blast
  have "later r (r\<lparr>banks := (banks r)[b := bk]\<rparr>)" using assms(5) col_update [of _ "banks r" b bk] by (simp add: later_def)
  then show "later r0 (r\<lparr>banks := (banks r)[b := bk]\<rparr>)" using assms(2) later_trans by blast
qed

lemma column_access_ok:
  assumes "ranks_inv cfg (ranks c)" "pkt_ok cfg p" "\<not> is_row_op p" "tCL cfg \<le> busBusyUntil c"
  shows "\<exists>p' c' t. doDRAMAccess cfg now p c = Some (p', c') \<and> access_done cfg now p c p' c' \<and>
    busBusyUntil c' = t + tCL cfg + tBURST cfg \<and> colAllowedAt (banks (ranks c ! dp_rank p) ! dp_bank p) \<le> t \<and> columns_after t (ranks c')"
proof -
  let ?k = "dp_rank p" and ?b = "dp_bank p"
  have rk: "?k < length (ranks c)" "?b < banksPerRank cfg" "dp_row p \<noteq> NO_ROW" using assms by (simp_all add: ranks_inv_def pkt_ok_def)
  then have inv: "rank_inv cfg (ranks c ! ?k)" using assms(1) by (simp add: ranks_inv_def list_all_length)
  obtain r t0 where r: "open_row cfg now p (ranks c ! ?k) = Some (r, t0)" "rank_inv cfg r" "openRow (banks r ! ?b) = dp_row p"
      "later (ranks c ! ?k) r" "colAllowedAt (banks (ranks c ! ?k) ! ?b) \<le> t0" "now \<le> t0"
    using open_row_ok [OF inv assms(2)] by blast
  define t where "t = max t0 (tick_sub (busBusyUntil c) (tCL cfg))"
  define ready where "ready = t + tCL cfg + tBURST cfg"
  define rs where "rs = push_columns cfg ?k (banks r ! ?b) t ((ranks c)[?k := r])"
  have rs0: "ranks_inv cfg ((ranks c)[?k := r])" using ranks_inv_update [OF assms(1) r(2)] .
  note rs = push_columns_ok [where rnk = ?k and bk = "banks r ! ?b" and t = t, OF rs0, folded rs_def]
  have up: "list_all2 later (ranks c) rs" using ranks_later_trans [OF ranks_later_update [OF rk(1) r(4)] rs(2)] .
  have len: "?k < length rs" using rk(1) by (simp add: rs_def)
  have row: "openRow (banks (rs ! ?k) ! ?b) = dp_row p"
    using rk r(2,3) by (simp add: rs_def push_columns_nth rank_inv_def)
  have inv1: "rank_inv cfg (rs ! ?k)" using rs(1) len by (simp add: ranks_inv_def list_all_length)
  define bk where "bk = (banks (rs ! ?k) ! ?b)\<lparr>preAllowedAt := max (preAllowedAt (banks (rs ! ?k) ! ?b)) (if dp_isRead p then t + tRTP cfg else ready + tWR cfg),
    bytesAccessed := (bytesAccessed (banks (rs ! ?k) ! ?b) + burstSize cfg) mod 2 ^ 32, rowAccesses := (rowAccesses (banks (rs ! ?k) ! ?b) + 1) mod 2 ^ 32\<rparr>"
  define r2 where "r2 = (rs ! ?k)\<lparr>banks := (banks (rs ! ?k))[?b := bk]\<rparr>"
  have r2: "rank_inv cfg r2" "later (rs ! ?k) r2" unfolding r2_def
    by (rule column_update_ok [OF inv1 later_refl]; simp add: bk_def)+
  have row2: "openRow (banks r2 ! ?b) = dp_row p" using row rk(2) inv1 by (simp add: r2_def rank_inv_def bk_def)
  let ?q = "if dp_isRead p then readQueue c else writeQueue c"
  obtain r3 where r3: "(if auto_precharge cfg p bk ?q then prechargeBank cfg ?b (max now (preAllowedAt bk)) r2 else Some r2) = Some r3"
      "rank_inv cfg r3" "later r2 r3"
    using prechargeBank_ok [OF r2(1) rk(2), of "max now (preAllowedAt bk)"] prechargeBank_later row2 rk(3) r2(1)
    by (cases "auto_precharge cfg p bk ?q") fastforce+
  have "list_all2 later rs (rs[?k := r3])" using ranks_later_update [OF len] r2(2) r3(3) later_trans by blast
  then have fin: "ranks_inv cfg (rs[?k := r3])" "list_all2 later (ranks c) (rs[?k := r3])" "columns_after t (rs[?k := r3])"
    using ranks_inv_update [OF rs(1) r3(2)] ranks_later_trans [OF up] columns_after_later [OF rs(3)] by blast+
  have "busBusyUntil c + tBURST cfg \<le> ready" using assms(4) by (simp add: ready_def t_def tick_sub_def)
  then have "\<not> tick_sub ready (busBusyUntil c) < tBURST cfg" by (simp add: tick_sub_def)
  then have run: "doDRAMAccess cfg now p c = (let c = c\<lparr>ranks := rs[?k := r3], activeRank := ?k, busBusyUntil := ready,
      nextReqTime := tick_sub ready (tRP cfg + tRCD cfg + tCL cfg)\<rparr> in Some (p\<lparr>readyTime := ready\<rparr>,
      if dp_isRead p then c\<lparr>readsThisTime := (readsThisTime c + 1) mod 2 ^ 32\<rparr> else c\<lparr>writesThisTime := (writesThisTime c + 1) mod 2 ^ 32\<rparr>))"
    unfolding doDRAMAccess_def Let_def r(1) bind.bind_lunit case_prod_conv t_def [symmetric] ready_def [symmetric] rs_def [symmetric]
      bk_def [symmetric] r2_def [symmetric] r3(1) using assms(3) by simp
  show ?thesis
    unfolding run Let_def using fin r(5,6) assms(3) by (auto simp: access_done_def ready_def t_def)
qed

end
