(* ===== verification/Dram_Front.thy ===== *)
theory Dram_Front
  imports Dram_Sched
begin

text \<open>
  What the front end of the DRAM controller promises: decoded packets name a bank of the channel, a
  request is cut into bursts that cover it, and the queues never outgrow their buffers.
\<close>

section \<open>Geometry\<close>

text \<open>A configuration with at least one bank, rows that fit their type, and bursts of a power of two.\<close>

definition cfg_ok :: "config \<Rightarrow> bool" where
  "cfg_ok cfg \<longleftrightarrow> 0 < ranksPerChannel cfg \<and> 0 < banksPerRank cfg \<and> banks_fit cfg \<and>
     0 < rowsPerBank cfg \<and> rowsPerBank cfg \<le> unat NO_ROW \<and> (\<exists>k<32. burstSize cfg = 2 ^ k) \<and> tXAW cfg \<le> tRFC cfg"

lemma cfg_ok_small:
  assumes "cfg_ok cfg"
  shows "ranksPerChannel cfg \<le> 64" "banksPerRank cfg \<le> 64"
proof -
  have "ranksPerChannel cfg * 1 \<le> ranksPerChannel cfg * banksPerRank cfg" "1 * banksPerRank cfg \<le> ranksPerChannel cfg * banksPerRank cfg"
    using assms by (intro mult_le_mono; simp add: cfg_ok_def Suc_le_eq)+
  then show "ranksPerChannel cfg \<le> 64" "banksPerRank cfg \<le> 64"
    using assms unfolding cfg_ok_def banks_fit_def mult_1 mult_1_right by (meson order_trans)+
qed

lemma decode_parts_bounds:
  assumes "cfg_ok cfg" "decode_parts cfg a = (rnk, bnk, row)"
  shows "rnk < ranksPerChannel cfg" "bnk < banksPerRank cfg" "row < rowsPerBank cfg"
  using assms by (auto simp: decode_parts_def cfg_ok_def Let_def split: addr_map.splits)

lemma decodeAddr_ok:
  assumes "cfg_ok cfg" "sz \<le> burstSize cfg"
  shows "\<exists>p. decodeAddr cfg now pkt a sz is_read = Some p \<and> pkt_ok cfg p \<and> dp_isRead p = is_read \<and> \<not> is_row_op p \<and> dp_pkt p = pkt \<and>
    dp_addr p = a \<and> dp_size p = sz \<and> (dp_rank p, dp_bank p, unat (dp_row p)) = decode_parts cfg (unat a) \<and> burstHelper p = None"
proof -
  obtain rnk bnk row where parts: "decode_parts cfg (unat a) = (rnk, bnk, row)" by (cases "decode_parts cfg (unat a)")
  note b = decode_parts_bounds [OF assms(1) parts]
  have small: "rnk mod 256 = rnk" "bnk mod 256 = bnk" using b cfg_ok_small [OF assms(1)] by simp_all
  have "rnk * banksPerRank cfg + bnk < ranksPerChannel cfg * banksPerRank cfg" by (rule bank_number(1) [OF b(1,2)])
  then have id: "(banksPerRank cfg * rnk + bnk) mod 65536 = banksPerRank cfg * rnk + bnk"
    using assms(1) by (simp add: cfg_ok_def banks_fit_def mult.commute)
  have row: "row < unat NO_ROW" using b(3) assms(1) by (simp add: cfg_ok_def)
  then have "row < 2 ^ 32" using unsigned_less [where 'a = nat, of NO_ROW] by simp
  then have "unat (of_nat row :: 32 word) = row" by (simp add: unsigned_of_nat take_bit_nat_eq_self)
  moreover from this have "of_nat row \<noteq> NO_ROW" using row by auto
  ultimately show ?thesis
    using b small id row assms(2) by (simp add: decodeAddr_def parts pkt_ok_def)
qed

section \<open>Bursts\<close>

lemma mask_word: "k < 64 \<Longrightarrow> (2 ^ k :: 64 word) - 1 = mask k"
  by (simp add: mask_eq_exp_minus_1)

lemma unat_next_burst:
  assumes "burstSize cfg = 2 ^ k" "k < 64" "unat a + 2 ^ k < 2 ^ 64"
  shows "unat (next_burst cfg a) = (unat a div 2 ^ k + 1) * 2 ^ k"
proof -
  have m: "unat (mask k :: 64 word) = 2 ^ k - 1" using assms(2) by (simp add: mask_eq_exp_minus_1 unat_sub_if' unat_exp64)
  have "a OR mask k = (a AND NOT (mask k)) + mask k"
  proof -
    have "(a AND NOT (mask k)) + mask k = (a AND NOT (mask k)) OR mask k"
      by (rule disjunctive_add) (auto simp: bit_simps)
    also have "\<dots> = a OR mask k" by (rule bit_word_eqI) (auto simp: bit_simps)
    finally show ?thesis by simp
  qed
  then have "next_burst cfg a = (a AND NOT (mask k)) + 2 ^ k"
    using assms(1,2) by (simp add: next_burst_def mask_word) (simp add: mask_eq_exp_minus_1)
  moreover have le: "unat a div 2 ^ k * 2 ^ k \<le> unat a" by (simp add: div_times_less_eq_dividend)
  then have "unat a div 2 ^ k * 2 ^ k + 2 ^ k < 2 ^ 64" using assms(3) by linarith
  ultimately show ?thesis
    using assms(2) by (simp add: unat_word_ariths unat_and_not_mask unat_exp64)
qed

text \<open>The \<open>n\<close> bursts of \<open>2 ^ k\<close> bytes from the one of address \<open>a\<close> on reach just past the end \<open>e\<close> of a request.\<close>

definition covers :: "nat \<Rightarrow> 64 word \<Rightarrow> nat \<Rightarrow> nat \<Rightarrow> bool" where
  "covers k a e n \<longleftrightarrow> (n = 0 \<or> unat a < e \<and> (unat a div 2 ^ k + (n - 1)) * 2 ^ k < e \<and> e \<le> (unat a div 2 ^ k + n) * 2 ^ k)"

lemma covers_start:
  assumes "burstSize cfg = 2 ^ k" "k < 64" "0 < sz"
  shows "covers k a (unat a + sz) (dram_pkt_count cfg a sz)" "0 < dram_pkt_count cfg a sz"
proof -
  let ?B = "2 ^ k :: nat" and ?o = "unat a mod 2 ^ k"
  have "unat (a AND mask k) = ?o" by (simp only: take_bit_eq_mask [symmetric] unsigned_take_bit_eq) (simp only: take_bit_eq_mod)
  then have n: "dram_pkt_count cfg a sz = (?o + sz + ?B - 1) div ?B"
    using assms(1,2) by (simp add: dram_pkt_count_def mask_word)
  define n where "n = (?o + sz + ?B - 1) div ?B"
  have "?B \<le> ?o + sz + ?B - 1" using assms(3) by simp
  then show pos: "0 < dram_pkt_count cfg a sz" unfolding n by (simp add: div_greater_zero_iff)
  have lo: "n * ?B \<le> ?o + sz + ?B - 1" unfolding n_def by (rule div_times_less_eq_dividend)
  have hi: "?o + sz + ?B - 1 < n * ?B + ?B" unfolding n_def using dividend_less_div_times [of ?B "?o + sz + ?B - 1"] by simp
  have a: "unat a = unat a div ?B * ?B + ?o" by (rule div_mult_mod_eq [symmetric])
  have "n * ?B = (n - 1) * ?B + ?B" using pos unfolding n n_def [symmetric] by (cases n) simp_all
  then have "(n - 1) * ?B < ?o + sz" "?o + sz \<le> n * ?B" using lo hi assms(3) by linarith+
  then have "(unat a div ?B + (n - 1)) * ?B < unat a + sz" "unat a + sz \<le> (unat a div ?B + n) * ?B"
    unfolding add_mult_distrib using a by linarith+
  then show "covers k a (unat a + sz) (dram_pkt_count cfg a sz)" unfolding n n_def [symmetric] covers_def using assms(3) by simp
qed

lemma burst_step:
  assumes "burstSize cfg = 2 ^ k" "k < 32" "covers k a e (Suc n)" "e = unat pa + psz" "e + 2 ^ k < 2 ^ 64"
  shows "covers k (next_burst cfg a) e n" "burst_bytes cfg pa psz a = min ((unat a div 2 ^ k + 1) * 2 ^ k) e - unat a"
    "burst_bytes cfg pa psz a \<le> burstSize cfg" "0 < burst_bytes cfg pa psz a"
proof -
  let ?B = "2 ^ k :: nat"
  have c: "unat a < e" "(unat a div ?B + n) * ?B < e" "e \<le> (unat a div ?B + Suc n) * ?B" using assms(3) by (simp_all add: covers_def)
  have nb: "unat (next_burst cfg a) = (unat a div ?B + 1) * ?B"
    by (rule unat_next_burst [OF assms(1)]) (use assms(2,5) c(1) in simp_all)
  then have d: "unat (next_burst cfg a) div ?B = unat a div ?B + 1" by simp
  show "covers k (next_burst cfg a) e n"
  proof (cases n)
    case (Suc m)
    have "(unat a div ?B + 1) * ?B \<le> (unat a div ?B + n) * ?B" using Suc by (intro mult_le_mono1) simp
    then have "unat (next_burst cfg a) < e" using c(2) unfolding nb by linarith
    then show ?thesis using c Suc unfolding covers_def d by (simp add: algebra_simps)
  qed (simp add: covers_def)
  have "e < 2 ^ 64" using assms(5) by linarith
  then have e: "unat (pa + of_nat psz) = e"
    using assms(4) by (simp add: unat_word_ariths unsigned_of_nat take_bit_nat_eq_self)
  define m where "m = min ((unat a div ?B + 1) * ?B) e"
  have um: "unat (min (next_burst cfg a) (pa + of_nat psz)) = m"
    unfolding m_def by (simp add: min_def word_le_nat_alt e nb)
  have less: "unat a < (unat a div ?B + 1) * ?B" using dividend_less_div_times [of ?B "unat a"] by simp
  have "(unat a div ?B + 1) * ?B \<le> unat a + ?B" using div_times_less_eq_dividend [of "unat a" ?B] by simp
  then have m: "unat a < m" "m - unat a \<le> ?B" using less c(1) unfolding m_def by linarith+
  have "unat (min (next_burst cfg a) (pa + of_nat psz) - a) = m - unat a"
    using m(1) um by (simp add: unat_sub_if')
  moreover have "?B < 2 ^ 32" using assms(2) by (intro power_strict_increasing) simp_all
  then have "(m - unat a) mod 2 ^ 32 = m - unat a" using m(2) by (intro mod_less) linarith
  ultimately have b: "burst_bytes cfg pa psz a = m - unat a" by (simp add: burst_bytes_def)
  then show "burst_bytes cfg pa psz a = min ((unat a div 2 ^ k + 1) * 2 ^ k) e - unat a" by (simp add: m_def)
  show "burst_bytes cfg pa psz a \<le> burstSize cfg" "0 < burst_bytes cfg pa psz a" using b m assms(1) by simp_all
qed

section \<open>The invariant of the controller\<close>

text \<open>
  \<open>good\<close> is what the memory behind the controller keeps, \<open>served\<close> the packets it accepts. Reads wait
  to be answered; of the writes only the timing is left.
\<close>

definition read_entry :: "config \<Rightarrow> (packet \<Rightarrow> bool) \<Rightarrow> dram_packet \<Rightarrow> bool" where
  "read_entry cfg served p \<longleftrightarrow> pkt_ok cfg p \<and> dp_isRead p \<and> \<not> is_row_op p \<and> served (dp_pkt p)"

definition write_entry :: "config \<Rightarrow> dram_packet \<Rightarrow> bool" where
  "write_entry cfg p \<longleftrightarrow> pkt_ok cfg p \<and> \<not> dp_isRead p"

text \<open>
  The queues respect their buffers; the pending row operations are the ones in the write queue; a
  marked burst is one that a queued write touches; the bus turns to writes only if there are any.
\<close>

definition queue_inv :: "config \<Rightarrow> (packet \<Rightarrow> bool) \<Rightarrow> 'm ctrl \<Rightarrow> bool" where
  "queue_inv cfg served c \<longleftrightarrow> list_all (read_entry cfg served) (readQueue c) \<and> list_all (read_entry cfg served) (respQueue c) \<and>
     list_all (write_entry cfg) (writeQueue c) \<and> length (readQueue c) + length (respQueue c) \<le> readBufferSize cfg \<and>
     length (writeQueue c) \<le> writeBufferSize cfg \<and> pendingRowOps c = int (size (filter_mset is_row_op (mset (writeQueue c)))) \<and>
     isInWriteQueue c \<subseteq> (burstAlign cfg \<circ> dp_addr) ` {p \<in> set (writeQueue c). \<not> is_row_op p} \<and>
     (busState c = WRITE \<or> busState c = READ_TO_WRITE \<longrightarrow> writeQueue c \<noteq> [])"

text \<open>A rank that waits to drain has no refresh event pending.\<close>

definition drain_ok :: "rank \<Rightarrow> bool" where
  "drain_ok r \<longleftrightarrow> (refreshState r = REF_DRAIN \<longrightarrow> refreshEvent r = None)"

text \<open>
  Responses are due in the order of their queue, the event is set for the first one, and no column
  command can give data before the last one.
\<close>

definition timing_inv :: "config \<Rightarrow> 'm ctrl \<Rightarrow> bool" where
  "timing_inv cfg c \<longleftrightarrow> ranks_inv cfg (ranks c) \<and> list_all drain_ok (ranks c) \<and> tCL cfg \<le> busBusyUntil c \<and>
     sorted (map readyTime (respQueue c)) \<and>
     respondEvent c = (if respQueue c = [] then None else Some (readyTime (hd (respQueue c)))) \<and>
     (respQueue c \<noteq> [] \<longrightarrow> columns_after (readyTime (last (respQueue c)) - (tCL cfg + tBURST cfg)) (ranks c))"

definition ctrl_inv :: "('m \<Rightarrow> bool) \<Rightarrow> (packet \<Rightarrow> bool) \<Rightarrow> config \<Rightarrow> 'm ctrl \<Rightarrow> bool" where
  "ctrl_inv good served cfg c \<longleftrightarrow> good (mem c) \<and> queue_inv cfg served c \<and> timing_inv cfg c"

lemmas ctrl_inv_defs = ctrl_inv_def queue_inv_def timing_inv_def

text \<open>Fields the invariant does not look at.\<close>

lemma ctrl_inv_frame [simp]:
  "ctrl_inv good served cfg (c\<lparr>helpers := hs\<rparr>) = ctrl_inv good served cfg c"
  "ctrl_inv good served cfg (c\<lparr>nextReqEvent := ev\<rparr>) = ctrl_inv good served cfg c"
  "ctrl_inv good served cfg (c\<lparr>pendingDelete := ps\<rparr>) = ctrl_inv good served cfg c"
  "ctrl_inv good served cfg (c\<lparr>prevArrival := t\<rparr>) = ctrl_inv good served cfg c"
  "ctrl_inv good served cfg (c\<lparr>retryRdReq := b\<rparr>) = ctrl_inv good served cfg c"
  "ctrl_inv good served cfg (c\<lparr>retryWrReq := b\<rparr>) = ctrl_inv good served cfg c"
  "ctrl_inv good served cfg (c\<lparr>retryReqs := n\<rparr>) = ctrl_inv good served cfg c"
  "ctrl_inv good served cfg (c\<lparr>timingResps := rs\<rparr>) = ctrl_inv good served cfg c"
  "ctrl_inv good served cfg (c\<lparr>drainDone := n\<rparr>) = ctrl_inv good served cfg c"
  "ctrl_inv good served cfg (c\<lparr>drainState := d\<rparr>) = ctrl_inv good served cfg c"
  "ctrl_inv good served cfg (c\<lparr>readsThisTime := n\<rparr>) = ctrl_inv good served cfg c"
  "ctrl_inv good served cfg (c\<lparr>writesThisTime := n\<rparr>) = ctrl_inv good served cfg c"
  "ctrl_inv good served cfg (c\<lparr>nextReqTime := n\<rparr>) = ctrl_inv good served cfg c"
  "ctrl_inv good served cfg (c\<lparr>activeRank := n\<rparr>) = ctrl_inv good served cfg c"
  by (simp_all add: ctrl_inv_defs)

lemma ctrl_inv_schedule_next [simp]: "ctrl_inv good served cfg (schedule_next t c) = ctrl_inv good served cfg c"
  by (simp add: schedule_next_def)

subsection \<open>Filling the queues\<close>

lemma push_read:
  assumes "ctrl_inv good served cfg c" "read_entry cfg served p" "length (readQueue c) + length (respQueue c) < readBufferSize cfg"
  shows "ctrl_inv good served cfg (c\<lparr>readQueue := readQueue c @ [p]\<rparr>)"
  using assms by (simp add: ctrl_inv_defs)

lemma push_write:
  assumes "ctrl_inv good served cfg c" "write_entry cfg p" "length (writeQueue c) < writeBufferSize cfg" "\<not> is_row_op p"
  shows "ctrl_inv good served cfg (c\<lparr>writeQueue := writeQueue c @ [p], isInWriteQueue := insert (burstAlign cfg (dp_addr p)) (isInWriteQueue c)\<rparr>)"
  using assms by (auto simp: ctrl_inv_defs)

lemma push_row_op:
  assumes "ctrl_inv good served cfg c" "write_entry cfg p" "length (writeQueue c) < writeBufferSize cfg" "is_row_op p"
  shows "ctrl_inv good served cfg (c\<lparr>writeQueue := writeQueue c @ [p], pendingRowOps := pendingRowOps c + 1\<rparr>)"
  using assms by (auto simp: ctrl_inv_defs)

lemma read_bursts_ok:
  assumes "cfg_ok cfg" "burstSize cfg = 2 ^ k" "k < 32" "e = unat pa + psz" "e + 2 ^ k < 2 ^ 64" "served pkt"
    and "ctrl_inv good served cfg c" "covers k a e n" "length (readQueue c) + length (respQueue c) + n \<le> readBufferSize cfg"
  shows "\<exists>c' h s. read_bursts cfg now pkt pa psz m n a helper found c = Some (c', h, s) \<and> ctrl_inv good served cfg c'"
  using assms(7-9)
proof (induction n arbitrary: a helper found c)
  case (Suc n)
  define sz where "sz = burst_bytes cfg pa psz a"
  note step = burst_step [OF assms(2,3) Suc.prems(2) assms(4,5)]
  define hit where "hit \<longleftrightarrow> burstAlign cfg a \<in> isInWriteQueue c \<and>
    (\<exists>p\<in>set (writeQueue c). dp_addr p \<le> a \<and> a + of_nat sz \<le> dp_addr p + of_nat (dp_size p))"
  define c1 where "c1 = (if m > 1 \<and> helper = None then c\<lparr>helpers := helpers c @ [\<lparr>burstCount = m, burstsServiced = 0\<rparr>]\<rparr> else c)"
  define h1 where "h1 = (if m > 1 \<and> helper = None then Some (length (helpers c)) else helper)"
  have c1: "ctrl_inv good served cfg c1" "readQueue c1 = readQueue c" "respQueue c1 = respQueue c" using Suc.prems(1) by (simp_all add: c1_def)
  obtain p where p: "decodeAddr cfg now pkt a sz True = Some p" "pkt_ok cfg p" "dp_isRead p" "\<not> is_row_op p" "dp_pkt p = pkt"
    using decodeAddr_ok [OF assms(1) step(3), of now pkt a True] by (auto simp: sz_def)
  have "read_entry cfg served (p\<lparr>burstHelper := h1\<rparr>)" using p assms(6) by (simp add: read_entry_def pkt_ok_def)
  with push_read [OF c1(1) this] Suc.prems(3) have c2: "ctrl_inv good served cfg (c1\<lparr>readQueue := readQueue c1 @ [p\<lparr>burstHelper := h1\<rparr>]\<rparr>)"
    by (simp add: c1)
  have "read_bursts cfg now pkt pa psz m (Suc n) a helper found c =
      (if hit then read_bursts cfg now pkt pa psz m n (next_burst cfg a) helper (found + 1) c
       else read_bursts cfg now pkt pa psz m n (next_burst cfg a) h1 found (c1\<lparr>readQueue := readQueue c1 @ [p\<lparr>burstHelper := h1\<rparr>]\<rparr>))"
    using p(1) Suc.prems(3) by (simp add: sz_def [symmetric] hit_def [symmetric] Let_def c1_def h1_def readQueueFull_def)
  then show ?case
    using Suc.IH [OF Suc.prems(1) step(1)] Suc.IH [OF c2 step(1)] Suc.prems(3) c1(2,3) by simp
qed simp

lemma write_bursts_ok:
  assumes "cfg_ok cfg" "burstSize cfg = 2 ^ k" "k < 32" "e = unat pa + psz" "e + 2 ^ k < 2 ^ 64"
    and "ctrl_inv good served cfg c" "covers k a e n" "length (writeQueue c) + n \<le> writeBufferSize cfg"
  shows "\<exists>c'. write_bursts cfg now pkt pa psz n a c = Some c' \<and> ctrl_inv good served cfg c'"
  using assms(6-8)
proof (induction n arbitrary: a c)
  case (Suc n)
  note step = burst_step [OF assms(2,3) Suc.prems(2) assms(4,5)]
  obtain p where p: "decodeAddr cfg now pkt a (burst_bytes cfg pa psz a) False = Some p" "pkt_ok cfg p" "\<not> dp_isRead p" "\<not> is_row_op p"
      "dp_addr p = a"
    using decodeAddr_ok [OF assms(1) step(3), of now pkt a False] by auto
  have "write_entry cfg p" using p by (simp add: write_entry_def)
  from push_write [OF Suc.prems(1) this _ p(4)] Suc.prems(3) p(5) have
    "ctrl_inv good served cfg (c\<lparr>writeQueue := writeQueue c @ [p], isInWriteQueue := insert (burstAlign cfg a) (isInWriteQueue c)\<rparr>)" by simp
  from Suc.IH [OF this step(1)] Suc.IH [OF Suc.prems(1) step(1)] Suc.prems(3) p(1) show ?case by simp
qed simp

end
