(* ===== verification/Dram_Ctrl.thy ===== *)
theory Dram_Ctrl
  imports Dram_Front
begin

text \<open>
  The DRAM controller as a whole (\<open>gem5/src/mem/dram_ctrl.cc\<close>): its construction, start, draining and
  resuming, the contract it needs of the memory behind it, and its handlers, which return and keep the
  invariant of the controller whatever that memory is.
\<close>

section \<open>Starting and draining\<close>

definition new_ctrl :: "config \<Rightarrow> 'm \<Rightarrow> 'm ctrl" where
  "new_ctrl cfg m = \<lparr>isTimingMode = False, ranks = map (new_rank cfg) [0..<ranksPerChannel cfg], readQueue = [], writeQueue = [], respQueue = [],
     isInWriteQueue = {}, helpers = [], retryRdReq = False, retryWrReq = False, busState = READ, pendingRowOps = 0,
     nextReqEvent = None, respondEvent = None, writesThisTime = 0, readsThisTime = 0, busBusyUntil = 0, prevArrival = 0,
     nextReqTime = 0, activeRank = 0, pendingDelete = [], drainState = Running, drainDone = 0, timingResps = [], retryReqs = 0, mem = m\<rparr>"

primrec startup_ranks :: "nat \<Rightarrow> nat \<Rightarrow> rank list \<Rightarrow> rank list option" where
  "startup_ranks now ref_tick [] = Some []"
| "startup_ranks now ref_tick (r # rs) = do {
     r \<leftarrow> rank_startup now ref_tick r;
     rs \<leftarrow> startup_ranks now ref_tick rs;
     Some (r # rs) }"

definition startup :: "config \<Rightarrow> nat \<Rightarrow> bool \<Rightarrow> 'm ctrl \<Rightarrow> 'm ctrl option" where
  "startup cfg now timing c =
     (let c = c\<lparr>isTimingMode := timing\<rparr> in
      if timing then do {
        rs \<leftarrow> startup_ranks now (tick_sub (now + tREFI cfg) (tRP cfg)) (ranks c);
        Some (c\<lparr>ranks := rs, busBusyUntil := now + tRP cfg + tRCD cfg + tCL cfg\<rparr>) }
      else Some c)"

text \<open>An access without timing, with the latency it is charged.\<close>

definition recvAtomic :: "(packet \<Rightarrow> 'm \<Rightarrow> (packet \<times> 'm) option) \<Rightarrow> config \<Rightarrow> packet \<Rightarrow> 'm ctrl \<Rightarrow> (nat \<times> packet \<times> 'm ctrl) option" where
  "recvAtomic acc cfg pkt c = do {
     (pkt, m) \<leftarrow> acc pkt (mem c);
     Some (if \<not> memInhibitAsserted pkt \<and> hasData pkt then tRP cfg + tRCD cfg + tCL cfg else 0, pkt, c\<lparr>mem := m\<rparr>) }"

text \<open>The debugging access of the port, of a controller whose memory is the physical memory.\<close>

definition recvFunctional :: "packet \<Rightarrow> memory ctrl \<Rightarrow> (packet \<times> memory ctrl) option" where
  "recvFunctional pkt c = do { (pkt, m) \<leftarrow> functionalAccess pkt (mem c); Some (pkt, c\<lparr>mem := m\<rparr>) }"

definition drain :: "nat \<Rightarrow> 'm ctrl \<Rightarrow> 'm ctrl" where
  "drain now c =
     (if \<not> (writeQueue c = [] \<and> readQueue c = [] \<and> respQueue c = [])
      then (if writeQueue c \<noteq> [] then schedule_next now c else c)\<lparr>drainState := Draining\<rparr>
      else c\<lparr>drainState := Drained\<rparr>)"

primrec suspend_ranks :: "rank list \<Rightarrow> rank list option" where
  "suspend_ranks [] = Some []"
| "suspend_ranks (r # rs) = do { r \<leftarrow> rank_suspend r; rs \<leftarrow> suspend_ranks rs; Some (r # rs) }"

definition drainResume :: "config \<Rightarrow> nat \<Rightarrow> bool \<Rightarrow> 'm ctrl \<Rightarrow> 'm ctrl option" where
  "drainResume cfg now timing c = do {
     c \<leftarrow> (if \<not> isTimingMode c \<and> timing then startup cfg now timing c
           else if isTimingMode c \<and> \<not> timing then do { rs \<leftarrow> suspend_ranks (ranks c); Some (c\<lparr>ranks := rs\<rparr>) }
           else Some c);
     Some (c\<lparr>isTimingMode := timing\<rparr>) }"

lemma startup_ranks_ok:
  assumes "list_all (\<lambda>r. refreshEvent r = None) rs" "now < t"
  shows "startup_ranks now t rs = Some (map (\<lambda>r. r\<lparr>pwrStateTick := now, refreshEvent := Some t\<rparr>) rs)"
  using assms by (induction rs) (simp_all add: rank_startup_def schedule_event_def)

text \<open>A controller that is started in timing mode satisfies the invariant.\<close>

lemma startup_ok:
  assumes "tRP cfg < tREFI cfg" "good m"
  shows "\<exists>c. startup cfg now True (new_ctrl cfg m) = Some c \<and> ctrl_inv good served cfg c"
proof -
  let ?rs = "map (\<lambda>r. r\<lparr>pwrStateTick := now, refreshEvent := Some (now + tREFI cfg - tRP cfg)\<rparr>) (ranks (new_ctrl cfg m))"
  have "startup_ranks now (now + tREFI cfg - tRP cfg) (ranks (new_ctrl cfg m)) = Some ?rs"
    by (rule startup_ranks_ok) (use assms(1) in \<open>simp_all add: new_ctrl_def new_rank_def list_all_iff\<close>)
  moreover have "rank_inv cfg (new_rank cfg i\<lparr>pwrStateTick := now, refreshEvent := ev\<rparr>)" for i ev
    using new_rank_inv [of cfg i] by (simp add: rank_inv_def)
  then have "ranks_inv cfg ?rs" "list_all drain_ok ?rs"
    by (simp_all add: ranks_inv_def new_ctrl_def list_all_iff drain_ok_def new_rank_def)
  ultimately show ?thesis
    using assms by (simp add: startup_def tick_sub_def ctrl_inv_defs) (simp add: new_ctrl_def)
qed

lemma drain_ok_ctrl: "ctrl_inv good served cfg c \<Longrightarrow> ctrl_inv good served cfg (drain now c)"
  by (simp add: drain_def)

section \<open>Requests the controller accepts\<close>

text \<open>The operands of a row operation lie in one bank.\<close>

definition same_bank :: "config \<Rightarrow> 64 word \<Rightarrow> 64 word \<Rightarrow> bool" where
  "same_bank cfg a b \<longleftrightarrow> (case decode_parts cfg (unat a) of (r1, b1, _) \<Rightarrow> case decode_parts cfg (unat b) of (r2, b2, _) \<Rightarrow> r1 = r2 \<and> b1 = b2)"

definition row_op_ok :: "config \<Rightarrow> rowop_payload \<Rightarrow> bool" where
  "row_op_ok cfg pl \<longleftrightarrow> (pl_op pl \<noteq> ROWAP \<longrightarrow> same_bank cfg (pl_dest pl) (pl_src1 pl)) \<and>
     (pl_op pl \<noteq> ROWNOT \<and> pl_op pl \<noteq> ROWAAP \<and> pl_op pl \<noteq> ROWAP \<longrightarrow> same_bank cfg (pl_dest pl) (pl_src2 pl))"

text \<open>A request: not both a read and a write, some bytes that end before the last burst of the address space.\<close>

definition request_ok :: "config \<Rightarrow> (packet \<Rightarrow> bool) \<Rightarrow> packet \<Rightarrow> bool" where
  "request_ok cfg served p \<longleftrightarrow> served p \<and> \<not> (isRead p \<and> isWrite p) \<and>
     (\<exists>a sz. getAddr p = Some a \<and> getSize p = Some sz \<and> 0 < sz \<and> unat a + sz + burstSize cfg < 2 ^ 64) \<and>
     (isWrite p \<and> isRowOp (req p) \<longrightarrow> (\<exists>pl. getPayload p = Some pl \<and> row_op_ok cfg pl))"

lemma enqueue_row_op_ok:
  assumes "cfg_ok cfg" "ctrl_inv good served cfg c" "getPayload pkt = Some pl" "row_op_ok cfg pl" "length (writeQueue c) < writeBufferSize cfg"
  shows "\<exists>c'. enqueue_row_op cfg now pkt c = Some c' \<and> ctrl_inv good served cfg c'"
proof -
  obtain d where d: "decodeAddr cfg now pkt (pl_dest pl) 0 False = Some d" "pkt_ok cfg d" "\<not> dp_isRead d"
      "(dp_rank d, dp_bank d, unat (dp_row d)) = decode_parts cfg (unat (pl_dest pl))"
    using decodeAddr_ok [OF assms(1), of 0 now pkt "pl_dest pl" False] by auto
  obtain s1 where s1: "decodeAddr cfg now pkt (pl_src1 pl) 0 False = Some s1"
      "(dp_rank s1, dp_bank s1, unat (dp_row s1)) = decode_parts cfg (unat (pl_src1 pl))"
    using decodeAddr_ok [OF assms(1), of 0 now pkt "pl_src1 pl" False] by auto
  obtain s2 where s2: "decodeAddr cfg now pkt (pl_src2 pl) 0 False = Some s2"
      "(dp_rank s2, dp_bank s2, unat (dp_row s2)) = decode_parts cfg (unat (pl_src2 pl))"
    using decodeAddr_ok [OF assms(1), of 0 now pkt "pl_src2 pl" False] by auto
  define p where "p = d\<lparr>is_row_op := True, dp_row_op := pl_op pl, src1_row := dp_row s1, src2_row := dp_row s2\<rparr>"
  have "same_bank cfg (pl_dest pl) (pl_src1 pl) \<longleftrightarrow> dp_rank d = dp_rank s1 \<and> dp_bank d = dp_bank s1"
    "same_bank cfg (pl_dest pl) (pl_src2 pl) \<longleftrightarrow> dp_rank d = dp_rank s2 \<and> dp_bank d = dp_bank s2"
    by (simp_all add: same_bank_def d(4) [symmetric] s1(2) [symmetric] s2(2) [symmetric])
  then have "enqueue_row_op cfg now pkt c = Some (c\<lparr>writeQueue := writeQueue c @ [p], pendingRowOps := pendingRowOps c + 1\<rparr>)"
    using assms(3,4) d(1) s1(1) s2(1) by (auto simp: enqueue_row_op_def row_op_ok_def p_def)
  moreover have "write_entry cfg p" using d(2,3) by (simp add: write_entry_def pkt_ok_def p_def)
  ultimately show ?thesis using push_row_op [OF assms(2) _ assms(5)] by (simp add: p_def)
qed

section \<open>The memory behind the controller\<close>

text \<open>What the controller relies on: a packet it passes on is served, and answered if it asks for it.\<close>

locale memory_port =
  fixes acc :: "packet \<Rightarrow> 'm \<Rightarrow> (packet \<times> 'm) option"
    and good :: "'m \<Rightarrow> bool"
    and served :: "packet \<Rightarrow> bool"
  assumes acc_ok: "\<And>p m. served p \<Longrightarrow> good m \<Longrightarrow>
    \<exists>p' m'. acc p m = Some (p', m') \<and> good m' \<and> (needsResponse p \<longrightarrow> isResponse p')"
begin

lemma answer_ok:
  assumes "good (mem c)" "served p"
  shows "\<exists>c'. accessAndRespond acc now p lat c = Some c' \<and> good (mem c') \<and>
    c' = c\<lparr>mem := mem c', pendingDelete := pendingDelete c', timingResps := timingResps c'\<rparr>"
proof -
  obtain p' m' where "acc p (mem c) = Some (p', m')" "good m'" "needsResponse p \<longrightarrow> isResponse p'"
    using acc_ok [OF assms(2,1)] by blast
  then show ?thesis by (cases "needsResponse p") (simp_all add: accessAndRespond_def)
qed

lemma answer_inv:
  assumes "ctrl_inv good served cfg c" "served p"
  shows "\<exists>c'. accessAndRespond acc now p lat c = Some c' \<and> ctrl_inv good served cfg c'"
proof -
  have "good (mem c)" using assms(1) by (simp add: ctrl_inv_def)
  from answer_ok [OF this assms(2), of now lat] obtain c' where c': "accessAndRespond acc now p lat c = Some c'" "good (mem c')"
    "c' = c\<lparr>mem := mem c', pendingDelete := pendingDelete c', timingResps := timingResps c'\<rparr>" by blast
  have "ctrl_inv good served cfg (c\<lparr>mem := mem c', pendingDelete := pendingDelete c', timingResps := timingResps c'\<rparr>)"
    using assms(1) c'(2) by (simp add: ctrl_inv_defs)
  then show ?thesis using c'(1,3) by metis
qed

lemma addToReadQueue_ok:
  assumes "cfg_ok cfg" "ctrl_inv good served cfg c" "served p" "\<not> isWrite p" "getAddr p = Some a" "getSize p = Some sz" "0 < sz"
    and "unat a + sz + burstSize cfg < 2 ^ 64" "\<not> readQueueFull cfg (dram_pkt_count cfg a sz) c"
  shows "\<exists>c'. addToReadQueue acc cfg now p (dram_pkt_count cfg a sz) c = Some c' \<and> ctrl_inv good served cfg c'"
proof -
  obtain k where k: "burstSize cfg = 2 ^ k" "k < 32" using assms(1) by (auto simp: cfg_ok_def)
  have "k < 64" using k(2) by simp
  note cov = covers_start [OF k(1) this assms(7), of a]
  have room: "length (readQueue c) + length (respQueue c) + dram_pkt_count cfg a sz \<le> readBufferSize cfg"
    using assms(9) by (simp add: readQueueFull_def)
  obtain c1 h s where c1: "read_bursts cfg now p a sz (dram_pkt_count cfg a sz) (dram_pkt_count cfg a sz) a None 0 c = Some (c1, h, s)"
      "ctrl_inv good served cfg c1"
    using read_bursts_ok [OF assms(1) k refl _ assms(3,2) cov(1) room] assms(8) k(1) by metis
  from answer_inv [OF c1(2) assms(3), of now "frontendLatency cfg"] show ?thesis
    using c1 cov(2) assms(4-6) by (auto simp: addToReadQueue_def split: option.splits)
qed

lemma addToWriteQueue_ok:
  assumes "cfg_ok cfg" "ctrl_inv good served cfg c" "request_ok cfg served p" "isWrite p" "getAddr p = Some a" "getSize p = Some sz"
    and "\<not> writeQueueFull cfg (dram_pkt_count cfg a sz) c"
  shows "\<exists>c'. addToWriteQueue acc cfg now p (dram_pkt_count cfg a sz) c = Some c' \<and> ctrl_inv good served cfg c'"
proof -
  obtain k where k: "burstSize cfg = 2 ^ k" "k < 32" using assms(1) by (auto simp: cfg_ok_def)
  have ok: "served p" "0 < sz" "unat a + sz + 2 ^ k < 2 ^ 64" using assms(3,5,6) k(1) by (auto simp: request_ok_def)
  have "k < 64" using k(2) by simp
  note cov = covers_start [OF k(1) this ok(2), of a]
  have room: "length (writeQueue c) + dram_pkt_count cfg a sz \<le> writeBufferSize cfg"
    using assms(7) by (simp add: writeQueueFull_def)
  have "\<exists>c1. (if isRowOp (req p) then enqueue_row_op cfg now p c else write_bursts cfg now p a sz (dram_pkt_count cfg a sz) a c) = Some c1 \<and>
      ctrl_inv good served cfg c1"
    using enqueue_row_op_ok [OF assms(1,2)] write_bursts_ok [OF assms(1) k refl ok(3) assms(2) cov(1) room] assms(3,4) room cov(2)
    by (fastforce simp: request_ok_def)
  then obtain c1 where c1: "(if isRowOp (req p) then enqueue_row_op cfg now p c
      else write_bursts cfg now p a sz (dram_pkt_count cfg a sz) a c) = Some c1" "ctrl_inv good served cfg c1" by blast
  from answer_inv [OF c1(2) ok(1), of now "frontendLatency cfg"] show ?thesis
    using c1(1) assms(4-6) by (auto simp: addToWriteQueue_def split: if_splits)
qed

lemma recvTimingReq_ok:
  assumes "cfg_ok cfg" "ctrl_inv good served cfg c" "request_ok cfg served p"
  shows "\<exists>b c'. recvTimingReq acc cfg now p c = Some (b, c') \<and> ctrl_inv good served cfg c'"
proof (cases "memInhibitAsserted p \<or> cmd p = CleanEvict")
  case True
  then show ?thesis using assms(2) by (auto simp: recvTimingReq_def)
next
  case False
  obtain a sz where ok: "getAddr p = Some a" "getSize p = Some sz" "0 < sz" "unat a + sz + burstSize cfg < 2 ^ 64" "served p"
      "\<not> (isRead p \<and> isWrite p)"
    using assms(3) by (auto simp: request_ok_def)
  define c1 where "c1 = c\<lparr>pendingDelete := [], prevArrival := now\<rparr>"
  have c1: "ctrl_inv good served cfg c1" using assms(2) by (simp add: c1_def)
  have run: "recvTimingReq acc cfg now p c =
      (if isRead p then (if readQueueFull cfg (dram_pkt_count cfg a sz) c1 then Some (False, c1\<lparr>retryRdReq := True\<rparr>)
         else map_option (Pair True) (addToReadQueue acc cfg now p (dram_pkt_count cfg a sz) c1))
       else if isWrite p then (if writeQueueFull cfg (dram_pkt_count cfg a sz) c1 then Some (False, c1\<lparr>retryWrReq := True\<rparr>)
         else map_option (Pair True) (addToWriteQueue acc cfg now p (dram_pkt_count cfg a sz) c1))
       else map_option (Pair True) (accessAndRespond acc now p 1 c1))"
    using False ok by (simp add: recvTimingReq_def c1_def)
  consider "isRead p" "\<not> isWrite p" | "\<not> isRead p" "isWrite p" | "\<not> isRead p" "\<not> isWrite p" using ok(6) by blast
  then show ?thesis
  proof cases
    case 1
    with addToReadQueue_ok [OF assms(1) c1 ok(5) 1(2) ok(1-4), of now] c1 show ?thesis unfolding run by auto
  next
    case 2
    with addToWriteQueue_ok [OF assms(1) c1 assms(3) 2(2) ok(1,2), of now] c1 show ?thesis unfolding run by auto
  next
    case 3
    with answer_inv [OF c1 ok(5), of now 1] show ?thesis unfolding run by auto
  qed
qed

lemma respond_front_ok:
  assumes "good (mem c)" "served (dp_pkt p)"
  shows "\<exists>c'. respond_front acc cfg now p c = Some c' \<and> good (mem c') \<and>
    c' = c\<lparr>helpers := helpers c', mem := mem c', pendingDelete := pendingDelete c', timingResps := timingResps c'\<rparr>"
proof (cases "burstHelper p")
  case None
  from answer_ok [OF assms, of now "frontendLatency cfg + backendLatency cfg"] obtain c' where
    c': "accessAndRespond acc now (dp_pkt p) (frontendLatency cfg + backendLatency cfg) c = Some c'" "good (mem c')"
    "c' = c\<lparr>mem := mem c', pendingDelete := pendingDelete c', timingResps := timingResps c'\<rparr>" by blast
  moreover from arg_cong [OF c'(3), of helpers] have "c\<lparr>helpers := helpers c'\<rparr> = c" by (cases c) simp
  ultimately show ?thesis by (simp add: respond_front_def None)
next
  case (Some h)
  define b where "b = (helpers c ! h)\<lparr>burstsServiced := burstsServiced (helpers c ! h) + 1\<rparr>"
  define c1 where "c1 = c\<lparr>helpers := (helpers c)[h := b]\<rparr>"
  have "good (mem c1)" using assms(1) by (simp add: c1_def)
  from answer_ok [OF this assms(2), of now "frontendLatency cfg + backendLatency cfg"] obtain c' where
    c': "accessAndRespond acc now (dp_pkt p) (frontendLatency cfg + backendLatency cfg) c1 = Some c'" "good (mem c')"
    "c' = c1\<lparr>mem := mem c', pendingDelete := pendingDelete c', timingResps := timingResps c'\<rparr>" by blast
  have run: "respond_front acc cfg now p c = (if burstsServiced b = burstCount b
      then accessAndRespond acc now (dp_pkt p) (frontendLatency cfg + backendLatency cfg) c1 else Some c1)"
    unfolding respond_front_def Some option.case Let_def b_def [symmetric] c1_def [symmetric] ..
  from arg_cong [OF c'(3), of helpers] have "c\<lparr>helpers := helpers c'\<rparr> = c1" by (simp add: c1_def)
  with c' assms(1) show ?thesis unfolding run by (cases "burstsServiced b = burstCount b") (simp_all add: c1_def)
qed

lemma processRespondEvent_ok:
  assumes "ctrl_inv good served cfg c" "respondEvent c = Some now"
  shows "\<exists>c'. processRespondEvent acc cfg now c = Some c' \<and> ctrl_inv good served cfg c'"
proof -
  obtain p ps where q: "respQueue c = p # ps" "readyTime p = now"
    using assms by (cases "respQueue c") (auto simp: ctrl_inv_defs)
  have "good (mem (c\<lparr>respondEvent := None\<rparr>))" "served (dp_pkt p)" using assms(1) q by (auto simp: ctrl_inv_defs read_entry_def)
  from respond_front_ok [OF this, of cfg now] obtain c1 where c1: "respond_front acc cfg now p (c\<lparr>respondEvent := None\<rparr>) = Some c1" "good (mem c1)"
      "c1 = c\<lparr>respondEvent := None, helpers := helpers c1, mem := mem c1, pendingDelete := pendingDelete c1, timingResps := timingResps c1\<rparr>"
    by auto
  define ev where "ev = (if ps = [] then None else Some (readyTime (hd ps)))"
  have "ctrl_inv good served cfg (c\<lparr>helpers := helpers c1, mem := mem c1, pendingDelete := pendingDelete c1,
      timingResps := timingResps c1, respQueue := ps, respondEvent := ev\<rparr>)"
    using assms(1) q c1(2) by (auto simp: ctrl_inv_defs ev_def)
  moreover define c2 where "c2 = c1\<lparr>respQueue := ps, respondEvent := ev\<rparr>"
  ultimately have inv: "ctrl_inv good served cfg c2" unfolding c2_def by (subst c1(3)) simp
  have due: "now \<le> readyTime (hd ps)" if "ps \<noteq> []" using assms(1) q that by (cases ps) (auto simp: ctrl_inv_defs)
  have none: "respondEvent c1 = None" by (subst c1(3)) simp
  have "processRespondEvent acc cfg now c = Some (let c = (if ps = [] \<and> drainState c2 = Draining \<and> writeQueue c2 = [] \<and> readQueue c2 = []
      then signal_drained c2 else c2) in if retryRdReq c then c\<lparr>retryRdReq := False, retryReqs := retryReqs c + 1\<rparr> else c)"
  proof (cases ps)
    case Nil
    then have "c1\<lparr>respQueue := []\<rparr> = c2" using none by (cases c1) (simp add: c2_def ev_def)
    with Nil c1(1) q(1) show ?thesis by (simp add: processRespondEvent_def Let_def)
  next
    case (Cons x xs)
    then have "c1\<lparr>respQueue := x # xs, respondEvent := Some (readyTime x)\<rparr> = c2" by (simp add: c2_def ev_def)
    with Cons c1(1) q(1) due show ?thesis by (simp add: processRespondEvent_def Let_def)
  qed
  then show ?thesis using inv by (simp add: signal_drained_def Let_def)
qed

end

section \<open>The next request\<close>

text \<open>Ranks that wait to drain go on to the precharge.\<close>

definition drain_done :: "nat \<Rightarrow> rank \<Rightarrow> rank" where
  "drain_done now r = (if refreshState r = REF_DRAIN then r\<lparr>refreshState := REF_PRE, refreshEvent := Some now\<rparr> else r)"

lemma check_ranks_ok:
  assumes "list_all drain_ok rs"
  shows "\<exists>n. check_ranks now rs = Some (map (drain_done now) rs, n)"
  using assms
  by (induction rs) (auto simp: checkDrainDone_def drain_done_def drain_ok_def schedule_event_def isAvailable_def)

lemma drain_done_inv:
  assumes "ctrl_inv good served cfg c"
  shows "ctrl_inv good served cfg (c\<lparr>ranks := map (drain_done now) (ranks c)\<rparr>)"
proof -
  have b: "banks (drain_done now r) = banks r" "rank_inv cfg (drain_done now r) = rank_inv cfg r" "drain_ok (drain_done now r)" if "drain_ok r" for r
    using that by (simp_all add: drain_done_def rank_inv_def drain_ok_def)
  moreover have "list_all drain_ok (ranks c)" using assms by (simp add: ctrl_inv_defs)
  ultimately have "columns_after t (map (drain_done now) (ranks c)) = columns_after t (ranks c)"
    "list_all (rank_inv cfg) (map (drain_done now) (ranks c)) = list_all (rank_inv cfg) (ranks c)"
    "list_all drain_ok (map (drain_done now) (ranks c))" for t
    by (auto simp: columns_after_def list_all_iff)
  then show ?thesis using assms by (simp add: ctrl_inv_defs ranks_inv_def)
qed

lemma permute_read:
  assumes "ctrl_inv good served cfg c" "mset q = mset (readQueue c)"
  shows "ctrl_inv good served cfg (c\<lparr>readQueue := q\<rparr>)"
  using assms mset_eq_setD [OF assms(2)] mset_eq_length [OF assms(2)] by (simp add: ctrl_inv_defs list_all_iff)

lemma permute_write:
  assumes "ctrl_inv good served cfg c" "mset q = mset (writeQueue c)"
  shows "ctrl_inv good served cfg (c\<lparr>writeQueue := q\<rparr>)"
  using assms mset_eq_setD [OF assms(2)] mset_eq_length [OF assms(2)] by (auto simp: ctrl_inv_defs list_all_iff)

lemma delay_bus:
  assumes "ctrl_inv good served cfg c"
  shows "ctrl_inv good served cfg (c\<lparr>busBusyUntil := busBusyUntil c + t\<rparr>)"
  using assms by (simp add: ctrl_inv_defs)

lemma drain_ok_later: "list_all drain_ok rs \<Longrightarrow> list_all2 later rs rs' \<Longrightarrow> list_all drain_ok rs'"
  by (auto simp: list_all_length list_all2_conv_all_nth drain_ok_def later_def)

lemma access_frame:
  assumes "access_done cfg now p c p' c'"
  shows "respQueue c' = respQueue c" "respondEvent c' = respondEvent c" "readQueue c' = readQueue c" "writeQueue c' = writeQueue c" "busState c' = busState c" "mem c' = mem c" "isInWriteQueue c' = isInWriteQueue c"
    "pendingRowOps c' = pendingRowOps c - of_bool (is_row_op p)"
proof -
  have e: "c' = c\<lparr>ranks := ranks c', activeRank := dp_rank p, busBusyUntil := busBusyUntil c', nextReqTime := nextReqTime c',
       readsThisTime := readsThisTime c', writesThisTime := writesThisTime c', pendingRowOps := pendingRowOps c - of_bool (is_row_op p)\<rparr>"
    using assms by (simp add: access_done_def)
  show "respQueue c' = respQueue c" by (subst e) simp
  show "respondEvent c' = respondEvent c" by (subst e) simp
  show "readQueue c' = readQueue c" by (subst e) simp
  show "writeQueue c' = writeQueue c" by (subst e) simp
  show "busState c' = busState c" by (subst e) simp
  show "mem c' = mem c" by (subst e) simp
  show "isInWriteQueue c' = isInWriteQueue c" by (subst e) simp
  show "pendingRowOps c' = pendingRowOps c - of_bool (is_row_op p)" by (subst e) simp
qed

text \<open>A read leaves the read queue for the response queue, behind all responses that are due.\<close>

lemma pop_read:
  assumes "ctrl_inv good served cfg c" "readQueue c = p # ps" "access_done cfg now p c p' c'"
    and "busBusyUntil c' = t + tCL cfg + tBURST cfg" "colAllowedAt (banks (ranks c ! dp_rank p) ! dp_bank p) \<le> t" "columns_after t (ranks c')"
  shows "\<exists>c2. queue_response now p' (c'\<lparr>readQueue := ps\<rparr>) = Some c2 \<and> ctrl_inv good served cfg c2 \<and>
    writeQueue c2 = writeQueue c \<and> pendingRowOps c2 = pendingRowOps c \<and> busState c2 = busState c"
proof -
  have entry: "read_entry cfg served p" using assms(1,2) by (simp add: ctrl_inv_defs)
  have c': "p' = p\<lparr>readyTime := busBusyUntil c'\<rparr>" "now \<le> busBusyUntil c'" "tCL cfg \<le> busBusyUntil c'" "ranks_inv cfg (ranks c')"
      "list_all2 later (ranks c) (ranks c')"
    using assms(3) by (simp_all add: access_done_def)
  note eq = access_frame [OF assms(3)]
  have "pendingRowOps c' = pendingRowOps c" using eq(8) entry by (simp add: read_entry_def)
  note eq = eq(1-7) this
  have "read_entry cfg served p'" using entry c'(1) by (simp add: read_entry_def pkt_ok_def)
  moreover have "list_all drain_ok (ranks c')" using drain_ok_later c'(5) assms(1) by (auto simp: ctrl_inv_defs)
  moreover have last: "readyTime (last (respQueue c)) \<le> readyTime p'" if "respQueue c \<noteq> []"
  proof -
    have "dp_rank p < length (ranks c)" "dp_bank p < length (banks (ranks c ! dp_rank p))"
      using entry assms(1) by (auto simp: ctrl_inv_defs ranks_inv_def list_all_length rank_inv_def read_entry_def pkt_ok_def)
    moreover have "columns_after (readyTime (last (respQueue c)) - (tCL cfg + tBURST cfg)) (ranks c)"
      using assms(1) that by (simp add: ctrl_inv_defs)
    ultimately have "readyTime (last (respQueue c)) - (tCL cfg + tBURST cfg) \<le> colAllowedAt (banks (ranks c ! dp_rank p) ! dp_bank p)"
      unfolding columns_after_def by (meson nth_mem)
    then show ?thesis using assms(4,5) c'(1) by simp
  qed
  moreover have "sorted (map readyTime (respQueue c @ [p']))"
  proof -
    have "readyTime x \<le> readyTime (last (respQueue c))" if "x \<in> set (respQueue c)" for x
      using that assms(1) by (cases "respQueue c" rule: rev_cases) (auto simp: ctrl_inv_defs sorted_append)
    then show ?thesis using assms(1) last by (fastforce simp: ctrl_inv_defs sorted_append)
  qed
  ultimately show ?thesis
    using assms(1,2,4,6) c' eq by (auto simp: queue_response_def schedule_event_def ctrl_inv_defs)
qed

lemma next_read_ok:
  assumes "cfg_ok cfg" "ctrl_inv good served cfg c" "busState c = READ"
  shows "\<exists>more c'. next_read cfg now sw c = Some (more, c') \<and> ctrl_inv good served cfg c'"
proof (cases "readQueue c = []")
  case True
  then show ?thesis using assms(2) by (auto simp: next_read_def signal_drained_def) (auto simp: ctrl_inv_defs)
next
  case False
  define extra where "extra = (if sw then tCS cfg else 0)"
  have "list_all (pkt_ok cfg) (readQueue c)" using assms(2) by (auto simp: ctrl_inv_defs read_entry_def list_all_iff)
  from chooseNext_ok [OF False this, of now "ranks c" "busBusyUntil c" extra] obtain found q where
    q: "chooseNext cfg now (ranks c) (busBusyUntil c) extra (readQueue c) = Some (found, q)" "mset q = mset (readQueue c)"
    "found \<longrightarrow> isAvailable (ranks c ! dp_rank (hd q))"
    using assms(1) by (auto simp: cfg_ok_def scheduled_def)
  define c0 where "c0 = c\<lparr>readQueue := q\<rparr>"
  have c0: "ctrl_inv good served cfg c0" using permute_read [OF assms(2) q(2)] by (simp add: c0_def)
  show ?thesis
  proof (cases found)
    case nf: False
    then show ?thesis using q(1) c0 False by (auto simp: next_read_def extra_def [symmetric] c0_def)
  next
    case found: True
    obtain p ps where ps: "q = p # ps" "hd q = p" using q(2) False by (cases q) auto
    define c1 where "c1 = (if sw \<and> dp_rank p = activeRank c0 then c0\<lparr>busBusyUntil := busBusyUntil c0 + (tWTR cfg + tCL cfg)\<rparr> else c0)"
    have c1: "ctrl_inv good served cfg c1" "readQueue c1 = p # ps"
      using c0 delay_bus [OF c0] ps by (auto simp: c1_def) (simp_all add: c0_def)
    have p: "pkt_ok cfg p" "\<not> is_row_op p" using c1 by (auto simp: ctrl_inv_defs read_entry_def)
    have t: "ranks_inv cfg (ranks c1)" "tCL cfg \<le> busBusyUntil c1" using c1(1) by (simp_all add: ctrl_inv_defs)
    obtain p' c2 t where a: "doDRAMAccess cfg now p c1 = Some (p', c2)" "access_done cfg now p c1 p' c2" "busBusyUntil c2 = t + tCL cfg + tBURST cfg"
        "colAllowedAt (banks (ranks c1 ! dp_rank p) ! dp_bank p) \<le> t" "columns_after t (ranks c2)"
      using column_access_ok [OF t(1) p t(2)] by blast
    from pop_read [OF c1(1,2) a(2-5)] obtain c3 where c3: "queue_response now p' (c2\<lparr>readQueue := ps\<rparr>) = Some c3" "ctrl_inv good served cfg c3"
      by blast
    have fits: "\<not> (dp_size p' > burstSize cfg \<or> readyTime p' < now)" using a(2) p(1) by (auto simp: access_done_def pkt_ok_def)
    have tl: "c2\<lparr>readQueue := tl (readQueue c2)\<rparr> = c2\<lparr>readQueue := ps\<rparr>" using access_frame(3) [OF a(2)] c1(2) by simp
    have "isAvailable (ranks c0 ! dp_rank (hd q))" using q(3) found by (simp add: c0_def)
    then have "next_read cfg now sw c =
        Some (True, if length (writeQueue c3) > writeHighThreshold cfg \<or> pendingRowOps c3 > 0 then c3\<lparr>busState := READ_TO_WRITE\<rparr> else c3)"
      using False found unfolding next_read_def extra_def [symmetric] q(1) bind.bind_lunit case_prod_conv Let_def c0_def [symmetric] ps(2)
        c1_def [symmetric] a(1) tl c3(1) if_not_P [OF fits] by simp
    moreover have "ctrl_inv good served cfg (c3\<lparr>busState := READ_TO_WRITE\<rparr>)" if "length (writeQueue c3) > writeHighThreshold cfg \<or> pendingRowOps c3 > 0"
      using c3(2) that by (auto simp: ctrl_inv_defs)
    ultimately show ?thesis using c3(2) by auto
  qed
qed

text \<open>A write leaves the write queue, with its mark; a row operation also leaves the count of pending ones.\<close>

lemma pop_write:
  assumes "ctrl_inv good served cfg c" "writeQueue c = p # ps" "access_done cfg now p c p' c'" "bs = WRITE \<or> bs = READ_TO_WRITE \<longrightarrow> ps \<noteq> []"
  shows "ctrl_inv good served cfg (c'\<lparr>writeQueue := ps, isInWriteQueue := isInWriteQueue c' - {burstAlign cfg (dp_addr p)}, busState := bs\<rparr>)"
    "pendingRowOps c' = int (size (filter_mset is_row_op (mset ps)))"
proof -
  note eq = access_frame [OF assms(3)]
  have c': "now \<le> busBusyUntil c'" "tCL cfg \<le> busBusyUntil c'" "ranks_inv cfg (ranks c')" "list_all2 later (ranks c) (ranks c')"
    using assms(3) by (simp_all add: access_done_def)
  have "list_all drain_ok (ranks c')" using drain_ok_later c'(4) assms(1) by (auto simp: ctrl_inv_defs)
  moreover have "columns_after t (ranks c) \<Longrightarrow> columns_after t (ranks c')" for t using columns_after_later c'(4) by blast
  ultimately have "timing_inv cfg (c'\<lparr>writeQueue := ps, isInWriteQueue := isInWriteQueue c' - {burstAlign cfg (dp_addr p)}, busState := bs\<rparr>)"
    using assms(1) c' eq by (auto simp: ctrl_inv_defs)
  moreover show pending: "pendingRowOps c' = int (size (filter_mset is_row_op (mset ps)))"
    using assms(1,2) eq(8) by (auto simp: ctrl_inv_defs)
  ultimately show "ctrl_inv good served cfg (c'\<lparr>writeQueue := ps, isInWriteQueue := isInWriteQueue c' - {burstAlign cfg (dp_addr p)}, busState := bs\<rparr>)"
    using assms eq unfolding ctrl_inv_def queue_inv_def by auto
qed

lemma next_write_ok:
  assumes "cfg_ok cfg" "ctrl_inv good served cfg c" "busState c = WRITE"
  shows "\<exists>more c'. next_write cfg now sw c = Some (more, c') \<and> ctrl_inv good served cfg c'"
proof -
  define extra where "extra = (if sw then min (tRTW cfg) (tCS cfg) else 0)"
  have ne: "writeQueue c \<noteq> []" using assms(2,3) by (simp add: ctrl_inv_defs)
  have "list_all (pkt_ok cfg) (writeQueue c)" using assms(2) by (auto simp: ctrl_inv_defs write_entry_def list_all_iff)
  from chooseNext_ok [OF ne this, of now "ranks c" "busBusyUntil c" extra] obtain found q where
    q: "chooseNext cfg now (ranks c) (busBusyUntil c) extra (writeQueue c) = Some (found, q)" "mset q = mset (writeQueue c)"
    "found \<longrightarrow> isAvailable (ranks c ! dp_rank (hd q))"
    using assms(1) by (auto simp: cfg_ok_def scheduled_def)
  define c0 where "c0 = c\<lparr>writeQueue := q\<rparr>"
  have c0: "ctrl_inv good served cfg c0" using permute_write [OF assms(2) q(2)] by (simp add: c0_def)
  show ?thesis
  proof (cases found)
    case False
    then show ?thesis using q(1) c0 by (auto simp: next_write_def extra_def [symmetric] c0_def)
  next
    case found: True
    obtain p ps where ps: "q = p # ps" "hd q = p" using q(2) ne by (cases q) auto
    define c1 where "c1 = (if sw \<and> dp_rank p = activeRank c0 then c0\<lparr>busBusyUntil := busBusyUntil c0 + tRTW cfg\<rparr> else c0)"
    have c1: "ctrl_inv good served cfg c1" "writeQueue c1 = p # ps" "busState c1 = WRITE"
      using c0 delay_bus [OF c0] ps by (auto simp: c1_def) (simp_all add: c0_def assms(3))
    have p: "pkt_ok cfg p" using c1 by (auto simp: ctrl_inv_defs write_entry_def)
    have t: "ranks_inv cfg (ranks c1)" "tCL cfg \<le> busBusyUntil c1" using c1(1) by (simp_all add: ctrl_inv_defs)
    have "\<exists>p' c2. doDRAMAccess cfg now p c1 = Some (p', c2) \<and> access_done cfg now p c1 p' c2"
    proof (cases "is_row_op p")
      case True
      then show ?thesis using row_op_access_ok [OF t(1) p True, of now] by (simp add: doDRAMAccess_def)
    next
      case False
      then show ?thesis using column_access_ok [OF t(1) p False t(2), of now] by blast
    qed
    then obtain p' c2 where a: "doDRAMAccess cfg now p c1 = Some (p', c2)" "access_done cfg now p c1 p' c2" by blast
    define c3 where "c3 = c2\<lparr>writeQueue := ps, isInWriteQueue := isInWriteQueue c2 - {burstAlign cfg (dp_addr p)}\<rparr>"
    have tl: "c2\<lparr>writeQueue := tl (writeQueue c2), isInWriteQueue := isInWriteQueue c2 - {burstAlign cfg (dp_addr p')}\<rparr> = c3"
      using access_frame(4) [OF a(2)] c1(2) a(2) by (simp add: c3_def access_done_def)
    define turn where "turn \<longleftrightarrow> pendingRowOps c3 = 0 \<and> (writeQueue c3 = [] \<or>
      length (writeQueue c3) + minWritesPerSwitch cfg < writeLowThreshold cfg \<and> drainState c3 \<noteq> Draining \<or>
      readQueue c3 \<noteq> [] \<and> writesThisTime c3 \<ge> minWritesPerSwitch cfg)"
    have fits: "\<not> (\<not> isAvailable (ranks c0 ! dp_rank p) \<or> dp_size p > burstSize cfg)"
      using q(3) found p ps by (simp add: c0_def pkt_ok_def)
    have run: "next_write cfg now sw c = Some (True, if turn then c3\<lparr>busState := WRITE_TO_READ\<rparr> else c3)"
      using found unfolding next_write_def extra_def [symmetric] q(1) bind.bind_lunit case_prod_conv Let_def c0_def [symmetric] ps(2)
        c1_def [symmetric] a(1) tl if_not_P [OF fits] turn_def [symmetric] by simp
    note pop = pop_write [OF c1(1,2) a(2)]
    have "ctrl_inv good served cfg (c3\<lparr>busState := WRITE_TO_READ\<rparr>)" using pop(1) [of WRITE_TO_READ] by (simp add: c3_def)
    moreover have "ctrl_inv good served cfg c3" if "\<not> turn"
    proof -
      have "ps \<noteq> []" using that pop(2) [of READ] by (auto simp: turn_def c3_def)
      then have "ctrl_inv good served cfg (c3\<lparr>busState := WRITE\<rparr>)" using pop(1) [of WRITE] by (simp add: c3_def)
      moreover have "c3\<lparr>busState := WRITE\<rparr> = c3" using access_frame(5) [OF a(2)] c1(3) by (cases c2) (simp add: c3_def)
      ultimately show ?thesis by metis
    qed
    ultimately show ?thesis unfolding run by auto
  qed
qed

lemma processNextReqEvent_ok:
  assumes "cfg_ok cfg" "ctrl_inv good served cfg c"
  shows "\<exists>c'. processNextReqEvent cfg now c = Some c' \<and> ctrl_inv good served cfg c'"
proof -
  obtain n where n: "check_ranks now (ranks c) = Some (map (drain_done now) (ranks c), n)"
    using check_ranks_ok [of "ranks c" now] assms(2) by (auto simp only: ctrl_inv_defs)
  define c1 where "c1 = c\<lparr>nextReqEvent := None, ranks := map (drain_done now) (ranks c)\<rparr>"
  have c1: "ctrl_inv good served cfg c1"
    using drain_done_inv [of good served cfg "c\<lparr>nextReqEvent := None\<rparr>" now] assms(2) by (simp add: c1_def)
  obtain c2 sw where c2: "switch_bus c1 = (c2, sw)" by (cases "switch_bus c1")
  have inv: "ctrl_inv good served cfg c2" "busState c2 = READ \<or> busState c2 = WRITE"
    using c1 c2 by (auto simp: switch_bus_def ctrl_inv_defs split: bus_state.splits)
  obtain more c3 where c3: "(if busState c2 = READ then next_read cfg now sw c2 else next_write cfg now sw c2) = Some (more, c3)"
      "ctrl_inv good served cfg c3"
    using next_read_ok [OF assms(1) inv(1)] next_write_ok [OF assms(1) inv(1)] inv(2) by (metis bus_state.distinct(3))
  have "processNextReqEvent cfg now c = Some (if n = ranksPerChannel cfg then c1 else if more then go_on cfg now c3 else c3)"
    unfolding processNextReqEvent_def n bind.bind_lunit case_prod_conv Let_def c1_def [symmetric] c2 c3(1) by simp
  then show ?thesis using c1 c3(2) by (simp add: go_on_def Let_def)
qed

end
