(* ===== verification/Dram_Config.thy ===== *)
theory Dram_Config
  imports Dram_Front
begin

text \<open>
  The construction of the DRAM controller from its parameters (\<open>gem5/src/mem/dram_ctrl.cc\<close>): the
  derived geometry, at the widths of the source, and the checks of the constructor and of \<open>init\<close>. A fatal
  error, a failed assertion or a division by zero is \<open>None\<close>. What the checks leave open is what the
  controller still assumes of its parameters: that the banks of all ranks fit a 64-bit mask, that the
  memory has a row per bank, and that the activation window is no longer than a refresh.
\<close>

unbundle bit_operations_syntax

section \<open>Definitions\<close>

text \<open>The parameters, unsigned integers and ticks; percentages are between 0 and 100.\<close>

record dram_params =
  device_size :: nat
  device_bus_width :: nat
  burst_length :: nat
  device_rowbuffer_size :: nat
  devices_per_rank :: nat
  ranks_per_channel :: nat
  bank_groups_per_rank :: nat
  banks_per_rank :: nat
  channels_param :: nat
  read_buffer_size :: nat
  write_buffer_size :: nat
  write_high_thresh_perc :: nat
  write_low_thresh_perc :: nat
  min_writes_per_switch :: nat
  tCK_param :: nat
  tWTR_param :: nat
  tRTW_param :: nat
  tCS_param :: nat
  tBURST_param :: nat
  tCCD_L_param :: nat
  tRCD_param :: nat
  tCL_param :: nat
  tRP_param :: nat
  tRAS_param :: nat
  tWR_param :: nat
  tRTP_param :: nat
  tRFC_param :: nat
  tREFI_param :: nat
  tRRD_param :: nat
  tRRD_L_param :: nat
  tXAW_param :: nat
  tWL_param :: nat
  tWLOV_param :: nat
  activation_limit :: nat
  mem_sched_policy :: mem_sched
  addr_mapping :: addr_map
  page_policy :: page_manage
  max_accesses_per_row :: nat
  static_frontend_latency :: nat
  static_backend_latency :: nat

definition u32 :: "nat \<Rightarrow> nat" where
  "u32 x = x mod 2 ^ 32"

text \<open>
  The members initialised from the parameters. A threshold is a product at 32 bits, divided by a hundred
  and truncated.
\<close>

definition init_config :: "dram_params \<Rightarrow> addr_range \<Rightarrow> config option" where
  "init_config p rg =
     (let devices = u32 (devices_per_rank p);
          burst = u32 (devices * u32 (burst_length p) * u32 (device_bus_width p)) div 8;
          row_buffer = u32 (devices * u32 (device_rowbuffer_size p));
          write_buffer = u32 (write_buffer_size p)
      in if burst = 0 then None
         else Some \<lparr>deviceSize = u32 (device_size p), deviceBusWidth = u32 (device_bus_width p), burstLength = u32 (burst_length p),
           deviceRowBufferSize = u32 (device_rowbuffer_size p), devicesPerRank = devices, burstSize = burst, rowBufferSize = row_buffer,
           columnsPerRowBuffer = row_buffer div burst,
           columnsPerStripe = (if interleaved rg then u32 (unat (granularity rg) div burst) else 1),
           ranksPerChannel = u32 (ranks_per_channel p), bankGroupsPerRank = u32 (bank_groups_per_rank p),
           bankGroupArch = (u32 (bank_groups_per_rank p) > 0), banksPerRank = u32 (banks_per_rank p), channels = u32 (channels_param p),
           rowsPerBank = 0, readBufferSize = u32 (read_buffer_size p), writeBufferSize = write_buffer,
           writeHighThreshold = u32 (write_buffer * write_high_thresh_perc p) div 100,
           writeLowThreshold = u32 (write_buffer * write_low_thresh_perc p) div 100, minWritesPerSwitch = u32 (min_writes_per_switch p),
           tCK = tCK_param p, tWTR = tWTR_param p, tRTW = tRTW_param p, tCS = tCS_param p, tBURST = tBURST_param p,
           tCCD_L = tCCD_L_param p, tRCD = tRCD_param p, tCL = tCL_param p, tRP = tRP_param p, tRAS = tRAS_param p, tWR = tWR_param p,
           tRTP = tRTP_param p, tRFC = tRFC_param p, tREFI = tREFI_param p, tRRD = tRRD_param p, tRRD_L = tRRD_L_param p,
           tXAW = tXAW_param p, tWL = tWL_param p, tWLOV = tWLOV_param p, activationLimit = u32 (activation_limit p),
           memSchedPolicy = mem_sched_policy p, addrMapping = addr_mapping p, pageMgmt = page_policy p,
           maxAccessesPerRow = u32 (max_accesses_per_row p), frontendLatency = static_frontend_latency p,
           backendLatency = static_backend_latency p\<rparr>)"

text \<open>The rows of a bank: the capacity, rounded up to a power of two, over the bytes of one row in all banks.\<close>

definition rows_per_bank :: "config \<Rightarrow> addr_range \<Rightarrow> nat option" where
  "rows_per_bank cfg rg = do {
     k \<leftarrow> ceilLog2 (range_size rg);
     let stripe = u32 (rowBufferSize cfg * banksPerRank cfg * ranksPerChannel cfg);
     if 64 \<le> k \<or> stripe = 0 then None else Some (u32 (2 ^ k div stripe)) }"

definition bank_groups_check :: "config \<Rightarrow> bool" where
  "bank_groups_check cfg \<longleftrightarrow> \<not> bankGroupArch cfg \<or>
     \<not> (bankGroupsPerRank cfg > banksPerRank cfg) \<and> banksPerRank cfg mod bankGroupsPerRank cfg = 0 \<and>
     \<not> (tCCD_L cfg \<le> tBURST cfg) \<and> \<not> (tRRD_L cfg < tRRD cfg)"

text \<open>The constructor. The comparison with the size of the devices only warns.\<close>

definition make_config :: "dram_params \<Rightarrow> addr_range \<Rightarrow> config option" where
  "make_config p rg = do {
     cfg \<leftarrow> init_config p rg;
     if isPowerOf2 (of_nat (ranksPerChannel cfg)) \<and> isPowerOf2 (of_nat (burstSize cfg)) \<and>
        \<not> (write_low_thresh_perc p \<ge> write_high_thresh_perc p)
     then do {
       rows \<leftarrow> rows_per_bank cfg rg;
       let cfg = cfg\<lparr>rowsPerBank := rows\<rparr>;
       if \<not> (tREFI cfg \<le> tRP cfg \<or> tREFI cfg \<le> tRFC cfg) \<and> bank_groups_check cfg then Some cfg else None }
     else None }"

text \<open>The checks of \<open>init\<close>, for a system with this page size and this cache line size, on a connected port.\<close>

definition init_check :: "nat \<Rightarrow> nat \<Rightarrow> addr_range \<Rightarrow> config \<Rightarrow> bool" where
  "init_check page_bytes cache_line rg cfg \<longleftrightarrow> page_bytes \<noteq> 0 \<and> unat (range_size rg) mod page_bytes = 0 \<and>
     (interleaved rg \<longrightarrow> channels cfg = unat (stripes rg) \<and>
       (case addrMapping cfg of
          RoRaBaChCo \<Rightarrow> rowBufferSize cfg = unat (granularity rg)
        | _ \<Rightarrow> columnsPerStripe cfg \<ge> 1 \<and> \<not> (cache_line > unat (granularity rg)) \<and>
            \<not> (rowBufferSize cfg < unat (granularity rg)) \<and> columnsPerStripe cfg \<le> columnsPerRowBuffer cfg))"

section \<open>What the checks give\<close>

lemma u32_less [simp]: "u32 x < 2 ^ 32"
  by (simp add: u32_def)

lemma u32_div_less: "u32 x div n < 2 ^ 32"
  by (rule le_less_trans [OF div_le_dividend u32_less])

lemma isPowerOf2_nat:
  assumes "isPowerOf2 (of_nat x)" "x < 2 ^ 32"
  shows "\<exists>k<32. x = 2 ^ k"
proof -
  obtain k where k: "k < 64" "(of_nat x :: 64 word) = 2 ^ k" using assms(1) by (auto simp: isPowerOf2_iff)
  have "unat (of_nat x :: 64 word) = x" using assms(2) by (simp add: unsigned_of_nat take_bit_nat_eq_self)
  then have x: "x = 2 ^ k" using k unat_exp64 [of k] by simp
  moreover have "k < 32" using assms(2) unfolding x by (rule power_less_imp_less_exp [rotated]) simp
  ultimately show ?thesis by blast
qed

text \<open>
  A constructed controller accepts requests as soon as the three conditions hold that no check covers.
  Its write thresholds are in order, and it can be started.
\<close>

lemma make_config_ok:
  assumes "make_config p rg = Some cfg"
  shows "tRP cfg < tREFI cfg" "tRFC cfg < tREFI cfg" "0 < ranksPerChannel cfg" "0 < banksPerRank cfg" "\<exists>k<32. burstSize cfg = 2 ^ k"
    "rowsPerBank cfg \<le> unat NO_ROW" "writeBufferSize cfg * 100 < 2 ^ 32 \<Longrightarrow> write_high_thresh_perc p \<le> 100 \<Longrightarrow>
      writeLowThreshold cfg \<le> writeHighThreshold cfg \<and> writeHighThreshold cfg \<le> writeBufferSize cfg"
proof -
  obtain c rows where c: "init_config p rg = Some c" "rows_per_bank c rg = Some rows" "cfg = c\<lparr>rowsPerBank := rows\<rparr>"
      "isPowerOf2 (of_nat (ranksPerChannel c))" "isPowerOf2 (of_nat (burstSize c))" "write_low_thresh_perc p < write_high_thresh_perc p"
      "\<not> (tREFI c \<le> tRP c \<or> tREFI c \<le> tRFC c)"
    using assms by (auto simp: make_config_def bind_eq_Some_conv Let_def split: if_splits)
  have f: "ranksPerChannel c = u32 (ranks_per_channel p)" "burstSize c < 2 ^ 32" "writeBufferSize c = u32 (write_buffer_size p)"
      "writeHighThreshold c = u32 (u32 (write_buffer_size p) * write_high_thresh_perc p) div 100"
      "writeLowThreshold c = u32 (u32 (write_buffer_size p) * write_low_thresh_perc p) div 100"
    using c(1) by (auto simp: init_config_def Let_def u32_div_less simp del: power_numeral split: if_splits)
  obtain k where "rows = u32 (2 ^ k div u32 (rowBufferSize c * banksPerRank c * ranksPerChannel c))" "u32 (rowBufferSize c * banksPerRank c * ranksPerChannel c) \<noteq> 0"
    using c(2) by (auto simp: rows_per_bank_def bind_eq_Some_conv Let_def split: if_splits)
  then have rows: "rows < 2 ^ 32" "0 < ranksPerChannel c" "0 < banksPerRank c" by (auto simp: u32_def intro!: Nat.gr0I)
  have "\<exists>k<32. burstSize c = 2 ^ k" by (rule isPowerOf2_nat [OF c(5) f(2)])
  with c(3,7) rows show "tRP cfg < tREFI cfg" "tRFC cfg < tREFI cfg" "0 < ranksPerChannel cfg" "0 < banksPerRank cfg" "\<exists>k<32. burstSize cfg = 2 ^ k"
    "rowsPerBank cfg \<le> unat NO_ROW" by (simp_all add: NO_ROW_def unsigned_minus_1_eq_mask mask_eq_exp_minus_1)
  show "writeLowThreshold cfg \<le> writeHighThreshold cfg \<and> writeHighThreshold cfg \<le> writeBufferSize cfg"
    if "writeBufferSize cfg * 100 < 2 ^ 32" "write_high_thresh_perc p \<le> 100"
  proof -
    define w where "w = writeBufferSize c"
    have le: "w * write_high_thresh_perc p \<le> w * 100" "w * write_low_thresh_perc p \<le> w * write_high_thresh_perc p"
      using that(2) c(6) by (simp_all add: mult_le_mono)
    moreover have "w * 100 < 2 ^ 32" using that(1) c(3) by (simp add: w_def)
    with le have "u32 (w * write_high_thresh_perc p) = w * write_high_thresh_perc p" "u32 (w * write_low_thresh_perc p) = w * write_low_thresh_perc p"
      unfolding u32_def by (intro mod_less; linarith)+
    ultimately show ?thesis using f(3-5) c(3) div_le_mono [of "w * write_high_thresh_perc p" "w * 100" 100]
        div_le_mono [of "w * write_low_thresh_perc p" "w * write_high_thresh_perc p" 100] by (simp add: w_def)
  qed
qed

lemma make_config_cfg_ok:
  assumes "make_config p rg = Some cfg" "banks_fit cfg" "0 < rowsPerBank cfg" "tXAW cfg \<le> tRFC cfg"
  shows "cfg_ok cfg"
  using make_config_ok(3-6) [OF assms(1)] assms(2-4) by (simp add: cfg_ok_def)

text \<open>The last assertion of \<open>init\<close> indeed follows from the check before it.\<close>

lemma init_check_columns:
  assumes "make_config p rg = Some cfg" "interleaved rg" "\<not> (rowBufferSize cfg < unat (granularity rg))"
  shows "columnsPerStripe cfg \<le> columnsPerRowBuffer cfg"
proof -
  obtain c where c: "init_config p rg = Some c" "columnsPerStripe cfg = columnsPerStripe c" "columnsPerRowBuffer cfg = columnsPerRowBuffer c"
      "rowBufferSize cfg = rowBufferSize c"
    using assms(1) by (auto simp: make_config_def bind_eq_Some_conv Let_def split: if_splits)
  then have "columnsPerStripe c = u32 (unat (granularity rg) div burstSize c)" "columnsPerRowBuffer c = rowBufferSize c div burstSize c"
    using assms(2) by (auto simp: init_config_def Let_def split: if_splits)
  then show ?thesis
    using assms(3) c(2-4) div_le_mono [of "unat (granularity rg)" "rowBufferSize c" "burstSize c"] mod_less_eq_dividend [of "unat (granularity rg) div burstSize c" "2 ^ 32"]
    by (simp add: u32_def)
qed

end
