(* ===== verification/Dram_Steps.thy ===== *)
theory Dram_Steps
  imports Dram_Ctrl Dram_Config
begin

text \<open>
  The controller in front of the physical memory, as a transition system: requests arrive, the events
  of the controller and of its ranks fire, in any order and at any tick. Every state that a started
  controller can reach satisfies the invariant, and in every one of them the request handlers return.
\<close>

section \<open>The physical memory as the memory of the controller\<close>

definition mem_state :: "addr_range \<Rightarrow> nat \<Rightarrow> memory \<Rightarrow> bool" where
  "mem_state rg n m \<longleftrightarrow> mrange m = rg \<and> (\<exists>pm. pmem m = Some pm \<and> length pm = n)"

text \<open>Reads and writes of bytes inside the store, and row operations on its rows.\<close>

definition byte_access :: "addr_range \<Rightarrow> nat \<Rightarrow> packet \<Rightarrow> bool" where
  "byte_access rg n p \<longleftrightarrow> (\<exists>a buf. pkt_at p a buf \<and> length buf < 2 ^ 32 \<and> \<not> memInhibitAsserted p \<and> \<not> isRowOp (req p) \<and>
     \<not> isInstFetch (req p) \<and> getPaddr (req p) = Some a \<and> rstart rg \<le> a \<and> unat a + length buf \<le> unat (rend rg) + 1 \<and>
     unat (a - rstart rg) + length buf \<le> n)"

definition row_inside :: "addr_range \<Rightarrow> nat \<Rightarrow> 64 word \<Rightarrow> bool" where
  "row_inside rg n a \<longleftrightarrow> GEM5_ROW_SIZE dvd unat (a - rstart rg) \<and> unat (a - rstart rg) + GEM5_ROW_SIZE \<le> n"

definition row_request :: "addr_range \<Rightarrow> nat \<Rightarrow> packet \<Rightarrow> bool" where
  "row_request rg n p \<longleftrightarrow> isRowOp (req p) \<and> \<not> memInhibitAsserted p \<and> (\<exists>pl. getPayload p = Some pl \<and>
     (pl_op pl = ROWAP \<or> pl_op pl = ROWAAP \<or>
      row_inside rg n (pl_dest pl) \<and> row_inside rg n (pl_src1 pl) \<and> (pl_op pl \<noteq> ROWNOT \<longrightarrow> row_inside rg n (pl_src2 pl))))"

definition mem_serves :: "addr_range \<Rightarrow> nat \<Rightarrow> packet \<Rightarrow> bool" where
  "mem_serves rg n p \<longleftrightarrow> (cmd p = ReadReq \<or> cmd p = WriteReq) \<and> byte_access rg n p \<or> cmd p = WriteReq \<and> row_request rg n p"

lemma row_access_served:
  assumes "row_request rg n p" "mem_state rg n m"
  shows "\<exists>pl m'. getPayload p = Some pl \<and> row_access pl m = Some m' \<and> mem_state rg n m'"
proof -
  obtain pm where m: "mrange m = rg" "pmem m = Some pm" "length pm = n" using assms(2) by (auto simp: mem_state_def)
  obtain pl where pl: "getPayload p = Some pl" "pl_op pl = ROWAP \<or> pl_op pl = ROWAAP \<or> row_inside rg n (pl_dest pl) \<and>
      row_inside rg n (pl_src1 pl) \<and> (pl_op pl \<noteq> ROWNOT \<longrightarrow> row_inside rg n (pl_src2 pl))"
    using assms(1) by (auto simp: row_request_def)
  show ?thesis
  proof (cases "pl_op pl = ROWAP \<or> pl_op pl = ROWAAP")
    case True
    then have "row_access pl m = Some m" using m by (auto simp: row_access_def)
    then show ?thesis using pl(1) assms(2) by blast
  next
    case False
    have row: "row_of_store m a = row_inside rg n a" for a using m by (simp add: row_of_store_def row_inside_def store_off_def)
    obtain pm' where "row_access pl m = Some (set_mem pm' m)" "length pm' = length pm"
      using Phys_Mem.row_access_ok [OF m(2), of pl] pl(2) False unfolding row by blast
    then show ?thesis using pl(1) m by (intro exI [of _ pl] exI [of _ "set_mem pm' m"]) (simp add: mem_state_def set_mem_def)
  qed
qed

lemma mem_serves_ok:
  assumes "mem_serves rg n p" "mem_state rg n m"
  shows "\<exists>p' m'. access p m = Some (p', m') \<and> mem_state rg n m' \<and> (needsResponse p \<longrightarrow> isResponse p')"
proof -
  obtain pm where m: "mrange m = rg" "pmem m = Some pm" "length pm = n" using assms(2) by (auto simp: mem_state_def)
  consider (row) "cmd p = WriteReq" "row_request rg n p"
    | (rd) a buf where "cmd p = ReadReq" "mem_pkt p a buf m pm" | (wr) a buf where "cmd p = WriteReq" "mem_pkt p a buf m pm"
    using assms(1) m unfolding mem_serves_def byte_access_def mem_pkt_def store_off_def by metis
  then show ?thesis
  proof cases
    case row
    obtain pl m' where "getPayload p = Some pl" "row_access pl m = Some m'" "mem_state rg n m'" using row_access_served [OF row(2) assms(2)] by blast
    with access_row_op [of p pl m m'] row show ?thesis by (force simp: row_request_def testCmdAttrib_def)
  next
    case rd
    from access_read [OF rd(2,1)] assms(2) show ?thesis by (force simp: testCmdAttrib_def)
  next
    case wr
    have "store_off m a + length buf \<le> length pm" using wr(2) by (simp add: mem_pkt_def)
    then have "mem_state rg n (set_mem (overwrite (store_off m a) buf pm) (drop_block (lock_mask a) m))"
      using m by (simp add: mem_state_def set_mem_def drop_block_def overwrite_def)
    with access_write [OF wr(2,1)] show ?thesis by (force simp: testCmdAttrib_def)
  qed
qed

interpretation phys: memory_port access "mem_state rg n" "mem_serves rg n" for rg n
  by unfold_locales (rule mem_serves_ok)

section \<open>Events of the ranks\<close>

text \<open>Column commands of a rank only move later.\<close>

definition cols_later :: "rank \<Rightarrow> rank \<Rightarrow> bool" where
  "cols_later r r' \<longleftrightarrow> length (banks r') = length (banks r) \<and>
     (\<forall>i<length (banks r). colAllowedAt (banks r ! i) \<le> colAllowedAt (banks r' ! i))"

definition rank_kept :: "config \<Rightarrow> rank \<Rightarrow> rank \<Rightarrow> bool" where
  "rank_kept cfg r r' \<longleftrightarrow> rank_inv cfg r' \<and> drain_ok r' \<and> cols_later r r'"

lemma update_rank_inv:
  assumes "ctrl_inv good served cfg c" "i < length (ranks c)" "rank_kept cfg (ranks c ! i) r"
  shows "ctrl_inv good served cfg (update_rank i r c)"
proof -
  have "columns_after t ((ranks c)[i := r])" if "columns_after t (ranks c)" for t
  proof -
    have "t \<le> colAllowedAt (banks r ! j)" if "j < length (banks r)" for j
      using assms(2,3) \<open>columns_after t (ranks c)\<close> that unfolding columns_after_def rank_kept_def cols_later_def
      by (metis nth_mem order_trans)
    then have "\<forall>x\<in>set (banks r). t \<le> colAllowedAt x" by (auto simp: in_set_conv_nth)
    then show ?thesis using that set_update_subset_insert [of "ranks c" i r] unfolding columns_after_def by blast
  qed
  moreover have "ranks_inv cfg ((ranks c)[i := r])" "list_all drain_ok ((ranks c)[i := r])"
    using assms ranks_inv_update [of cfg "ranks c" r i] set_update_subset_insert [of "ranks c" i r]
    by (auto simp: ctrl_inv_defs rank_kept_def list_all_iff)
  ultimately show ?thesis using assms(1) by (auto simp: ctrl_inv_defs update_rank_def)
qed

lemma rank_kept_refl:
  assumes "rank_inv cfg r" "drain_ok r" "banks r' = banks r" "actTicks r' = actTicks r" "numBanksActive r' = numBanksActive r" "drain_ok r'"
  shows "rank_kept cfg r r'"
  using assms by (simp add: rank_kept_def cols_later_def rank_inv_def)

lemma precharge_banks_cols: "precharge_banks cfg t n b r = Some r' \<Longrightarrow> cols_later r r'"
proof (induction n arbitrary: b r)
  case (Suc n)
  let ?r = "r\<lparr>banks := (banks r)[b := (banks r ! b)\<lparr>actAllowedAt := max (actAllowedAt (banks r ! b)) (t + tRP cfg),
    preAllowedAt := max (preAllowedAt (banks r ! b)) t\<rparr>]\<rparr>"
  have "cols_later r ?r" by (auto simp: cols_later_def intro!: col_update)
  moreover have "cols_later r r1" if "prechargeBank cfg b t r = Some r1" for r1
    using prechargeBank_later [OF that] by (simp add: cols_later_def later_def)
  ultimately obtain r1 where "cols_later r r1" "precharge_banks cfg t n (b + 1) r1 = Some r'"
    using Suc.prems unfolding precharge_banks.simps bind_eq_Some_conv by (cases "openRow (banks r ! b) \<noteq> NO_ROW") auto
  with Suc.IH [OF this(2)] show ?case by (auto simp: cols_later_def intro: order_trans)
qed (simp add: cols_later_def)

text \<open>
  Only when the refresh itself starts are the limits on activations reset, so the recorded activations must
  not lie ahead of it. This is a condition on the runs considered: a refresh of an idle rank can come before an
  activation that was issued for a later tick, and then fails.
\<close>

definition activations_past :: "nat \<Rightarrow> rank \<Rightarrow> bool" where
  "activations_past now r \<longleftrightarrow> (refreshState r = REF_RUN \<longrightarrow> list_all (\<lambda>t. t \<le> now) (actTicks r))"

lemma refresh_run_kept:
  assumes "refresh_run cfg now r = Some r'" "rank_inv cfg r" "list_all (\<lambda>t. t \<le> now) (actTicks r)" "refreshState r = REF_RUN" "tXAW cfg \<le> tRFC cfg"
  shows "rank_kept cfg r r'"
proof -
  define bs where "bs = map (\<lambda>b. b\<lparr>actAllowedAt := now + tRFC cfg\<rparr>) (banks r)"
  have r': "banks r' = bs" "actTicks r' = actTicks r" "numBanksActive r' = numBanksActive r" "refreshState r' = REF_RUN"
    using assms(1,4) by (auto simp: refresh_run_def Let_def bs_def schedulePowerEvent_def schedule_event_def split: if_splits)
  have "hd (actTicks r) \<le> now" "last (actTicks r) \<le> now" if "actTicks r \<noteq> []" using assms(3) that by (auto simp: list_all_iff)
  then have "window_inv cfg (actTicks r) bs" using assms(2,5) by (force simp: rank_inv_def window_inv_def bs_def)
  moreover have "open_count bs = open_count (banks r)" by (simp add: bs_def open_count_map)
  ultimately show ?thesis using assms(2) r' by (simp add: rank_kept_def rank_inv_def cols_later_def drain_ok_def bs_def)
qed

lemma refresh_precharge_kept:
  assumes "refresh_precharge cfg now r = Some r'" "rank_inv cfg r"
  shows "rank_kept cfg r r'"
proof (cases "pwrState r = PWR_IDLE")
  case True
  then show ?thesis using assms by (auto simp: refresh_precharge_def schedulePowerEvent_def rank_kept_def rank_inv_def cols_later_def drain_ok_def split: if_splits)
next
  case False
  have "length (banks r) = banksPerRank cfg" using assms(2) by (simp add: rank_inv_def)
  with precharge_banks_ok [OF assms(2), of "length (banks r)" 0 "precharge_tick now r"] obtain r1 where
    r1: "precharge_banks cfg (precharge_tick now r) (length (banks r)) 0 r = Some r1" "rank_inv cfg r1" by auto
  with precharge_banks_cols [OF r1(1)] assms(1) False show ?thesis
    by (auto simp: refresh_precharge_def rank_kept_def rank_inv_def cols_later_def drain_ok_def split: if_splits)
qed

lemma processRefreshEvent_kept:
  assumes "processRefreshEvent cfg now ar ns r = Some r'" "rank_inv cfg r" "activations_past now r" "tXAW cfg \<le> tRFC cfg"
    and "refreshState r \<noteq> REF_RUN \<longrightarrow> refreshEvent r = None"
  shows "rank_kept cfg r r'"
proof (cases "refreshState r = REF_RUN")
  case True
  then show ?thesis using assms(1-4) refresh_run_kept [of cfg now r r'] by (simp add: processRefreshEvent_def activations_past_def)
next
  case False
  define due where "due = (if refreshState r = REF_IDLE then now else refreshDueAt r)"
  have same: "rank_inv cfg (r\<lparr>refreshDueAt := d, refreshState := s\<rparr>) = rank_inv cfg r"
    "rank_kept cfg (r\<lparr>refreshDueAt := d, refreshState := s\<rparr>) r' = rank_kept cfg r r'" for d s
    by (simp_all add: rank_inv_def rank_kept_def cols_later_def)
  have upd: "r\<lparr>refreshDueAt := refreshDueAt r, refreshState := s\<rparr> = r\<lparr>refreshState := s\<rparr>" for s by (cases r) simp
  have id: "refreshState r = s \<Longrightarrow> r\<lparr>refreshState := s\<rparr> = r" for s by (cases r) simp
  have "r' = r\<lparr>refreshDueAt := due, refreshState := REF_DRAIN\<rparr> \<or> refresh_precharge cfg now (r\<lparr>refreshDueAt := due, refreshState := REF_PRE\<rparr>) = Some r'"
    using assms(1) False unfolding due_def
    by (cases "refreshState r"; cases "rankNo r = ar \<and> ns") (simp_all add: processRefreshEvent_def upd id)
  then show ?thesis
  proof
    assume "r' = r\<lparr>refreshDueAt := due, refreshState := REF_DRAIN\<rparr>"
    then show ?thesis using assms(2,5) False by (simp add: rank_kept_def rank_inv_def cols_later_def drain_ok_def)
  next
    assume "refresh_precharge cfg now (r\<lparr>refreshDueAt := due, refreshState := REF_PRE\<rparr>) = Some r'"
    from refresh_precharge_kept [OF this] assms(2) show ?thesis by (simp add: same)
  qed
qed

text \<open>Each event of a rank, fired on the rank's own state, keeps the rank.\<close>

lemma schedulePowerEvent_frame:
  assumes "schedulePowerEvent now s t r = Some r'"
  shows "banks r' = banks r" "actTicks r' = actTicks r" "numBanksActive r' = numBanksActive r" "refreshState r' = refreshState r"
    "refreshEvent r' = refreshEvent r"
  using assms by (auto simp: schedulePowerEvent_def schedule_event_def Let_def split: if_splits)

lemma activate_kept:
  assumes "processActivateEvent now r = Some r'" "rank_inv cfg r" "drain_ok r"
  shows "rank_kept cfg r r'"
proof (cases "pwrState r = PWR_ACT")
  case False
  then have "schedulePowerEvent now PWR_ACT now (r\<lparr>activateEvent := None\<rparr>) = Some r'" using assms(1) by (simp add: processActivateEvent_def)
  from schedulePowerEvent_frame [OF this] show ?thesis by (intro rank_kept_refl [OF assms(2,3)]) (use assms(3) in \<open>simp_all add: drain_ok_def\<close>)
next
  case True
  then have "r' = r\<lparr>activateEvent := None\<rparr>" using assms(1) by (simp add: processActivateEvent_def)
  then show ?thesis by (intro rank_kept_refl [OF assms(2,3)]) (use assms(3) in \<open>simp_all add: drain_ok_def\<close>)
qed

lemma precharge_kept:
  assumes "processPrechargeEvent now r = Some r'" "rank_inv cfg r" "drain_ok r"
  shows "rank_kept cfg r r'"
proof (cases "numBanksActive r = 0")
  case True
  then have "schedulePowerEvent now PWR_IDLE now (r\<lparr>prechargeEvent := None\<rparr>) = Some r'" using assms(1) by (simp add: processPrechargeEvent_def)
  from schedulePowerEvent_frame [OF this] show ?thesis by (intro rank_kept_refl [OF assms(2,3)]) (use assms(3) in \<open>simp_all add: drain_ok_def\<close>)
next
  case False
  then have "r' = r\<lparr>prechargeEvent := None\<rparr>" using assms(1) by (simp add: processPrechargeEvent_def)
  then show ?thesis by (intro rank_kept_refl [OF assms(2,3)]) (use assms(3) in \<open>simp_all add: drain_ok_def\<close>)
qed

lemma power_refresh_kept:
  assumes "processPowerEvent cfg now ar ns r = Some (r', kick)" "rank_inv cfg r" "drain_ok r" "activations_past now r" "tXAW cfg \<le> tRFC cfg"
  shows "rank_kept cfg r r'"
proof (cases "\<exists>r0. banks r0 = banks r \<and> actTicks r0 = actTicks r \<and> numBanksActive r0 = numBanksActive r \<and> refreshState r0 = refreshState r \<and>
    refreshState r = REF_RUN \<and> processRefreshEvent cfg now ar ns r0 = Some r'")
  case True
  then obtain r0 where r0: "banks r0 = banks r" "actTicks r0 = actTicks r" "numBanksActive r0 = numBanksActive r" "refreshState r0 = REF_RUN"
      "refreshState r = REF_RUN" "processRefreshEvent cfg now ar ns r0 = Some r'" by auto
  then have "rank_kept cfg r0 r'"
    using assms(2,4,5) by (intro processRefreshEvent_kept [OF r0(6)]) (simp_all add: rank_inv_def activations_past_def)
  then show ?thesis using r0(1) by (simp add: rank_kept_def cols_later_def)
next
  case False
  then have "banks r' = banks r \<and> actTicks r' = actTicks r \<and> numBanksActive r' = numBanksActive r \<and> refreshEvent r' = refreshEvent r \<and>
      (refreshState r' = refreshState r \<or> refreshState r' = REF_IDLE)"
    using assms(1) by (auto simp: processPowerEvent_def Let_def split: if_splits)
  then show ?thesis using rank_kept_refl [OF assms(2,3)] assms(3) by (auto simp: drain_ok_def)
qed

lemma rank_events_keep_inv:
  assumes "cfg_ok cfg" "ctrl_inv good served cfg c" "i < length (ranks c)"
  shows "activate_event now i c = Some c' \<Longrightarrow> ctrl_inv good served cfg c'"
    "precharge_event now i c = Some c' \<Longrightarrow> ctrl_inv good served cfg c'"
    "\<lbrakk>refresh_event cfg now i c = Some c'; activations_past now (ranks c ! i)\<rbrakk> \<Longrightarrow> ctrl_inv good served cfg c'"
    "\<lbrakk>power_event cfg now i c = Some c'; activations_past now (ranks c ! i)\<rbrakk> \<Longrightarrow> ctrl_inv good served cfg c'"
proof -
  let ?r = "ranks c ! i"
  have r: "rank_inv cfg ?r" "drain_ok ?r" "tXAW cfg \<le> tRFC cfg"
    using assms by (simp_all add: ctrl_inv_defs cfg_ok_def ranks_inv_def list_all_length)
  have upd: "rank_kept cfg ?r r' \<Longrightarrow> ctrl_inv good served cfg (update_rank i r' c)" for r' by (rule update_rank_inv [OF assms(2,3)])
  show "ctrl_inv good served cfg c'" if "activate_event now i c = Some c'"
    using that activate_kept [OF _ r(1,2)] upd by (auto simp: activate_event_def bind_eq_Some_conv)
  show "ctrl_inv good served cfg c'" if "precharge_event now i c = Some c'"
    using that precharge_kept [OF _ r(1,2)] upd by (auto simp: precharge_event_def bind_eq_Some_conv)
  show "ctrl_inv good served cfg c'" if run: "refresh_event cfg now i c = Some c'" and past: "activations_past now ?r"
  proof -
    obtain r' where r': "processRefreshEvent cfg now (activeRank c) (nextReqEvent c \<noteq> None) (?r\<lparr>refreshEvent := None\<rparr>) = Some r'" "c' = update_rank i r' c"
      using run unfolding refresh_event_def bind_eq_Some_conv option.inject by blast
    from processRefreshEvent_kept [OF r'(1)] past r show ?thesis unfolding r'(2)
      by (intro upd) (simp add: rank_inv_def activations_past_def rank_kept_def cols_later_def)
  qed
  show "ctrl_inv good served cfg c'" if "power_event cfg now i c = Some c'" "activations_past now ?r"
    using that(1) upd power_refresh_kept [OF _ r(1,2) that(2) r(3)]
    by (fastforce simp: power_event_def bind_eq_Some_conv schedule_next_def split: if_splits)
qed

section \<open>Runs of the controller\<close>

lemma functionalAccess_state:
  assumes "functionalAccess p m = Some (p', m')" "mem_state rg n m"
  shows "mem_state rg n m'"
  using assms by (auto simp: functionalAccess_def mem_state_def write_store_def set_mem_def copy_bytes_def bind_eq_Some_conv Let_def split: if_splits)

text \<open>
  The configurations (tick and controller) of the runs from a start at tick \<open>t0\<close>: time passes, a request
  arrives on the port, and an event fires at the tick it is scheduled for. A request may arrive at any
  tick. Events of the ranks are followed where they do not end in a panic.
\<close>

inductive ctrl_run :: "config \<Rightarrow> addr_range \<Rightarrow> nat \<Rightarrow> nat \<Rightarrow> memory \<Rightarrow> nat \<Rightarrow> memory ctrl \<Rightarrow> bool" for cfg rg n t0 m0 where
  start: "startup cfg t0 True (new_ctrl cfg m0) = Some c \<Longrightarrow> ctrl_run cfg rg n t0 m0 t0 c"
| wait: "\<lbrakk>ctrl_run cfg rg n t0 m0 now c; now \<le> now'\<rbrakk> \<Longrightarrow> ctrl_run cfg rg n t0 m0 now' c"
| request: "\<lbrakk>ctrl_run cfg rg n t0 m0 now c; request_ok cfg (mem_serves rg n) p; recvTimingReq access cfg now p c = Some (b, c')\<rbrakk>
    \<Longrightarrow> ctrl_run cfg rg n t0 m0 now c'"
| functional: "\<lbrakk>ctrl_run cfg rg n t0 m0 now c; recvFunctional p c = Some (p', c')\<rbrakk> \<Longrightarrow> ctrl_run cfg rg n t0 m0 now c'"
| next_request: "\<lbrakk>ctrl_run cfg rg n t0 m0 now c; nextReqEvent c = Some now; processNextReqEvent cfg now c = Some c'\<rbrakk>
    \<Longrightarrow> ctrl_run cfg rg n t0 m0 now c'"
| response: "\<lbrakk>ctrl_run cfg rg n t0 m0 now c; respondEvent c = Some now; processRespondEvent access cfg now c = Some c'\<rbrakk>
    \<Longrightarrow> ctrl_run cfg rg n t0 m0 now c'"
| draining: "ctrl_run cfg rg n t0 m0 now c \<Longrightarrow> ctrl_run cfg rg n t0 m0 now (drain now c)"
| activation: "\<lbrakk>ctrl_run cfg rg n t0 m0 now c; i < length (ranks c); activateEvent (ranks c ! i) = Some now; activate_event now i c = Some c'\<rbrakk>
    \<Longrightarrow> ctrl_run cfg rg n t0 m0 now c'"
| precharging: "\<lbrakk>ctrl_run cfg rg n t0 m0 now c; i < length (ranks c); prechargeEvent (ranks c ! i) = Some now; precharge_event now i c = Some c'\<rbrakk>
    \<Longrightarrow> ctrl_run cfg rg n t0 m0 now c'"
| refreshing: "\<lbrakk>ctrl_run cfg rg n t0 m0 now c; i < length (ranks c); refreshEvent (ranks c ! i) = Some now; activations_past now (ranks c ! i);
     refresh_event cfg now i c = Some c'\<rbrakk> \<Longrightarrow> ctrl_run cfg rg n t0 m0 now c'"
| powering: "\<lbrakk>ctrl_run cfg rg n t0 m0 now c; i < length (ranks c); powerEvent (ranks c ! i) = Some now; activations_past now (ranks c ! i);
     power_event cfg now i c = Some c'\<rbrakk> \<Longrightarrow> ctrl_run cfg rg n t0 m0 now c'"

lemma ctrl_run_inv:
  assumes "ctrl_run cfg rg n t0 m0 now c" "cfg_ok cfg" "tRP cfg < tREFI cfg" "mem_state rg n m0"
  shows "ctrl_inv (mem_state rg n) (mem_serves rg n) cfg c"
  using assms(1)
proof (induction rule: ctrl_run.induct)
  case (start c)
  then show ?case using startup_ok [where good = "mem_state rg n" and m = m0 and now = t0 and served = "mem_serves rg n", OF assms(3)] assms(4) by auto
next
  case (request now c p b c')
  then show ?case using phys.recvTimingReq_ok [OF assms(2) request.IH request.hyps(2), of now] by auto
next
  case (functional now c p p' c')
  then obtain m where "functionalAccess p (mem c) = Some (p', m)" "c' = c\<lparr>mem := m\<rparr>" by (auto simp: recvFunctional_def bind_eq_Some_conv)
  then show ?case using functional.IH functionalAccess_state [of p "mem c" p' m rg n] by (simp add: ctrl_inv_defs)
next
  case (next_request now c c')
  then show ?case using processNextReqEvent_ok [OF assms(2) next_request.IH, of now] by auto
next
  case (response now c c')
  then show ?case using phys.processRespondEvent_ok [OF response.IH response.hyps(2)] by auto
next
  case (draining now c)
  then show ?case by (intro drain_ok_ctrl)
next
  case (activation now c i c')
  show ?case by (rule rank_events_keep_inv(1) [OF assms(2) activation.IH activation.hyps(2,4)])
next
  case (precharging now c i c')
  show ?case by (rule rank_events_keep_inv(2) [OF assms(2) precharging.IH precharging.hyps(2,4)])
next
  case (refreshing now c i c')
  show ?case by (rule rank_events_keep_inv(3) [OF assms(2) refreshing.IH refreshing.hyps(2,5,4)])
next
  case (powering now c i c')
  show ?case by (rule rank_events_keep_inv(4) [OF assms(2) powering.IH powering.hyps(2,5,4)])
qed

end
