(* ===== verification/Row_Translate.thy ===== *)
theory Row_Translate
  imports Phys_Mem
begin

text \<open>
  How a row operation gets from the instruction to the memory: the payload built by the instruction
  (\<open>gem5/src/arch/x86/isa/microops/rowbit.isa\<close>), the write of the timing CPU
  (\<open>gem5/src/cpu/simple/timing.cc\<close>), and the translation of its operands, which finish in any order
  (\<open>gem5/src/cpu/translation.hh\<close>). The TLB is a parameter: a function from a request to the request it
  leaves behind and the fault, if any. Row operations with a fault on a source are sent all the same.
\<close>

unbundle bit_operations_syntax

section \<open>The state of a translation\<close>

definition STRICT_ORDER :: "32 word" where "STRICT_ORDER = 0x00000800"
definition CACHE_BLOCK_ZERO :: "32 word" where "CACHE_BLOCK_ZERO = 0x00010000"
definition NO_ACCESS :: "32 word" where "NO_ACCESS = 0x00080000"

definition req_setFlags :: "32 word \<Rightarrow> request \<Rightarrow> request option" where
  "req_setFlags fl r = (if isSet (privateFlags r) (VALID_PADDR OR VALID_VADDR) then Some (r\<lparr>req_flags := setFlags (req_flags r) fl\<rparr>) else None)"

datatype tlb_mode = TLB_Read | TLB_Write | TLB_Execute

text \<open>No fault is \<open>None\<close>, and so is a request that is not there.\<close>

record 'f translation_state =
  outstanding :: nat
  faults :: "'f option list"
  tr_delay :: bool
  isSplit :: bool
  tr_isRowOp :: bool
  mainReq :: request
  sreqLow :: "request option"
  sreqHigh :: "request option"
  sreqDest :: "request option"
  sreqSrc1 :: "request option"
  sreqSrc2 :: "request option"
  tr_data :: pkt_data
  tr_res :: "64 word option"
  tr_mode :: tlb_mode

definition single_translation :: "request \<Rightarrow> pkt_data \<Rightarrow> 64 word option \<Rightarrow> tlb_mode \<Rightarrow> 'f translation_state option" where
  "single_translation r d res mode = (if mode = TLB_Read \<or> mode = TLB_Write then
     Some \<lparr>outstanding = 1, faults = [None, None, None], tr_delay = False, isSplit = False, tr_isRowOp = False, mainReq = r, sreqLow = None,
       sreqHigh = None, sreqDest = None, sreqSrc1 = None, sreqSrc2 = None, tr_data = d, tr_res = res, tr_mode = mode\<rparr> else None)"

definition split_translation :: "request \<Rightarrow> request \<Rightarrow> request \<Rightarrow> pkt_data \<Rightarrow> 64 word option \<Rightarrow> tlb_mode \<Rightarrow> 'f translation_state option" where
  "split_translation r low high d res mode = (if mode = TLB_Read \<or> mode = TLB_Write then
     Some \<lparr>outstanding = 2, faults = [None, None, None], tr_delay = False, isSplit = True, tr_isRowOp = False, mainReq = r, sreqLow = Some low,
       sreqHigh = Some high, sreqDest = None, sreqSrc1 = None, sreqSrc2 = None, tr_data = d, tr_res = res, tr_mode = mode\<rparr> else None)"

definition row_translation :: "request \<Rightarrow> request \<Rightarrow> request option \<Rightarrow> request option \<Rightarrow> pkt_data \<Rightarrow> 64 word option \<Rightarrow> tlb_mode \<Rightarrow>
    'f translation_state option" where
  "row_translation r dest src1 src2 d res mode = (if mode = TLB_Write then
     Some \<lparr>outstanding = (if src1 = None then 1 else if src2 = None then 2 else 3), faults = [None, None, None], tr_delay = False, isSplit = False,
       tr_isRowOp = True, mainReq = r, sreqLow = None, sreqHigh = None, sreqDest = Some dest, sreqSrc1 = src1, sreqSrc2 = src2,
       tr_data = d, tr_res = res, tr_mode = mode\<rparr> else None)"

text \<open>The end of a split translation and of the translations of a row operation.\<close>

definition finish_split :: "'f translation_state \<Rightarrow> 'f translation_state option" where
  "finish_split st = do {
     low \<leftarrow> sreqLow st;
     high \<leftarrow> sreqHigh st;
     r \<leftarrow> (if faults st ! 0 = None then map_option (\<lambda>a. setPaddr a (mainReq st)) (getPaddr low) else Some (mainReq st));
     r \<leftarrow> req_setFlags (req_flags low) r;
     r \<leftarrow> req_setFlags (req_flags high) r;
     Some (st\<lparr>mainReq := r\<rparr>) }"

definition take_operand :: "(64 word \<Rightarrow> rowop_payload \<Rightarrow> rowop_payload) \<Rightarrow> 'f option \<Rightarrow> request option \<Rightarrow> rowop_payload \<times> request \<Rightarrow>
    (rowop_payload \<times> request) option" where
  "take_operand upd f sreq a = (case sreq of
       None \<Rightarrow> Some a
     | Some s \<Rightarrow> do {
         addrs \<leftarrow> (if f = None then map_option (\<lambda>p. upd p (fst a)) (getPaddr s) else Some (fst a));
         r \<leftarrow> req_setFlags (req_flags s) (snd a);
         Some (addrs, r) })"

definition finish_row_op :: "'f translation_state \<Rightarrow> 'f translation_state option" where
  "finish_row_op st = (case tr_data st of
       RowPayload addrs \<Rightarrow>
         if sreqDest st = None then None
         else do {
           a \<leftarrow> take_operand (\<lambda>p. pl_dest_update (\<lambda>_. p)) (faults st ! 0) (sreqDest st) (addrs, mainReq st);
           a \<leftarrow> take_operand (\<lambda>p. pl_src1_update (\<lambda>_. p)) (faults st ! 1) (sreqSrc1 st) a;
           (addrs, r) \<leftarrow> take_operand (\<lambda>p. pl_src2_update (\<lambda>_. p)) (faults st ! 2) (sreqSrc2 st) a;
           Some (st\<lparr>tr_data := RowPayload addrs, mainReq := setPaddr 0 r\<rparr>) }
     | _ \<Rightarrow> None)"

definition finish :: "'f option \<Rightarrow> nat \<Rightarrow> 'f translation_state \<Rightarrow> (bool \<times> 'f translation_state) option" where
  "finish fault index st =
     (if outstanding st = 0 \<or> 3 \<le> index then None
      else do {
        let st = st\<lparr>faults := (faults st)[index := fault], outstanding := outstanding st - 1\<rparr>;
        st \<leftarrow> (if isSplit st \<and> outstanding st = 0 then finish_split st else Some st);
        st \<leftarrow> (if tr_isRowOp st \<and> outstanding st = 0 then finish_row_op st else Some st);
        Some (outstanding st = 0, st) })"

definition getFault :: "'f translation_state \<Rightarrow> 'f option" where
  "getFault st =
     (if \<not> isSplit st then faults st ! 0
      else if faults st ! 0 \<noteq> None then faults st ! 0
      else if faults st ! 1 \<noteq> None then faults st ! 1
      else if faults st ! 2 \<noteq> None then faults st ! 2
      else None)"

definition setNoFault :: "'f translation_state \<Rightarrow> 'f translation_state" where
  "setNoFault st = st\<lparr>faults := [None, None, None]\<rparr>"

section \<open>The parts of a translation\<close>

text \<open>
  The request of a part, and what happens to it: the TLB works on the request in place, then
  \<open>DataTranslation::finish\<close> passes the fault on, in the mode of the state. The latency it notes in the
  request of the last part is a statistic.
\<close>

definition part_req :: "nat \<Rightarrow> 'f translation_state \<Rightarrow> request option" where
  "part_req i st = (if isSplit st then (if i = 0 then sreqLow st else if i = 1 then sreqHigh st else None)
     else if tr_isRowOp st then (if i = 0 then sreqDest st else if i = 1 then sreqSrc1 st else if i = 2 then sreqSrc2 st else None)
     else if i = 0 then Some (mainReq st) else None)"

definition set_part :: "nat \<Rightarrow> request \<Rightarrow> 'f translation_state \<Rightarrow> 'f translation_state" where
  "set_part i r st = (if isSplit st then (if i = 0 then st\<lparr>sreqLow := Some r\<rparr> else st\<lparr>sreqHigh := Some r\<rparr>)
     else if tr_isRowOp st then (if i = 0 then st\<lparr>sreqDest := Some r\<rparr> else if i = 1 then st\<lparr>sreqSrc1 := Some r\<rparr> else st\<lparr>sreqSrc2 := Some r\<rparr>)
     else st\<lparr>mainReq := r\<rparr>)"

definition translate_part :: "(request \<Rightarrow> request \<times> 'f option) \<Rightarrow> nat \<Rightarrow> 'f translation_state \<Rightarrow> (bool \<times> 'f translation_state) option" where
  "translate_part tlb i st = do {
     r \<leftarrow> part_req i st;
     let (r, fault) = tlb r;
     finish fault i (set_part i r st) }"

text \<open>The parts finish in the order of the list; the last one, and only it, completes the translation.\<close>

fun translate_parts :: "(request \<Rightarrow> request \<times> 'f option) \<Rightarrow> nat list \<Rightarrow> 'f translation_state \<Rightarrow> 'f translation_state option" where
  "translate_parts tlb [] st = None"
| "translate_parts tlb (i # is) st = do {
     (completed, st) \<leftarrow> translate_part tlb i st;
     if completed then (if is = [] then Some st else None) else translate_parts tlb is st }"

section \<open>The timing CPU\<close>

text \<open>The payload a row instruction builds from its registers, and the flags of its write.\<close>

definition row_instruction :: "rowop \<Rightarrow> 64 word \<Rightarrow> 64 word \<Rightarrow> 64 word \<Rightarrow> rowop_payload" where
  "row_instruction op rdi rsi rdx = \<lparr>pl_op = op, pl_dest = rdi, pl_src1 = (if op = ROWAP then 0 else rsi),
     pl_src2 = (if op \<in> {ROWNOT, ROWAP, ROWAAP} then 0 else rdx)\<rparr>"

definition row_flags :: "32 word" where
  "row_flags = UNCACHEABLE OR ROWOP"

text \<open>A CPU: its identifiers, the program counter and the task, and the size of a cache line.\<close>

record cpu =
  cpu_master :: "16 word"
  cpu_id :: int
  cpu_pc :: "64 word"
  cpu_task :: "32 word"
  cacheLineSize :: "64 word"

definition writeMem :: "nat \<Rightarrow> cpu \<Rightarrow> pkt_data option \<Rightarrow> 32 word \<Rightarrow> 64 word \<Rightarrow> 32 word \<Rightarrow> 64 word option \<Rightarrow> 'f translation_state option" where
  "writeMem now xc data sz addr fl res = do {
     newData \<leftarrow> (case data of
         None \<Rightarrow> if isSet fl CACHE_BLOCK_ZERO then Some (Bytes (replicate (unat sz) 0)) else None
       | Some d \<Rightarrow> Some d);
     let r = (virt_request 0 addr sz fl (cpu_master xc) (cpu_pc xc) (cpu_id xc) 0 now)\<lparr>req_taskId := cpu_task xc\<rparr>;
     let split_addr = roundDown (addr + ucast sz - 1) (cacheLineSize xc);
     if \<not> (split_addr \<le> addr \<or> split_addr - addr < cacheLineSize xc) then None
     else if split_addr > addr then
       (if req_isLLSC r \<or> isSwap r then None
        else do { (r1, r2) \<leftarrow> splitOnVaddr split_addr r; split_translation r r1 r2 newData res TLB_Write })
     else if isSet fl ROWOP then
       (case newData of
          RowPayload addrs \<Rightarrow> do { (dest, src1, src2) \<leftarrow> splitRowOp addrs r; row_translation r dest src1 src2 newData res TLB_Write }
        | _ \<Rightarrow> None)
     else single_translation r newData res TLB_Write }"

text \<open>What the CPU does when its translation is complete. On this architecture every locked write goes ahead.\<close>

datatype 'f cpu_action = Translation_Fault "'f option" | Complete_Access packet | Read_Packet packet | Write_Packet packet
  | Send_Split request request request pkt_data bool

definition sendData :: "request \<Rightarrow> pkt_data \<Rightarrow> 64 word option \<Rightarrow> bool \<Rightarrow> 'f cpu_action option" where
  "sendData r d res rd = do {
     let pkt = (if rd then createRead r else createWrite r);
     let pkt = pkt\<lparr>pdata := d, pkt_flags := setFlags (pkt_flags pkt) DYNAMIC_DATA\<rparr>;
     if isSet (req_flags r) NO_ACCESS then map_option Complete_Access (makeResponse pkt)
     else if rd then Some (Read_Packet pkt)
     else if \<not> req_isLLSC r \<and> isCondSwap r then (case res of None \<Rightarrow> None | Some x \<Rightarrow> Some (Write_Packet (pkt\<lparr>req := setExtraData x r\<rparr>)))
     else Some (Write_Packet pkt) }"

definition finishTranslation :: "'f translation_state \<Rightarrow> 'f cpu_action option" where
  "finishTranslation st =
     (if getFault st \<noteq> None then Some (Translation_Fault (getFault (if isPrefetch (mainReq st) then setNoFault st else st)))
      else if \<not> isSplit st then sendData (mainReq st) (tr_data st) (tr_res st) (tr_mode st = TLB_Read)
      else (case (sreqLow st, sreqHigh st) of
          (Some low, Some high) \<Rightarrow> Some (Send_Split low high (mainReq st) (tr_data st) (tr_mode st = TLB_Read))
        | _ \<Rightarrow> None))"

section \<open>Translations finish in any order\<close>

text \<open>
  What is relied on of the TLB: without a fault the request has a physical address, and for ordinary memory it
  only marks requests as uncacheable and strictly ordered.
\<close>

definition tlb_ok :: "(request \<Rightarrow> request \<times> 'f option) \<Rightarrow> bool" where
  "tlb_ok tlb \<longleftrightarrow> (\<forall>r. (snd (tlb r) = None \<longrightarrow> getPaddr (fst (tlb r)) \<noteq> None) \<and>
     clearFlags (req_flags (fst (tlb r))) (UNCACHEABLE OR STRICT_ORDER) = clearFlags (req_flags r) (UNCACHEABLE OR STRICT_ORDER))"

text \<open>The operands a row operation translates, and the address an operand has afterwards.\<close>

definition row_parts :: "rowop \<Rightarrow> nat set" where
  "row_parts op = (if op = ROWAP then {0} else if op = ROWNOT \<or> op = ROWAAP then {0, 1} else {0, 1, 2})"

definition operand :: "(request \<Rightarrow> request \<times> 'f option) \<Rightarrow> request \<Rightarrow> 64 word \<Rightarrow> 64 word" where
  "operand tlb r a = (case tlb (r\<lparr>req_vaddr := a\<rparr>) of (r', None) \<Rightarrow> req_paddr r' | _ \<Rightarrow> a)"

definition operand_fault :: "(request \<Rightarrow> request \<times> 'f option) \<Rightarrow> request \<Rightarrow> 64 word \<Rightarrow> 'f option" where
  "operand_fault tlb r a = snd (tlb (r\<lparr>req_vaddr := a\<rparr>))"

definition add_flags :: "(request \<Rightarrow> request \<times> 'f option) \<Rightarrow> 64 word \<Rightarrow> request \<Rightarrow> request \<Rightarrow> request" where
  "add_flags tlb a r main = main\<lparr>req_flags := setFlags (req_flags main) (req_flags (fst (tlb (r\<lparr>req_vaddr := a\<rparr>))))\<rparr>"

lemma orders:
  assumes "distinct qs" "set qs = row_parts op"
  shows "qs = [0] \<and> op = ROWAP \<or> (op = ROWNOT \<or> op = ROWAAP) \<and> (qs = [0, 1] \<or> qs = [1, 0]) \<or>
    (op = ROWAND \<or> op = ROWOR \<or> op = ROWXOR) \<and>
      (qs = [0, 1, 2] \<or> qs = [0, 2, 1] \<or> qs = [1, 0, 2] \<or> qs = [1, 2, 0] \<or> qs = [2, 0, 1] \<or> qs = [2, 1, 0])"
proof -
  have n: "length qs = card (row_parts op)" using assms distinct_card by fastforce
  consider "op = ROWAP" | "op = ROWNOT \<or> op = ROWAAP" | "op = ROWAND \<or> op = ROWOR \<or> op = ROWXOR" by (cases op) auto
  then show ?thesis
  proof cases
    case 1
    with n obtain a where "qs = [a]" by (auto simp: row_parts_def length_Suc_conv)
    with 1 assms show ?thesis by (auto simp: row_parts_def)
  next
    case 2
    with n obtain a b where "qs = [a, b]" by (auto simp: row_parts_def length_Suc_conv numeral_2_eq_2)
    with 2 assms show ?thesis by (auto simp: row_parts_def doubleton_eq_iff)
  next
    case 3
    with n obtain a b c where q: "qs = [a, b, c]" by (auto simp: row_parts_def length_Suc_conv numeral_3_eq_3)
    have "set qs = {0, 1, 2}" using 3 assms(2) by (auto simp: row_parts_def)
    then have "a \<in> {0, 1, 2}" "b \<in> {0, 1, 2}" "c \<in> {0, 1, 2}" unfolding q by (metis list.set_intros)+
    moreover have "a \<noteq> b" "a \<noteq> c" "b \<noteq> c" using assms(1) q by simp_all
    ultimately show ?thesis using 3 q by (elim insertE emptyE) simp_all
  qed
qed

lemma take_operand_ok:
  assumes "tlb_ok tlb" "isSet (privateFlags main) (VALID_PADDR OR VALID_VADDR)"
  shows "take_operand upd (operand_fault tlb r a) (Some (fst (tlb (r\<lparr>req_vaddr := a\<rparr>)))) (pl, main) =
    Some (if operand_fault tlb r a = None then upd (operand tlb r a) pl else pl, add_flags tlb a r main)"
proof -
  obtain r' f where t: "tlb (r\<lparr>req_vaddr := a\<rparr>) = (r', f)" by (cases "tlb (r\<lparr>req_vaddr := a\<rparr>)")
  have "f = None \<Longrightarrow> getPaddr r' = Some (req_paddr r')"
    using assms(1) t unfolding tlb_ok_def by (metis fst_conv snd_conv getPaddr_def)
  then show ?thesis using t assms(2)
    by (cases f) (simp_all add: take_operand_def operand_def operand_fault_def add_flags_def req_setFlags_def)
qed

lemma add_flags_simps [simp]:
  "privateFlags (add_flags tlb a r main) = privateFlags main"
  "req_flags (add_flags tlb a r main) = setFlags (req_flags main) (req_flags (fst (tlb (r\<lparr>req_vaddr := a\<rparr>))))"
  by (simp_all add: add_flags_def)

text \<open>The state a row operation starts from, and the one all its translations lead to.\<close>

definition row_start :: "request \<Rightarrow> rowop_payload \<Rightarrow> 64 word option \<Rightarrow> 'f translation_state" where
  "row_start r pl res = \<lparr>outstanding = card (row_parts (pl_op pl)), faults = [None, None, None], tr_delay = False, isSplit = False,
     tr_isRowOp = True, mainReq = r, sreqLow = None, sreqHigh = None, sreqDest = Some (r\<lparr>req_vaddr := pl_dest pl\<rparr>),
     sreqSrc1 = (if 1 \<in> row_parts (pl_op pl) then Some (r\<lparr>req_vaddr := pl_src1 pl\<rparr>) else None),
     sreqSrc2 = (if 2 \<in> row_parts (pl_op pl) then Some (r\<lparr>req_vaddr := pl_src2 pl\<rparr>) else None),
     tr_data = RowPayload pl, tr_res = res, tr_mode = TLB_Write\<rparr>"

definition row_translated :: "(request \<Rightarrow> request \<times> 'f option) \<Rightarrow> request \<Rightarrow> rowop_payload \<Rightarrow> 64 word option \<Rightarrow> 'f translation_state" where
  "row_translated tlb r pl res =
     (let part = (\<lambda>i a. if i \<in> row_parts (pl_op pl) then Some (fst (tlb (r\<lparr>req_vaddr := a\<rparr>))) else None);
          fault = (\<lambda>i a. if i \<in> row_parts (pl_op pl) then operand_fault tlb r a else None)
      in (row_start r pl res)\<lparr>outstanding := 0, faults := [operand_fault tlb r (pl_dest pl), fault 1 (pl_src1 pl), fault 2 (pl_src2 pl)],
        sreqDest := Some (fst (tlb (r\<lparr>req_vaddr := pl_dest pl\<rparr>))), sreqSrc1 := part 1 (pl_src1 pl), sreqSrc2 := part (2::nat) (pl_src2 pl)\<rparr>)"

text \<open>A part that is not the last one, and the last one.\<close>

definition after_part :: "(request \<Rightarrow> request \<times> 'f option) \<Rightarrow> nat \<Rightarrow> 'f translation_state \<Rightarrow> 'f translation_state" where
  "after_part tlb i st = (let t = tlb (the (part_req i st)) in
     (set_part i (fst t) st)\<lparr>faults := (faults st)[i := snd t], outstanding := outstanding st - 1\<rparr>)"

lemma set_part_frame [simp]:
  "outstanding (set_part i r st) = outstanding st" "faults (set_part i r st) = faults st" "isSplit (set_part i r st) = isSplit st"
  "tr_isRowOp (set_part i r st) = tr_isRowOp st"
  by (simp_all add: set_part_def)

lemma translate_part_row:
  assumes "part_req i st \<noteq> None" "0 < outstanding st" "i < 3" "\<not> isSplit st" "tr_isRowOp st"
  shows "translate_part tlb i st = (if outstanding st = 1 then map_option (Pair True) (finish_row_op (after_part tlb i st))
    else Some (False, after_part tlb i st))"
proof -
  obtain x where x: "part_req i st = Some x" using assms(1) by blast
  obtain r f where t: "tlb x = (r, f)" by (cases "tlb x")
  define st1 where "st1 = (set_part i r st)\<lparr>faults := (faults st)[i := f], outstanding := outstanding st - 1\<rparr>"
  have st1: "isSplit st1 = isSplit st" "tr_isRowOp st1 = tr_isRowOp st" "outstanding st1 = outstanding st - 1" "after_part tlb i st = st1"
    by (simp_all add: st1_def after_part_def x t)
  have zero: "outstanding st' = outstanding st1" if "finish_row_op st1 = Some st'" for st'
    using that by (auto simp: finish_row_op_def bind_eq_Some_conv split: pkt_data.splits if_splits)
  have "translate_part tlb i st = do {
      st2 \<leftarrow> (if outstanding st = 1 then finish_row_op st1 else Some st1); Some (outstanding st2 = 0, st2) }"
    using assms x t by (simp add: translate_part_def finish_def st1_def Let_def)
  note run = this
  show ?thesis
  proof (cases "outstanding st = 1")
    case True
    then show ?thesis using zero [of "the (finish_row_op st1)"] by (cases "finish_row_op st1") (simp_all add: run st1(3,4))
  next
    case False
    then have "outstanding st1 \<noteq> 0" using assms(2) st1(3) by simp
    with False show ?thesis by (simp add: run st1(4))
  qed
qed

lemma after_part_frame [simp]:
  "outstanding (after_part tlb i st) = outstanding st - 1" "isSplit (after_part tlb i st) = isSplit st"
  "tr_isRowOp (after_part tlb i st) = tr_isRowOp st"
  by (simp_all add: after_part_def Let_def)

lemma after_part_req:
  "\<not> isSplit st \<Longrightarrow> tr_isRowOp st \<Longrightarrow> part_req j st \<noteq> None \<Longrightarrow> part_req j (after_part tlb i st) \<noteq> None"
  by (simp add: after_part_def part_req_def set_part_def Let_def split: if_splits)

lemma translate_parts_fold:
  assumes "qs \<noteq> []" "length qs = outstanding st" "\<forall>i\<in>set qs. part_req i st \<noteq> None \<and> i < 3" "\<not> isSplit st" "tr_isRowOp st"
  shows "translate_parts tlb qs st = finish_row_op (fold (after_part tlb) qs st)"
  using assms
proof (induction qs arbitrary: st)
  case (Cons i qs)
  have part: "translate_part tlb i st = (if outstanding st = 1 then map_option (Pair True) (finish_row_op (after_part tlb i st))
      else Some (False, after_part tlb i st))"
    using Cons.prems by (intro translate_part_row) auto
  show ?case
  proof (cases "qs = []")
    case True
    then show ?thesis using part Cons.prems(2) by (cases "finish_row_op (after_part tlb i st)") simp_all
  next
    case False
    have "translate_parts tlb qs (after_part tlb i st) = finish_row_op (fold (after_part tlb) qs (after_part tlb i st))"
      by (rule Cons.IH) (use False Cons.prems after_part_req [of st _ tlb i] in auto)
    moreover have "outstanding st \<noteq> 1" using False Cons.prems(2) by auto
    ultimately show ?thesis using part by simp
  qed
qed simp

lemma translate_row_parts:
  assumes "distinct qs" "set qs = row_parts (pl_op pl)"
  shows "translate_parts tlb qs (row_start r pl res) = finish_row_op (row_translated tlb r pl res)"
proof -
  have result: "fold (after_part tlb) qs (row_start r pl res) = row_translated tlb r pl res"
    using orders [OF assms]
    by (elim disjE conjE; simp add: row_start_def row_translated_def row_parts_def part_req_def set_part_def after_part_def operand_fault_def Let_def)
  have "row_parts (pl_op pl) \<noteq> {}" by (simp add: row_parts_def)
  then have ne: "qs \<noteq> []" using assms(2) by (metis set_empty)
  have len: "length qs = outstanding (row_start r pl res)" using assms distinct_card [of qs] by (simp add: row_start_def)
  have parts: "\<forall>i\<in>set qs. part_req i (row_start r pl res) \<noteq> None \<and> i < 3"
    unfolding assms(2) by (cases "pl_op pl") (simp_all add: row_parts_def part_req_def row_start_def)
  have row: "\<not> isSplit (row_start r pl res)" "tr_isRowOp (row_start r pl res)" by (simp_all add: row_start_def)
  show ?thesis unfolding translate_parts_fold [OF ne len parts row] result ..
qed

text \<open>The request a row instruction makes.\<close>

definition row_req :: "nat \<Rightarrow> cpu \<Rightarrow> request" where
  "row_req now xc = (virt_request 0 0 32 row_flags (cpu_master xc) (cpu_pc xc) (cpu_id xc) 0 now)\<lparr>req_taskId := cpu_task xc\<rparr>"

lemma row_write:
  assumes "isPowerOf2 (cacheLineSize xc)" "32 \<le> cacheLineSize xc"
  shows "writeMem now xc (Some (RowPayload pl)) 32 0 row_flags res = Some (row_start (row_req now xc) pl res)"
proof -
  have "31 < unat (cacheLineSize xc)" using assms(2) by (simp add: word_le_nat_alt)
  then have "unat (roundDown (0 + ucast (32 :: 32 word) - 1) (cacheLineSize xc)) = 0"
    unfolding roundDown_correct [OF assms(1)] by simp
  then have "roundDown (0 + ucast (32 :: 32 word) - 1) (cacheLineSize xc) = 0" by (simp only: unat_eq_zero)
  moreover have "isSet row_flags ROWOP" by (simp add: row_flags_def request_flags)
  ultimately show ?thesis
    using virt_request_flags(1,2) [of 0 0 32 row_flags "cpu_master xc" "cpu_pc xc" "cpu_id xc" 0 now]
    by (cases "pl_op pl") (simp_all add: writeMem_def splitRowOp_def row_translation_def row_start_def row_parts_def row_req_def Let_def)
qed

text \<open>The payload with every operand that did not fault replaced by its physical address.\<close>

definition translated_payload :: "(request \<Rightarrow> request \<times> 'f option) \<Rightarrow> request \<Rightarrow> rowop_payload \<Rightarrow> rowop_payload" where
  "translated_payload tlb r pl = pl\<lparr>pl_dest := operand tlb r (pl_dest pl),
     pl_src1 := (if 1 \<in> row_parts (pl_op pl) then operand tlb r (pl_src1 pl) else pl_src1 pl),
     pl_src2 := (if 2 \<in> row_parts (pl_op pl) then operand tlb r (pl_src2 pl) else pl_src2 pl)\<rparr>"

lemma operand_faulty: "operand_fault tlb r a \<noteq> None \<Longrightarrow> operand tlb r a = a"
  by (auto simp: operand_fault_def operand_def split: prod.splits option.splits)

definition flags_kept :: "request \<Rightarrow> request \<Rightarrow> bool" where
  "flags_kept r r' \<longleftrightarrow> clearFlags (req_flags r') (UNCACHEABLE OR STRICT_ORDER) = clearFlags (req_flags r) (UNCACHEABLE OR STRICT_ORDER)"

lemma flags_kept_add: "tlb_ok tlb \<Longrightarrow> flags_kept r main \<Longrightarrow> flags_kept r (add_flags tlb a r main)"
proof -
  assume ok: "tlb_ok tlb" "flags_kept r main"
  have or: "clearFlags (setFlags x y) m = clearFlags x m OR clearFlags y m" for x y m :: "32 word"
    by (simp add: clearFlags_def setFlags_def bit.conj_disj_distrib2)
  have "clearFlags (req_flags (fst (tlb (r\<lparr>req_vaddr := a\<rparr>)))) (UNCACHEABLE OR STRICT_ORDER) = clearFlags (req_flags r) (UNCACHEABLE OR STRICT_ORDER)"
    using ok(1) by (simp add: tlb_ok_def)
  with ok(2) show ?thesis by (simp add: flags_kept_def or)
qed

lemma row_translated_ok:
  assumes "tlb_ok tlb" "isSet (privateFlags r) (VALID_PADDR OR VALID_VADDR)"
  shows "\<exists>main. finish_row_op (row_translated tlb r pl res) = Some ((row_translated tlb r pl res)\<lparr>
      tr_data := RowPayload (translated_payload tlb r pl), mainReq := setPaddr 0 main\<rparr>) \<and> flags_kept r main \<and>
      privateFlags main = privateFlags r \<and> req_size main = req_size r"
proof -
  define pl1 where "pl1 = (if operand_fault tlb r (pl_dest pl) = None then pl\<lparr>pl_dest := operand tlb r (pl_dest pl)\<rparr> else pl)"
  define m1 where "m1 = add_flags tlb (pl_dest pl) r r"
  define pl2 where "pl2 = (if 1 \<in> row_parts (pl_op pl) \<and> operand_fault tlb r (pl_src1 pl) = None then pl1\<lparr>pl_src1 := operand tlb r (pl_src1 pl)\<rparr> else pl1)"
  define m2 where "m2 = (if 1 \<in> row_parts (pl_op pl) then add_flags tlb (pl_src1 pl) r m1 else m1)"
  define pl3 where "pl3 = (if 2 \<in> row_parts (pl_op pl) \<and> operand_fault tlb r (pl_src2 pl) = None then pl2\<lparr>pl_src2 := operand tlb r (pl_src2 pl)\<rparr> else pl2)"
  define m3 where "m3 = (if 2 \<in> row_parts (pl_op pl) then add_flags tlb (pl_src2 pl) r m2 else m2)"
  have "pl1 = pl\<lparr>pl_dest := operand tlb r (pl_dest pl)\<rparr>"
    using operand_faulty [of tlb r "pl_dest pl"] by (cases pl) (simp add: pl1_def)
  moreover from this have "pl2 = (if 1 \<in> row_parts (pl_op pl) then pl1\<lparr>pl_src1 := operand tlb r (pl_src1 pl)\<rparr> else pl1)"
    using operand_faulty [of tlb r "pl_src1 pl"] by (cases pl) (simp add: pl2_def)
  moreover from calculation have "pl3 = (if 2 \<in> row_parts (pl_op pl) then pl2\<lparr>pl_src2 := operand tlb r (pl_src2 pl)\<rparr> else pl2)"
    using operand_faulty [of tlb r "pl_src2 pl"] by (cases pl) (simp add: pl3_def)
  ultimately have pl3: "pl3 = translated_payload tlb r pl" by (cases pl) (simp add: translated_payload_def)
  have "flags_kept r m1" unfolding m1_def by (rule flags_kept_add [OF assms(1)]) (simp add: flags_kept_def)
  then have "flags_kept r m2" unfolding m2_def using flags_kept_add [OF assms(1)] by presburger
  then have m: "flags_kept r m3" "privateFlags m3 = privateFlags r" "req_size m3 = req_size r"
    unfolding m3_def using flags_kept_add [OF assms(1)] by (simp_all add: m2_def m1_def add_flags_def del: add_flags_simps)
  have v: "isSet (privateFlags m1) (VALID_PADDR OR VALID_VADDR)" "isSet (privateFlags m2) (VALID_PADDR OR VALID_VADDR)"
    using assms(2) by (simp_all add: m1_def m2_def)
  have t1: "take_operand (\<lambda>p. pl_dest_update (\<lambda>_. p)) (operand_fault tlb r (pl_dest pl)) (Some (fst (tlb (r\<lparr>req_vaddr := pl_dest pl\<rparr>)))) (pl, r) = Some (pl1, m1)"
    by (simp add: take_operand_ok [OF assms] pl1_def m1_def)
  have t2: "take_operand (\<lambda>p. pl_src1_update (\<lambda>_. p)) (if 1 \<in> row_parts (pl_op pl) then operand_fault tlb r (pl_src1 pl) else None)
      (if 1 \<in> row_parts (pl_op pl) then Some (fst (tlb (r\<lparr>req_vaddr := pl_src1 pl\<rparr>))) else None) (pl1, m1) = Some (pl2, m2)"
    by (cases "1 \<in> row_parts (pl_op pl)") (simp_all add: take_operand_ok [OF assms(1) v(1)] pl2_def m2_def take_operand_def [of _ _ None])
  have t3: "take_operand (\<lambda>p. pl_src2_update (\<lambda>_. p)) (if 2 \<in> row_parts (pl_op pl) then operand_fault tlb r (pl_src2 pl) else None)
      (if 2 \<in> row_parts (pl_op pl) then Some (fst (tlb (r\<lparr>req_vaddr := pl_src2 pl\<rparr>))) else None) (pl2, m2) = Some (pl3, m3)"
    by (cases "2 \<in> row_parts (pl_op pl)") (simp_all add: take_operand_ok [OF assms(1) v(2)] pl3_def m3_def take_operand_def [of _ _ None])
  have "finish_row_op (row_translated tlb r pl res) = Some ((row_translated tlb r pl res)\<lparr>tr_data := RowPayload pl3, mainReq := setPaddr 0 m3\<rparr>)"
    using t1 t2 t3 by (simp add: finish_row_op_def row_translated_def row_start_def Let_def)
  then show ?thesis using m pl3 by blast
qed

lemma kept_flag:
  assumes "flags_kept r r'" "x AND (UNCACHEABLE OR STRICT_ORDER) = 0"
  shows "isSet (req_flags r') x = isSet (req_flags r) x"
proof -
  have "f AND x = clearFlags f (UNCACHEABLE OR STRICT_ORDER) AND x" for f
  proof (rule bit_word_eqI)
    fix k assume k: "k < LENGTH(32)"
    have "bit (x AND (UNCACHEABLE OR STRICT_ORDER)) k = False" unfolding assms(2) by simp
    then show "bit (f AND x) k = bit (clearFlags f (UNCACHEABLE OR STRICT_ORDER) AND x) k" using k by (auto simp: clearFlags_def bit_simps)
  qed
  from this [of "req_flags r'"] this [of "req_flags r"] assms(1) show ?thesis by (simp only: isSet_def flags_kept_def)
qed

lemma row_req_ok:
  "isSet (privateFlags (row_req now xc)) (VALID_PADDR OR VALID_VADDR)" "isSet (privateFlags (row_req now xc)) VALID_SIZE"
  "req_flags (row_req now xc) = row_flags" "req_size (row_req now xc) = 32"
  by (simp_all add: row_req_def virt_request_def setThreadContext_def setVirt_def new_request_def request_flags)

lemma write_packet_flags:
  "isSet (setFlags (pkt_flags (createWrite r)) DYNAMIC_DATA) (STATIC_DATA OR DYNAMIC_DATA)"
  "\<not> isSet (setFlags (pkt_flags (createWrite r)) DYNAMIC_DATA) MEM_INHIBIT" "req (createWrite r) = r" "cmd (createWrite r) = makeWriteCmd r"
  by (cases "isSet (privateFlags r) VALID_PADDR"; cases "isSet (privateFlags r) VALID_SIZE";
      simp add: createWrite_def new_packet_def Let_def packet_flags setFlags_def isSet_def)+

text \<open>
  What becomes of the translated row operation: a fault of the destination is raised, and everything else is sent to
  the memory as one write.
\<close>

lemma row_action:
  assumes "tlb_ok tlb" "distinct qs" "set qs = row_parts (pl_op pl)"
  shows "\<exists>st. translate_parts tlb qs (row_start (row_req now xc) pl res) = Some st \<and>
    (if operand_fault tlb (row_req now xc) (pl_dest pl) \<noteq> None
     then finishTranslation st = Some (Translation_Fault (operand_fault tlb (row_req now xc) (pl_dest pl)))
     else \<exists>p. finishTranslation st = Some (Write_Packet p) \<and> cmd p = WriteReq \<and> isRowOp (req p) \<and> \<not> memInhibitAsserted p \<and>
       getPayload p = Some (translated_payload tlb (row_req now xc) pl))"
proof -
  let ?r = "row_req now xc" let ?t = "row_translated tlb ?r pl res"
  obtain main where m: "finish_row_op ?t = Some (?t\<lparr>tr_data := RowPayload (translated_payload tlb ?r pl), mainReq := setPaddr 0 main\<rparr>)"
      "flags_kept ?r main" using row_translated_ok [OF assms(1) row_req_ok(1), of now xc pl res] by blast
  have fl: "isSet (req_flags (setPaddr 0 main)) x = isSet row_flags x" if "x AND (UNCACHEABLE OR STRICT_ORDER) = 0" for x
    using kept_flag [OF m(2) that] by (simp add: row_req_ok setPaddr_def)
  have same: "isSet (req_flags (setPaddr 0 main)) x = isSet row_flags x" if "x \<in> {PREFETCH, LLSC, MEM_SWAP OR MEM_SWAP_COND, MEM_SWAP_COND, ROWOP, NO_ACCESS}" for x
    using that by (intro fl) (auto simp: PREFETCH_def LLSC_def MEM_SWAP_def MEM_SWAP_COND_def ROWOP_def NO_ACCESS_def UNCACHEABLE_def STRICT_ORDER_def)
  have f: "\<not> isPrefetch (setPaddr 0 main)" "\<not> req_isLLSC (setPaddr 0 main)" "\<not> isSwap (setPaddr 0 main)" "\<not> isCondSwap (setPaddr 0 main)"
      "isRowOp (setPaddr 0 main)" "\<not> isSet (req_flags (setPaddr 0 main)) NO_ACCESS"
    unfolding isPrefetch_def req_isLLSC_def isSwap_def isCondSwap_def isRowOp_def by (subst same; simp add: row_flags_def request_flags NO_ACCESS_def)+
  have t: "isSplit ?t = False" "faults ?t ! 0 = operand_fault tlb ?r (pl_dest pl)" "tr_mode ?t = TLB_Write" "tr_res ?t = res"
    by (simp_all add: row_translated_def row_start_def Let_def)
  show ?thesis
    unfolding translate_row_parts [OF assms(2,3)] m(1)
    using f t write_packet_flags [of "setPaddr 0 main"]
    by (simp add: finishTranslation_def getFault_def sendData_def makeWriteCmd_def Let_def memInhibitAsserted_def getPayload_def)
qed

end
