(* ===== verification/Spec2Isabelle.thy ===== *)
theory Spec2Isabelle
  imports Pud_Prelude Row_Ops Arith_Workloads Mul_Workloads Div_Workload Logic_Workloads
    Sign_Workloads Bitweave Bitcount
    C_Arrays Baseline Swar
    Int_Math Dram_Bank Addr_Range Mem_Request Mem_Packet Phys_Mem Row_Refine Dram_Queue Dram_Refresh Dram_Sched
    Dram_Front Dram_Ctrl Dram_Config Dram_Steps Row_Translate
begin

text \<open>
  Verification of MIMDRAM: processing inside DRAM, from the C workloads that issue row operations down to the
  bytes of the simulated memory and the timing of the DRAM commands.

  \<^bold>\<open>The program.\<close> The repository has three parts.

  \<^item> \<^verbatim>\<open>microworkloads/\<close> holds C programs that compute on whole DRAM rows. A value is stored
    vertically, bit \<open>j\<close> of every value in row \<open>j\<close> of its vector, and a program is a sequence of the macros of
    \<^verbatim>\<open>mimdram.h\<close>: AAP copies a row (or the majority of three rows) to other rows, AP computes a majority in place.
    Each workload has a baseline, a plain C loop over arrays.

  \<^item> \<^verbatim>\<open>gem5/\<close> is the simulator, extended by row operations: the x86 instructions, the translation of their
    three operands, the request and packet that carry them, the memory that performs them on its backing store, and the
    DRAM controller that issues activate-activate-precharge sequences for them.

  \<^item> \<^verbatim>\<open>llvm-pim-pass/\<close> is a compiler pass.

  A row operation goes from the instruction through \<^verbatim>\<open>TimingSimpleCPU::writeMem\<close> and the translations to a packet,
  is queued and scheduled by \<^verbatim>\<open>DRAMCtrl\<close>, which accounts for the row commands, and is performed by
  \<^verbatim>\<open>AbstractMemory::access\<close> when it is answered.

  \<^bold>\<open>Workloads on rows.\<close> \<open>Row_Ops\<close> models \<^verbatim>\<open>mimdram.h\<close>: addresses, vectors, the two macros and the
  allocation. The rows live behind the locale \<open>ambit_substrate\<close>, whose laws say what the two commands do on every bit line;
  it is interpreted on a machine of bit lines as \<open>ambit\<close>. \<open>Arith_Workloads\<close>, \<open>Mul_Workloads\<close>, \<open>Div_Workload\<close>,
  \<open>Logic_Workloads\<close>, \<open>Sign_Workloads\<close>, \<open>Bitweave\<close> and \<open>Bitcount\<close> have one definition per loop body, loop and
  \<^verbatim>\<open>main\<close>, named after the file. The properties hold for every substrate that satisfies the laws: the arithmetic,
  reductions and comparisons compute in every column what they should; minimum, maximum, selection, absolute value,
  rectification, bit count and BitWeaving scan do not, and the properties say what they compute instead. There is no fuel
  in the development: a recursion that may not end (the bit count, the search for primes) is a partial function, for
  which not returning is \<open>None\<close>, and the bit count is shown to return for every
  length an \<^verbatim>\<open>int\<close> holds.

  \<^bold>\<open>Baselines.\<close> \<open>C_Arrays\<close> has byte arrays and the C library, with \<^verbatim>\<open>malloc\<close> and \<^verbatim>\<open>rand\<close> as
  parameters; \<open>malloc_ok\<close> and \<open>rand_ok\<close> state what is relied on. An access outside an array, the use of an uninitialised
  pointer and signed overflow are the result \<open>None\<close>. \<open>Baseline\<close> has the programs, \<open>Swar\<close> the word-parallel bit
  tricks, which agree with their bitwise definitions, and the equivalence of rows and baselines.

  \<^bold>\<open>Simulator.\<close> \<open>Int_Math\<close> (\<^verbatim>\<open>base/intmath\<close>, \<^verbatim>\<open>base/bitfield.hh\<close>), \<open>Addr_Range\<close>
  (\<^verbatim>\<open>base/addr_range.hh\<close>), \<open>Mem_Request\<close> (\<^verbatim>\<open>mem/request.hh\<close>), \<open>Mem_Packet\<close>
  (\<^verbatim>\<open>mem/packet\<close>) and \<open>Phys_Mem\<close> (\<^verbatim>\<open>mem/abstract_mem\<close>) follow the source at its widths.
  \<open>Row_Translate\<close> (\<^verbatim>\<open>cpu/translation.hh\<close>, \<^verbatim>\<open>cpu/simple/timing.cc\<close>,
  \<^verbatim>\<open>microops/rowbit.isa\<close>) takes a row instruction to the packet; the TLB is a parameter, with \<open>tlb_ok\<close> as what is
  relied on. \<open>Row_Refine\<close> relates the two halves of the simulator: the row commands, run on the bit lines, leave the bits
  of the bytes that the memory stores.

  \<^bold>\<open>DRAM controller\<close> (\<^verbatim>\<open>mem/dram_ctrl\<close>). \<open>Dram_Bank\<close>: configuration, banks, ranks and row
  commands; the locale \<open>timed_commands\<close> has the argument that a sequence of commands completes, interpreted as
  \<open>row_cmds\<close>. \<open>Dram_Queue\<close>: address decoding, queues, request and response handlers, over any memory (a function
  \<open>acc\<close>). \<open>Dram_Refresh\<close>: events of a rank. \<open>Dram_Sched\<close>: reordering, bank access, the scheduler event.
  \<open>Dram_Config\<close>: construction and its checks. \<open>Dram_Front\<close>: the invariant of the controller. \<open>Dram_Ctrl\<close>: start,
  drain, and the handlers under the locale \<open>memory_port\<close>, the contract of the memory behind the controller.
  \<open>Dram_Steps\<close> interprets it on the physical memory as \<open>phys\<close> and has the runs of the whole, an inductive relation
  over ticks and states. A failed assertion, a panic, a fatal error or undefined behaviour is \<open>None\<close> throughout, so that
  returning is the statement that none of them happens. Ticks are natural numbers; differences wrap at 64 bits as in the
  source, sums are assumed not to reach \<open>2 ^ 64\<close> ticks, half a year of simulated time at one tick per picosecond.
  In the runs of \<open>Dram_Steps\<close> a refresh begins only when the recorded activations of the rank are past
  (\<open>activations_past\<close>). The code does not see to that for a rank that is idle with an activation ahead of it, and a
  property shows the panic that follows; such runs are not followed.

  \<^bold>\<open>Not modelled.\<close> Caches, interconnect and Ruby: row operations bypass them, and coherence is a subject of its
  own. CPU pipelines and instruction sets other than the write path of row operations. Devices, statistics, power
  estimation, configuration scripts and external libraries: no effect on the modelled state, or code that is not in the
  repository. The LLVM pass, all of whose state is in the LLVM library. The BitWeaving baselines and the data-copy program,
  timing drivers whose results are not used, and the float part of \<^verbatim>\<open>70_matching-index.c\<close>. Order among events of one
  tick: the runs allow every order.
\<close>


text \<open>The reference machine, with every memory cell clear, is where the witnesses run.\<close>

definition blank :: "ambit_mem prog" where
  "blank = \<lparr>dram = (\<lambda>l c. False), drawn = 0\<rparr>"

lemma ambit_alloc_ok: "alloc_ok ambit_hw"
  by (simp add: alloc_ok_def ambit_hw_def)

lemma row_0_in_range: "0 < per_col_rows 0"
  by (simp add: per_col_rows_def per_col_bytes_def num_vals_def ROW_SIZE_def)

text \<open>A C library for the witnesses: every allocation succeeds, and \<open>rand\<close> counts.\<close>

definition sample_libc :: libc where
  "sample_libc = \<lparr>malloc = (\<lambda>k sz. replicate sz 0), rand = (\<lambda>i. of_nat (i mod 1000))\<rparr>"



definition no_calls :: calls where
  "no_calls = \<lparr>mallocs = 0, rands = 0\<rparr>"



text \<open>A two-rank configuration with the shape of the DDR3 devices of the simulator.\<close>

definition sample_cfg :: config where
  "sample_cfg = \<lparr>deviceSize = 2 ^ 29, deviceBusWidth = 8, burstLength = 8, deviceRowBufferSize = 1024, devicesPerRank = 8,
     burstSize = 64, rowBufferSize = 8192, columnsPerRowBuffer = 128, columnsPerStripe = 1, ranksPerChannel = 2,
     bankGroupsPerRank = 0, bankGroupArch = False, banksPerRank = 8, channels = 1, rowsPerBank = 65536,
     readBufferSize = 32, writeBufferSize = 64, writeHighThreshold = 54, writeLowThreshold = 32, minWritesPerSwitch = 16,
     tCK = 1250, tWTR = 7500, tRTW = 2500, tCS = 2500, tBURST = 5000, tCCD_L = 0, tRCD = 13750, tCL = 13750, tRP = 13750,
     tRAS = 35000, tWR = 15000, tRTP = 7500, tRFC = 260000, tREFI = 7800000, tRRD = 6000, tRRD_L = 0, tXAW = 30000,
     tWL = 10000, tWLOV = 4000, activationLimit = 4, memSchedPolicy = frfcfs, addrMapping = RoRaBaCoCh,
     pageMgmt = open_adaptive, maxAccessesPerRow = 16, frontendLatency = 10000, backendLatency = 10000\<rparr>"

lemma sample_rank_inv: "rank_inv sample_cfg (new_rank sample_cfg 0)" "0 < banksPerRank sample_cfg"
  "openRow (banks (new_rank sample_cfg 0) ! 0) = NO_ROW" "actAllowedAt (banks (new_rank sample_cfg 0) ! 0) \<le> 1000"
  by (simp_all add: new_rank_inv) (simp_all add: sample_cfg_def new_rank_def new_bank_def)

lemmas ambit_facts = ambit.ambit_substrate_axioms ambit_alloc_ok row_0_in_range

text \<open>A memory of 64 KiB and packets for it.\<close>

definition sample_mem :: memory where
  "sample_mem = \<lparr>mrange = make_range 0 0xffff, pmem = Some (replicate 65536 0), lockedAddrList = [], wakeups = []\<rparr>"

definition sample_pkt :: "mem_cmd \<Rightarrow> 64 word \<Rightarrow> byte8 list \<Rightarrow> packet" where
  "sample_pkt c a buf =
     (let p = new_packet (setThreadContext 1 0 (phys_request a (of_nat (length buf)) 0 0 0)) c
      in p\<lparr>pdata := Bytes buf, pkt_flags := setFlags (pkt_flags p) DYNAMIC_DATA\<rparr>)"

lemmas sample_pkt_defs = sample_pkt_def sample_mem_def new_packet_def setThreadContext_def phys_request_def setPhys_def new_request_def
  make_range_def packet_flags request_flags Let_def

lemma sample_pkt_at:
  "pkt_at (sample_pkt ReadReq 4096 [0, 0, 0, 0]) 4096 [0, 0, 0, 0]" "pkt_at (sample_pkt WriteReq 4096 [1, 2, 3, 4]) 4096 [1, 2, 3, 4]"
  by (simp_all add: sample_pkt_defs pkt_at_def getAddr_def getSize_def getPtr_def testCmdAttrib_def)

lemma sample_mem_pkt:
  assumes "\<not> testCmdAttrib c IsPrint" "length buf = 4"
  shows "mem_pkt (sample_pkt c 4096 buf) 4096 buf sample_mem (replicate 65536 0)"
    "contextId (req (sample_pkt c 4096 buf)) = Some 1" "cmd (sample_pkt c 4096 buf) = c"
  using assms by (auto simp: sample_pkt_defs mem_pkt_def pkt_at_def getAddr_def getSize_def getPtr_def
    memInhibitAsserted_def isRowOp_def isInstFetch_def getPaddr_def store_off_def contextId_def)

lemma sample_mem_locks: "lock_inv sample_mem" "reservations sample_mem = {}"
  by (simp_all add: lock_inv_def reservations_def sample_mem_def)

definition sample_payload :: rowop_payload where
  "sample_payload = \<lparr>pl_op = ROWXOR, pl_dest = 16384, pl_src1 = 0, pl_src2 = 8192\<rparr>"

definition sample_row_pkt :: packet where
  "sample_row_pkt = (sample_pkt WriteReq 16384 [0])\<lparr>pdata := RowPayload sample_payload,
     req := req (sample_pkt WriteReq 16384 [0])\<lparr>req_flags := ROWOP\<rparr>\<rparr>"

lemma sample_row_pkt_ok: "isRowOp (req sample_row_pkt)" "\<not> memInhibitAsserted sample_row_pkt" "cmd sample_row_pkt = WriteReq"
  "getPayload sample_row_pkt = Some sample_payload"
  by (simp_all add: sample_row_pkt_def sample_pkt_defs isRowOp_def memInhibitAsserted_def getPayload_def)

lemma sample_row_access: "\<exists>pm'. row_access sample_payload sample_mem = Some (set_mem pm' sample_mem)"
  using row_access_ok [of sample_mem "replicate 65536 0" sample_payload]
  by (fastforce simp: sample_payload_def sample_mem_def row_of_store_def store_off_def GEM5_ROW_SIZE_def make_range_def)








definition sample_dram_pkt :: "nat \<Rightarrow> 32 word \<Rightarrow> dram_packet" where
  "sample_dram_pkt i row = \<lparr>entryTime = 0, readyTime = 0, dp_pkt = sample_pkt ReadReq 4096 [0, 0, 0, 0], dp_isRead = True, dp_rank = i, dp_bank = 3,
     dp_row = row, src1_row = 0, src2_row = 0, is_row_op = False, dp_row_op = ROWAND, dp_bankId = 8 * i + 3, dp_addr = 4096, dp_size = 4, burstHelper = None\<rparr>"

definition sample_ranks :: "rank list" where
  "sample_ranks = [(new_rank sample_cfg 0)\<lparr>refreshState := REF_RUN\<rparr>, new_rank sample_cfg 1]"

lemma sample_ranks_ok: "ranks_inv sample_cfg sample_ranks" "ticks_fit sample_cfg 0 sample_ranks"
  "\<not> isAvailable (sample_ranks ! 0)" "isAvailable (sample_ranks ! 1)"
proof -
  have "rank_inv sample_cfg ((new_rank sample_cfg 0)\<lparr>refreshState := REF_RUN\<rparr>)" using new_rank_inv [of sample_cfg 0] by (simp add: rank_inv_def)
  then show "ranks_inv sample_cfg sample_ranks" using new_rank_inv [of sample_cfg 1] by (simp add: ranks_inv_def sample_ranks_def sample_cfg_def [THEN arg_cong [of _ _ ranksPerChannel]])
  show "ticks_fit sample_cfg 0 sample_ranks"
    by (auto simp: ticks_fit_def sample_ranks_def new_rank_def new_bank_def act_tick_of_def MaxTick_def)
qed (simp_all add: sample_ranks_def isAvailable_def new_rank_def)

text \<open>A CPU, and a TLB with one faulting page.\<close>

definition sample_cpu :: cpu where
  "sample_cpu = \<lparr>cpu_master = 5, cpu_id = 0, cpu_pc = 0x400000, cpu_task = 1024, cacheLineSize = 64\<rparr>"

definition sample_tlb :: "request \<Rightarrow> request \<times> string option" where
  "sample_tlb r = (if req_vaddr r = 8192 then (r, Some ''page fault'') else (setPaddr (req_vaddr r + 0x100000) r, None))"

lemma sample_tlb_ok: "tlb_ok sample_tlb"
proof -
  have "(x OR 2) AND 2 \<noteq> 0" for x :: "8 word"
  proof -
    have "bit ((x OR 2) AND 2) 1" by (simp add: bit_simps bit_numeral_rec)
    then show ?thesis by auto
  qed
  then show ?thesis by (auto simp: tlb_ok_def sample_tlb_def getPaddr_def setPaddr_def request_flags)
qed

section \<open>Arithmetic workloads\<close>

text \<open>C3. The division workload returns whenever its allocations succeed, and then every column of the
  output holds the quotient of the two operands of that column, or all ones where the divisor is zero.\<close>

theorem divu_correct:
  assumes "ambit_substrate hw peek" "alloc_ok hw" "R < per_col_rows arg2" 
  shows "\<exists>s'. divu_main hw n arg2 s = Some s' \<and>
    column_val peek (dram s') Output n R c =
      (if column_val peek (dram s') Vals2 n R c = 0 then 2 ^ n - 1
       else column_val peek (dram s') Vals1 n R c div column_val peek (dram s') Vals2 n R c)"
  by (rule ambit_substrate.divu_program [OF assms])

theorem divu_correct_witness:
  "\<exists>s'. divu_main ambit_hw 4 0 blank = Some s' \<and>
    column_val (\<lambda>m. m) (dram s') Output 4 0 5 =
      (if column_val (\<lambda>m. m) (dram s') Vals2 4 0 5 = 0 then 2 ^ 4 - 1
       else column_val (\<lambda>m. m) (dram s') Vals1 4 0 5 div column_val (\<lambda>m. m) (dram s') Vals2 4 0 5)"
  by (rule divu_correct [OF ambit_facts])

text \<open>C4. The multiplication workload returns and its output columns, twice as wide as the operands, hold
  the exact product.\<close>

theorem multu_correct:
  assumes "ambit_substrate hw peek" "alloc_ok hw" "R < per_col_rows arg2" 
  shows "\<exists>s'. multu_main hw n arg2 s = Some s' \<and>
    column_val peek (dram s') Output (2 * n) R c =
      column_val peek (dram s') Vals1 n R c * column_val peek (dram s') Vals2 n R c"
  by (rule ambit_substrate.multu_program [OF assms])

theorem multu_correct_witness:
  "\<exists>s'. multu_main ambit_hw 4 0 blank = Some s' \<and>
    column_val (\<lambda>m. m) (dram s') Output (2 * 4) 0 5 =
      column_val (\<lambda>m. m) (dram s') Vals1 4 0 5 * column_val (\<lambda>m. m) (dram s') Vals2 4 0 5"
  by (rule multu_correct [OF ambit_facts])

text \<open>C7. Multiplication by a constant: the output columns hold the product of the operand with
  \<open>0x55555555\<close> truncated to the operand width, for widths a 32-bit shift supports.\<close>

theorem multu_by_const_correct:
  assumes "ambit_substrate hw peek" "alloc_ok hw" "R < per_col_rows arg2" "0 < n" "n < 32"
  shows "\<exists>s'. multu_by_const_main hw n arg2 s = Some s' \<and>
    column_val peek (dram s') Output (2 * n) R c = 0x55555555 mod 2 ^ n * column_val peek (dram s') Vals n R c"
  by (rule ambit_substrate.multu_by_const_program [OF assms])

theorem multu_by_const_correct_witness:
  "\<exists>s'. multu_by_const_main ambit_hw 4 0 blank = Some s' \<and>
    column_val (\<lambda>m. m) (dram s') Output (2 * 4) 0 5 = 0x55555555 mod 2 ^ 4 * column_val (\<lambda>m. m) (dram s') Vals 4 0 5"
  by (rule multu_by_const_correct [OF ambit_facts]) simp_all

text \<open>C8. The addition workload returns and its output columns hold the sum of the operands modulo the width.\<close>

theorem addition_correct:
  assumes "ambit_substrate hw peek" "alloc_ok hw" "R < per_col_rows arg2" 
  shows "\<exists>s'. addition_main hw n arg2 s = Some s' \<and>
    column_val peek (dram s') Output n R c =
      (column_val peek (dram s') Vals1 n R c + column_val peek (dram s') Vals2 n R c) mod 2 ^ n"
  by (rule ambit_substrate.addition_program [OF assms])

theorem addition_correct_witness:
  "\<exists>s'. addition_main ambit_hw 4 0 blank = Some s' \<and>
    column_val (\<lambda>m. m) (dram s') Output 4 0 5 =
      (column_val (\<lambda>m. m) (dram s') Vals1 4 0 5 + column_val (\<lambda>m. m) (dram s') Vals2 4 0 5) mod 2 ^ 4"
  by (rule addition_correct [OF ambit_facts])

text \<open>C9. The subtraction workload returns and its output columns hold the difference modulo the width.\<close>

theorem subtraction_correct:
  assumes "ambit_substrate hw peek" "alloc_ok hw" "R < per_col_rows arg2" 
  shows "\<exists>s'. subtraction_main hw n arg2 s = Some s' \<and>
    column_val peek (dram s') Output n R c =
      (2 ^ n + column_val peek (dram s') Vals1 n R c - column_val peek (dram s') Vals2 n R c) mod 2 ^ n"
  by (rule ambit_substrate.subtraction_program [OF assms])

theorem subtraction_correct_witness:
  "\<exists>s'. subtraction_main ambit_hw 4 0 blank = Some s' \<and>
    column_val (\<lambda>m. m) (dram s') Output 4 0 5 =
      (2 ^ 4 + column_val (\<lambda>m. m) (dram s') Vals1 4 0 5 - column_val (\<lambda>m. m) (dram s') Vals2 4 0 5) mod 2 ^ 4"
  by (rule subtraction_correct [OF ambit_facts])

section \<open>Reductions and comparisons\<close>

text \<open>C18. The three reduction workloads return and leave in every column the parity, the conjunction and the
  disjunction of the bits of the operand.\<close>

theorem reductions_correct:
  assumes "ambit_substrate hw peek" "alloc_ok hw" "R < per_col_rows arg2"
  shows "(\<exists>s'. xor_reduction_main hw n arg2 s = Some s' \<and>
    peek (dram s') (Data Output 0 R) c = parity n (\<lambda>j. peek (dram s') (Data Vals j R) c))
    \<and> (\<exists>s'. and_reduction_main hw n arg2 s = Some s' \<and>
    peek (dram s') (Data Output 0 R) c = (\<forall>j<n. peek (dram s') (Data Vals j R) c))
    \<and> (\<exists>s'. or_reduction_main hw n arg2 s = Some s' \<and>
    peek (dram s') (Data Output 0 R) c = (\<exists>j<n. peek (dram s') (Data Vals j R) c))"
  using ambit_substrate.xor_reduction_program [OF assms]
    ambit_substrate.and_reduction_program [OF assms]
    ambit_substrate.or_reduction_program [OF assms]
  by blast

theorem reductions_correct_witness:
  "(\<exists>s'. xor_reduction_main ambit_hw 4 0 blank = Some s' \<and>
    (\<lambda>m. m) (dram s') (Data Output 0 0) 5 = parity 4 (\<lambda>j. (\<lambda>m. m) (dram s') (Data Vals j 0) 5))
    \<and> (\<exists>s'. and_reduction_main ambit_hw 4 0 blank = Some s' \<and>
    (\<lambda>m. m) (dram s') (Data Output 0 0) 5 = (\<forall>j<4. (\<lambda>m. m) (dram s') (Data Vals j 0) 5))
    \<and> (\<exists>s'. or_reduction_main ambit_hw 4 0 blank = Some s' \<and>
    (\<lambda>m. m) (dram s') (Data Output 0 0) 5 = (\<exists>j<4. (\<lambda>m. m) (dram s') (Data Vals j 0) 5))"
  by (rule reductions_correct [OF ambit_facts])

text \<open>C19. The three comparison workloads, for non-empty columns, return and leave the outcome of the unsigned
  comparison in every column.\<close>

theorem comparisons_correct:
  assumes "ambit_substrate hw peek" "alloc_ok hw" "R < per_col_rows arg2" "0 < n"
  shows "(\<exists>s'. greater_main hw n arg2 s = Some s' \<and>
    peek (dram s') (Data Output 0 R) c = (column_val peek (dram s') Vals2 n R c < column_val peek (dram s') Vals1 n R c))
    \<and> (\<exists>s'. greater_equal_main hw n arg2 s = Some s' \<and>
    peek (dram s') (Data Output 0 R) c = (column_val peek (dram s') Vals2 n R c \<le> column_val peek (dram s') Vals1 n R c))
    \<and> (\<exists>s'. equal_main hw n arg2 s = Some s' \<and>
    peek (dram s') (Data Output 0 R) c = (column_val peek (dram s') Vals1 n R c = column_val peek (dram s') Vals2 n R c))"
  using ambit_substrate.greater_program [OF assms(1-3)]
    ambit_substrate.greater_equal_program [OF assms(1-3)]
    ambit_substrate.equal_program [OF assms]
  by blast

theorem comparisons_correct_witness:
  "(\<exists>s'. greater_main ambit_hw 4 0 blank = Some s' \<and>
    (\<lambda>m. m) (dram s') (Data Output 0 0) 5 = (column_val (\<lambda>m. m) (dram s') Vals2 4 0 5 < column_val (\<lambda>m. m) (dram s') Vals1 4 0 5))
    \<and> (\<exists>s'. greater_equal_main ambit_hw 4 0 blank = Some s' \<and>
    (\<lambda>m. m) (dram s') (Data Output 0 0) 5 = (column_val (\<lambda>m. m) (dram s') Vals2 4 0 5 \<le> column_val (\<lambda>m. m) (dram s') Vals1 4 0 5))
    \<and> (\<exists>s'. equal_main ambit_hw 4 0 blank = Some s' \<and>
    (\<lambda>m. m) (dram s') (Data Output 0 0) 5 = (column_val (\<lambda>m. m) (dram s') Vals1 4 0 5 = column_val (\<lambda>m. m) (dram s') Vals2 4 0 5))"
  by (rule comparisons_correct [OF ambit_facts]) simp

text \<open>C20. The two sign tests, for non-empty columns: \<open>>= 0\<close> is the negated top bit; \<open>> 0\<close> holds when the top
  bit is clear and the value is not zero.\<close>

theorem sign_tests_correct:
  assumes "ambit_substrate hw peek" "alloc_ok hw" "R < per_col_rows arg2" "0 < n"
  shows "(\<exists>s'. greater_equal_0_main hw n arg2 s = Some s' \<and>
    peek (dram s') (Data Output 0 R) c = (\<not> peek (dram s') (Data Vals (n - 1) R) c))
    \<and> (\<exists>s'. greater_than_0_main hw n arg2 s = Some s' \<and>
    peek (dram s') (Data Output 0 R) c = (\<not> peek (dram s') (Data Vals (n - 1) R) c \<and> column_val peek (dram s') Vals n R c \<noteq> 0))"
  using ambit_substrate.greater_equal_0_program [OF assms(1-3)]
    ambit_substrate.greater_than_0_program [OF assms]
  by blast

theorem sign_tests_correct_witness:
  "(\<exists>s'. greater_equal_0_main ambit_hw 4 0 blank = Some s' \<and>
    (\<lambda>m. m) (dram s') (Data Output 0 0) 5 = (\<not> (\<lambda>m. m) (dram s') (Data Vals (4 - 1) 0) 5))
    \<and> (\<exists>s'. greater_than_0_main ambit_hw 4 0 blank = Some s' \<and>
    (\<lambda>m. m) (dram s') (Data Output 0 0) 5 = (\<not> (\<lambda>m. m) (dram s') (Data Vals (4 - 1) 0) 5 \<and> column_val (\<lambda>m. m) (dram s') Vals 4 0 5 \<noteq> 0))"
  by (rule sign_tests_correct [OF ambit_facts]) simp

text \<open>C26. The recursive bit count and the computation of the space it needs both return, for every column
  length a 32-bit \<open>int\<close> holds; the count uses no more rows than that space, the space is never more than
  the column length, and no other row is written.\<close>

theorem bitcount_terminates_in_space:
  assumes "n < 2 ^ 31"
  shows "\<exists>space ps. necessary_space n = Some space \<and> bitcount merge_counts_fast 0 n out = Some (ps, width n) \<and>
    width n \<le> space \<and> space \<le> n \<and>
    (\<forall>b f g. passes_rel b ps f g \<longrightarrow> (\<forall>a i. a \<noteq> Output \<or> i < out \<or> out + space \<le> i \<longrightarrow> g a i = f a i))"
  using bitcount_sound [OF merge_counts_fast_ok assms, of 0 out] unfolding bitcount_spec_def by blast

theorem bitcount_terminates_in_space_witness:
  "\<exists>space ps. necessary_space 11 = Some space \<and> bitcount merge_counts_fast 0 11 0 = Some (ps, width 11) \<and>
    width 11 \<le> space \<and> space \<le> 11"
  using bitcount_terminates_in_space [of 11 0] by auto

section \<open>Workloads that miss their goal\<close>

text \<open>C21. The minimum and maximum workloads select by the right comparison, but the selected first operand is
  lost: where it should be the result, every bit of the output is set.\<close>

theorem min_max_behaviour:
  assumes "ambit_substrate hw peek" "alloc_ok hw" "R < per_col_rows arg2"
  shows "(\<exists>s'. min_main hw n arg2 s = Some s' \<and>
    column_val peek (dram s') Output n R c =
      (if column_val peek (dram s') Vals1 n R c < column_val peek (dram s') Vals2 n R c then 2 ^ n - 1 else column_val peek (dram s') Vals2 n R c))
    \<and> (\<exists>s'. max_main hw n arg2 s = Some s' \<and>
    column_val peek (dram s') Output n R c =
      (if column_val peek (dram s') Vals2 n R c < column_val peek (dram s') Vals1 n R c then 2 ^ n - 1 else column_val peek (dram s') Vals2 n R c))"
  using ambit_substrate.min_program [OF assms]
    ambit_substrate.max_program [OF assms]
  by blast

theorem min_max_behaviour_witness:
  "(\<exists>s'. min_main ambit_hw 4 0 blank = Some s' \<and>
    column_val (\<lambda>m. m) (dram s') Output 4 0 5 =
      (if column_val (\<lambda>m. m) (dram s') Vals1 4 0 5 < column_val (\<lambda>m. m) (dram s') Vals2 4 0 5 then 2 ^ 4 - 1 else column_val (\<lambda>m. m) (dram s') Vals2 4 0 5))
    \<and> (\<exists>s'. max_main ambit_hw 4 0 blank = Some s' \<and>
    column_val (\<lambda>m. m) (dram s') Output 4 0 5 =
      (if column_val (\<lambda>m. m) (dram s') Vals2 4 0 5 < column_val (\<lambda>m. m) (dram s') Vals1 4 0 5 then 2 ^ 4 - 1 else column_val (\<lambda>m. m) (dram s') Vals2 4 0 5))"
  by (rule min_max_behaviour [OF ambit_facts])

text \<open>C22. The if-then-else workload has the same selection step: a column whose selection bit is set gets all
  ones instead of the first operand.\<close>

theorem if_then_else_behaviour:
  assumes "ambit_substrate hw peek" "alloc_ok hw" "R < per_col_rows arg2" 
  shows "\<exists>s'. if_then_else_main hw n arg2 s = Some s' \<and>
    column_val peek (dram s') Output n R c =
      (if peek (dram s') (Data Selection 0 R) c then 2 ^ n - 1 else column_val peek (dram s') Vals2 n R c)"
  by (rule ambit_substrate.if_then_else_program [OF assms])

theorem if_then_else_behaviour_witness:
  "\<exists>s'. if_then_else_main ambit_hw 4 0 blank = Some s' \<and>
    column_val (\<lambda>m. m) (dram s') Output 4 0 5 =
      (if (\<lambda>m. m) (dram s') (Data Selection 0 0) 5 then 2 ^ 4 - 1 else column_val (\<lambda>m. m) (dram s') Vals2 4 0 5)"
  by (rule if_then_else_behaviour [OF ambit_facts])

text \<open>C23. The absolute-value workload does not return the operand where it is non-negative: the result is zero
  or all ones, depending on what row T2 held before.\<close>

theorem abs_behaviour:
  assumes "ambit_substrate hw peek" "alloc_ok hw" "R < per_col_rows arg2" "0 < n"
  shows "\<exists>s'. abs_main hw n arg2 s = Some s' \<and>
    (peek (dram s') (Data Vals (n - 1) R) c \<or> column_val peek (dram s') Output n R c \<in> {0, 2 ^ n - 1})"
proof -
  obtain s' t where main: "abs_main hw n arg2 s = Some s'"
    and out: "\<forall>j<n. peek (dram s') (Data Output j R) c =
      (if peek (dram s') (Data Vals (n - 1) R) c \<and> (\<exists>i<j. peek (dram s') (Data Vals i R) c)
       then \<not> peek (dram s') (Data Vals j R) c else t)"
    using ambit_substrate.abs_program [OF assms] by blast
  have "bits_val n (\<lambda>j. peek (dram s') (Data Output j R) c) = bits_val n (\<lambda>j. t)"
    if "\<not> peek (dram s') (Data Vals (n - 1) R) c"
    by (rule bits_val_cong) (use out that in auto)
  then have "peek (dram s') (Data Vals (n - 1) R) c \<or> column_val peek (dram s') Output n R c \<in> {0, 2 ^ n - 1}"
    by (cases t) (auto simp: column_val_def bits_val_True)
  with main show ?thesis by blast
qed

theorem abs_behaviour_witness:
  "\<exists>s'. abs_main ambit_hw 4 0 blank = Some s' \<and>
    (dram s' (Data Vals (4 - 1) 0) 5 \<or> column_val (\<lambda>m. m) (dram s') Output 4 0 5 \<in> {0, 2 ^ 4 - 1})"
  by (rule abs_behaviour [OF ambit_facts]) simp

text \<open>C24. The rectification workload clears the sign bit of its operand instead of that of its output, so the
  second of its two iterations sees a non-negative operand and copies the low bits of negative values too.\<close>

theorem relu_behaviour:
  assumes "ambit_substrate hw peek" "alloc_ok hw" "R < per_col_rows arg2" "0 < n"
  shows "\<exists>s0 s'. relu_setup hw n arg2 s = Some s0 \<and> relu_main hw n arg2 s = Some s' \<and>
    column_val peek (dram s') Output (n - 1) R c = column_val peek (dram s0) Vals (n - 1) R c \<and>
    \<not> peek (dram s') (Data Vals (n - 1) R) c"
  by (rule ambit_substrate.relu_program [OF assms])

theorem relu_behaviour_witness:
  "\<exists>s0 s'. relu_setup ambit_hw 4 0 blank = Some s0 \<and> relu_main ambit_hw 4 0 blank = Some s' \<and>
    column_val (\<lambda>m. m) (dram s') Output (4 - 1) 0 5 = column_val (\<lambda>m. m) (dram s0) Vals (4 - 1) 0 5 \<and>
    \<not> dram s' (Data Vals (4 - 1) 0) 5"
  by (rule relu_behaviour [OF ambit_facts]) simp

text \<open>C25. Both versions of the bit-counting workload return for every column length a 32-bit \<open>int\<close> holds, and
  leave the sum of the rows listed by \<open>counted\<close>. Up to four rows these are all the rows, each once; from
  five rows on some row of the input is not among them.\<close>

theorem bitcount_behaviour:
  assumes "ambit_substrate hw peek" "alloc_ok hw" "R < per_col_rows arg2" "n < 2 ^ 31"
  shows "(\<exists>s'. bitcount_plus_main hw n arg2 s = Some s' \<and>
    column_val peek (dram s') Output (width n) R c = (\<Sum>i\<leftarrow>counted 0 n. of_bool (peek (dram s') (Data Vals i R) c)))
    \<and> (\<exists>s'. bitcount_faster_main hw n arg2 s = Some s' \<and>
    column_val peek (dram s') Output (width n) R c = (\<Sum>i\<leftarrow>counted 0 n. of_bool (peek (dram s') (Data Vals i R) c)))
    \<and> (n \<le> 4 \<longrightarrow> counted 0 n = [0..<n]) \<and> (5 \<le> n \<longrightarrow> (\<exists>i<n. i \<notin> set (counted 0 n)))"
  using ambit_substrate.bitcount_plus_program [OF assms] ambit_substrate.bitcount_faster_program [OF assms]
    counted_up_to_4 [of n 0] counted_misses [OF _ assms(4)] by simp

theorem bitcount_behaviour_witness:
  "(\<exists>s'. bitcount_plus_main ambit_hw (5::nat) 0 blank = Some s' \<and>
    column_val (\<lambda>m. m) (dram s') Output (width (5::nat)) 0 5 = (\<Sum>i\<leftarrow>counted 0 (5::nat). of_bool ((\<lambda>m. m) (dram s') (Data Vals i 0) 5)))
    \<and> (\<exists>s'. bitcount_faster_main ambit_hw (5::nat) 0 blank = Some s' \<and>
    column_val (\<lambda>m. m) (dram s') Output (width (5::nat)) 0 5 = (\<Sum>i\<leftarrow>counted 0 (5::nat). of_bool ((\<lambda>m. m) (dram s') (Data Vals i 0) 5)))
    \<and> (\<exists>i<5. i \<notin> set (counted 0 5))"
  using bitcount_behaviour [OF ambit_facts, of 5] by simp



section \<open>The baseline workloads\<close>















text \<open>C34. Two baselines access memory through a pointer that was never assigned, whatever the library does: the
  selection for every supported width, and the division for every other width of at least eight bits.\<close>

theorem baseline_undefined_behaviour:
  assumes "n \<in> {8, 16, 32, 64}" "n' \<notin> {8, 16, 32, 64}" "8 \<le> n'"
  shows "if_then_else_baseline_main lc n arg2 s = None \<and> divu_baseline_main lc n' arg2 s = None"
  using if_then_else_baseline [OF assms(1)] divu_baseline_undefined [OF assms(2,3)] by simp

theorem baseline_undefined_behaviour_witness:
  "if_then_else_baseline_main sample_libc 16 0 no_calls = None \<and> divu_baseline_main sample_libc 24 0 no_calls = None"
  by (rule baseline_undefined_behaviour) simp_all

text \<open>C35. The bit counts of the baselines at the four widths and the two population counts of the query and matching
  workloads, each written as a sequence of masked additions, return the number of set bits.\<close>

theorem population_counts_agree:
  "unat (bitcount8 x8) = bit_count x8 \<and> unat (bitcount16 x16) = bit_count x16 \<and>
   unat (bitcount32 x) = bit_count x \<and> unat (bitcount64 x64) = bit_count x64 \<and>
   unat (upopcount x) = bit_count x \<and> unat (numberOfSetBits x) = bit_count x"
  by (simp add: bitcounts population_counts)



section \<open>Integer functions of the simulator\<close>

text \<open>C37. The logarithms of the base library are tight for every non-zero argument, the two bit searches find the
  highest and the lowest set bit, the test for a power of two is exact, and rounding down to a power of two, or up when
  the sum does not wrap, gives the neighbouring multiple.\<close>

theorem power_of_two_functions:
  assumes "x \<noteq> 0" "isPowerOf2 align" "unat x + (unat align - 1) < 2 ^ 64"
  shows "floorLog2 x = Some (findMsbSet x) \<and> 2 ^ findMsbSet x \<le> unat x \<and> unat x < 2 ^ Suc (findMsbSet x) \<and>
    (\<exists>c. ceilLog2 x = Some c \<and> unat x \<le> 2 ^ c \<and> (c = 0 \<or> 2 ^ (c - 1) < unat x)) \<and>
    bit x (findLsbSet x) \<and> {j. bit x j} \<inter> {..<findLsbSet x} = {} \<and>
    isPowerOf2 x = (\<exists>k<64. x = push_bit k 1) \<and>
    unat (roundDown x align) = unat x div unat align * unat align \<and>
    unat (roundUp x align) = (unat x + (unat align - 1)) div unat align * unat align"
proof (intro conjI)
  have "0 < unat x" using assms(1) by (simp add: unat_gt_0)
  note log = floorLog2_correct [OF this] ceilLog2_correct [OF this]
  show "floorLog2 x = Some (findMsbSet x)" by (rule findMsbSet_floorLog2 [OF assms(1)])
  with log(1) show "2 ^ findMsbSet x \<le> unat x" "unat x < 2 ^ Suc (findMsbSet x)" by auto
  show "\<exists>c. ceilLog2 x = Some c \<and> unat x \<le> 2 ^ c \<and> (c = 0 \<or> 2 ^ (c - 1) < unat x)" using log(2) by auto
  show "{j. bit x j} \<inter> {..<findLsbSet x} = {}" using findLsbSet_correct(2) [OF assms(1)] by auto
qed (rule findLsbSet_correct(1) [OF assms(1)] isPowerOf2_iff roundDown_correct [OF assms(2)] roundUp_correct [OF assms(2,3)])+

theorem power_of_two_functions_witness:
  "floorLog2 100 = Some (findMsbSet 100) \<and> 2 ^ findMsbSet 100 \<le> unat (100 :: 64 word) \<and> unat (100 :: 64 word) < 2 ^ Suc (findMsbSet 100) \<and>
    (\<exists>c. ceilLog2 100 = Some c \<and> unat (100 :: 64 word) \<le> 2 ^ c \<and> (c = 0 \<or> 2 ^ (c - 1) < unat (100 :: 64 word))) \<and>
    bit (100 :: 64 word) (findLsbSet 100) \<and> {j. bit (100 :: 64 word) j} \<inter> {..<findLsbSet 100} = {} \<and>
    isPowerOf2 100 = (\<exists>k<64. 100 = push_bit k (1 :: 64 word)) \<and>
    unat (roundDown 100 64) = unat (100 :: 64 word) div unat (64 :: 64 word) * unat (64 :: 64 word) \<and>
    unat (roundUp 100 64) = (unat (100 :: 64 word) + (unat (64 :: 64 word) - 1)) div unat (64 :: 64 word) * unat (64 :: 64 word)"
  by (rule power_of_two_functions) (simp_all add: isPowerOf2_def leastSigBit_def)

text \<open>C38. What \<open>insertBits\<close> writes to a field, \<open>bits\<close> reads back, truncated to the width of the field; the
  bits outside the field keep their values, and \<open>bits\<close> itself is a shift and a remainder.\<close>

theorem bit_field_roundtrip:
  assumes "lst \<le> first" "first < 64"
  shows "bits (insertBits val first lst b) first lst = take_bit (first - lst + 1) b \<and>
    {j. bit (insertBits val first lst b) j} - {lst..first} = {j. bit val j} - {lst..first} \<and>
    unat (bits val first lst) = unat val div 2 ^ lst mod 2 ^ (first - lst + 1)"
  using insertBits_field [OF assms] bits_correct [OF assms] by (auto simp: bit_insertBits [OF assms])

theorem bit_field_roundtrip_witness:
  "bits (insertBits 0xff00 11 4 0x5a) 11 4 = take_bit (11 - 4 + 1) 0x5a \<and>
    {j. bit (insertBits 0xff00 11 4 0x5a) j} - {4..11} = {j. bit (0xff00 :: 64 word) j} - {4..11} \<and>
    unat (bits 0xff00 11 4) = unat (0xff00 :: 64 word) div 2 ^ 4 mod 2 ^ (11 - 4 + 1)"
  by (rule bit_field_roundtrip) simp_all

text \<open>C39. For arguments that are multiples of neither two nor three, and below the square at which the loop variable
  overflows, \<open>isPrime\<close> decides primality. \<open>prevPrime\<close> returns the greatest prime not above its argument when the
  odd number it starts from is a multiple of three. Otherwise its first step is to a multiple of three: it returns 21 for
  25, and \<open>isPrime\<close> accepts 9.\<close>

theorem prime_search_behaviour:
  assumes "odd n" "\<not> 3 dvd n" "1 < n" "n < 46337 * 46337"
    and "9 \<le> m" "m < 46337 * 46337" "m mod 6 = 3 \<or> m mod 6 = 4"
  shows "isPrime n = Some (prime_int n) \<and> (\<exists>p. prevPrime m = Some p \<and> greatest_prime m p) \<and>
    isPrime 9 = Some True \<and> prevPrime 25 = Some 21"
  using isPrime_correct [OF assms(1-4)] prevPrime_correct [OF assms(5-7)] isPrime_9 prevPrime_25 by blast

theorem prime_search_behaviour_witness:
  "isPrime 7919 = Some (prime_int 7919) \<and> (\<exists>p. prevPrime 1000 = Some p \<and> greatest_prime 1000 p) \<and>
    isPrime 9 = Some True \<and> prevPrime 25 = Some 21"
  by (rule prime_search_behaviour) simp_all

section \<open>The DRAM controller\<close>



text \<open>C10. The scheduler never loses or duplicates a packet. It reports a choice exactly if some queued packet goes to an
  available rank, and the packet in front then goes to one. First-come first-served moves the oldest such packet to the
  front; the first-ready policy moves the oldest one whose row is open and whose column command leaves no gap on the bus.
  The order of the others is kept.\<close>

theorem scheduler_choice:
  assumes "q \<noteq> []" "list_all (pkt_ok cfg) q" "banks_fit cfg" "ranks_inv cfg rs" "ticks_fit cfg now rs"
  shows "\<exists>found q'. chooseNext cfg now rs busy extra q = Some (found, q') \<and> mset q' = mset q \<and>
    (found \<longrightarrow> isAvailable (rs ! dp_rank (hd q'))) \<and> (found \<longleftrightarrow> (\<exists>p\<in>set q. isAvailable (rs ! dp_rank p))) \<and>
    (\<forall>xs p ys. q = xs @ p # ys \<longrightarrow>
      (memSchedPolicy cfg = fcfs \<and> list_all (\<lambda>x. \<not> isAvailable (rs ! dp_rank x)) xs \<and> isAvailable (rs ! dp_rank p) \<longrightarrow> q' = p # xs @ ys) \<and>
      (memSchedPolicy cfg = frfcfs \<and> list_all (\<lambda>x. \<not> seamless_hit rs (max (tick_sub (busy + extra) (tCL cfg)) now) x) xs \<and>
        seamless_hit rs (max (tick_sub (busy + extra) (tCL cfg)) now) p \<longrightarrow> q' = p # xs @ ys))"
proof -
  obtain found q' where r: "chooseNext cfg now rs busy extra q = Some (found, q')" "scheduled rs q found q'"
      "\<not> found \<longrightarrow> (\<forall>p\<in>set q. isAvailable (rs ! dp_rank p) \<longrightarrow> MaxTick < act_tick_of cfg now (banks (rs ! dp_rank p) ! dp_bank p))"
    using chooseNext_ok [OF assms(1-3), of now rs busy extra] by blast
  have "act_tick_of cfg now (banks (rs ! dp_rank p) ! dp_bank p) \<le> MaxTick" if "p \<in> set q" for p
  proof -
    have "dp_rank p < length rs" using assms(2,4) that by (auto simp: list_all_iff pkt_ok_def ranks_inv_def)
    moreover from this have "dp_bank p < length (banks (rs ! dp_rank p))"
      using assms(2,4) that by (auto simp: list_all_iff pkt_ok_def ranks_inv_def rank_inv_def)
    ultimately show ?thesis using assms(5) nth_mem [of "dp_rank p" rs] nth_mem [of "dp_bank p" "banks (rs ! dp_rank p)"] unfolding ticks_fit_def by (simp del: nth_mem)
  qed
  then have none: "found \<or> \<not> (\<exists>p\<in>set q. isAvailable (rs ! dp_rank p))" using r(3) by fastforce
  have same: "mset q' = mset q" "found \<longrightarrow> isAvailable (rs ! dp_rank (hd q'))" using r(2) by (simp_all add: scheduled_def)
  then have "hd q' \<in> set q" using assms(1) by (metis hd_in_set mset_zero_iff set_mset_mset)
  with same none have "found \<longleftrightarrow> (\<exists>p\<in>set q. isAvailable (rs ! dp_rank p))" by blast
  moreover have "q' = p # xs @ ys" if "q = xs @ p # ys" "memSchedPolicy cfg = fcfs \<and> list_all (\<lambda>x. \<not> isAvailable (rs ! dp_rank x)) xs \<and> isAvailable (rs ! dp_rank p) \<or>
      memSchedPolicy cfg = frfcfs \<and> list_all (\<lambda>x. \<not> seamless_hit rs (max (tick_sub (busy + extra) (tCL cfg)) now) x) xs \<and>
      seamless_hit rs (max (tick_sub (busy + extra) (tCL cfg)) now) p" for xs p ys
    using chooseNext_first [OF r(1) [unfolded that(1)]] that(2) by auto
  ultimately show ?thesis using r(1) same by (intro exI [of _ found] exI [of _ q'] conjI allI impI) auto
qed

theorem scheduler_choice_witness:
  "\<exists>q'. chooseNext sample_cfg 0 sample_ranks 0 0 [sample_dram_pkt 0 5, sample_dram_pkt 1 6] = Some (True, q') \<and>
     mset q' = {#sample_dram_pkt 0 5, sample_dram_pkt 1 6#} \<and> isAvailable (sample_ranks ! dp_rank (hd q'))"
proof -
  let ?q = "[sample_dram_pkt 0 5, sample_dram_pkt 1 6]"
  have "list_all (pkt_ok sample_cfg) ?q" "banks_fit sample_cfg"
    by (simp_all add: pkt_ok_def sample_dram_pkt_def sample_cfg_def banks_fit_def NO_ROW_def)
  from scheduler_choice [OF _ this sample_ranks_ok(1,2), of 0 0] obtain found q' where
    q': "chooseNext sample_cfg 0 sample_ranks 0 0 ?q = Some (found, q')" "mset q' = mset ?q" "found \<longrightarrow> isAvailable (sample_ranks ! dp_rank (hd q'))"
      "found \<longleftrightarrow> (\<exists>p\<in>set ?q. isAvailable (sample_ranks ! dp_rank p))" by auto
  moreover have "\<exists>p\<in>set ?q. isAvailable (sample_ranks ! dp_rank p)" using sample_ranks_ok(4) by (simp add: sample_dram_pkt_def)
  ultimately show ?thesis by auto
qed

text \<open>C11. A refresh completes. On an idle rank its events run through and leave the rank available, with every bank
  closed and blocked until \<open>tRFC\<close> later, and with the next refresh scheduled one interval on. A rank with open
  banks first stops being available and precharges all banks, no earlier than \<open>tRP\<close> later, and if that leaves
  room before the next refresh is due, completes in the same way. A rank that is idle at the moment, but has an
  activation and its precharge issued for a later tick, starts the refresh at once; the activation then panics.\<close>

theorem refresh_completes:
  assumes "rank_inv cfg r" "isAvailable r" "powerEvent r = None" "tRP cfg \<le> tRFC cfg" "tRFC cfg \<le> tREFI cfg"
  shows "(pwrState r = PWR_IDLE \<and> numBanksActive r = 0 \<longrightarrow>
      (\<exists>r'. refresh_cycle cfg now now ar r = Some (r', True) \<and> refreshed cfg now now r')) \<and>
    (pwrState r = PWR_ACT \<and> numBanksActive r \<noteq> 0 \<longrightarrow>
      (\<exists>r1 t. processRefreshEvent cfg now ar False (r\<lparr>refreshEvent := None\<rparr>) = Some r1 \<and> \<not> isAvailable r1 \<and> prechargeEvent r1 = Some t \<and> now + tRP cfg \<le> t \<and>
        (t + tRFC cfg \<le> now + tREFI cfg \<longrightarrow> (\<exists>r'. refresh_cycle cfg now t ar r = Some (r', True) \<and> refreshed cfg now t r')))) \<and>
    (pwrState r = PWR_IDLE \<and> numBanksActive r = 0 \<and> b < banksPerRank cfg \<and> actAllowedAt (banks r ! b) \<le> t \<and> row \<noteq> NO_ROW \<and> activateEvent r = None \<longrightarrow>
      (\<exists>r0 r1 r2. apBank cfg b t row r = Some r0 \<and> processRefreshEvent cfg now ar False (r0\<lparr>refreshEvent := None\<rparr>) = Some r1 \<and>
        processPowerEvent cfg now ar False r1 = Some (r2, False) \<and> powerEvent r2 = Some (now + tRFC cfg) \<and> activateEvent r2 = Some t \<and>
        processActivateEvent t r2 = None))"
proof (intro conjI impI; elim conjE)
  show "\<exists>r'. refresh_cycle cfg now now ar r = Some (r', True) \<and> refreshed cfg now now r'" if "pwrState r = PWR_IDLE" "numBanksActive r = 0"
    by (rule refresh_idle_rank [OF assms(1,2) that(1) assms(3) that(2) assms(5,4)])
  show "\<exists>r0 r1 r2. apBank cfg b t row r = Some r0 \<and> processRefreshEvent cfg now ar False (r0\<lparr>refreshEvent := None\<rparr>) = Some r1 \<and>
        processPowerEvent cfg now ar False r1 = Some (r2, False) \<and> powerEvent r2 = Some (now + tRFC cfg) \<and> activateEvent r2 = Some t \<and>
        processActivateEvent t r2 = None" if "pwrState r = PWR_IDLE" "numBanksActive r = 0" "b < banksPerRank cfg"
        "actAllowedAt (banks r ! b) \<le> t" "row \<noteq> NO_ROW" "activateEvent r = None"
    by (rule refresh_meets_activation [OF assms(1,2) that(1) assms(3) that(2) assms(5,4) that(3-6)])
qed (rule refresh_active_rank [OF assms(1,2) _ assms(3) _ assms(4)])

theorem refresh_completes_witness:
  "(\<exists>r'. refresh_cycle sample_cfg 7786250 7786250 0 (new_rank sample_cfg 0) = Some (r', True) \<and> refreshed sample_cfg 7786250 7786250 r') \<and>
   (\<exists>r0 r1 r2. apBank sample_cfg 3 7790000 5 (new_rank sample_cfg 0) = Some r0 \<and>
      processRefreshEvent sample_cfg 7786250 1 False (r0\<lparr>refreshEvent := None\<rparr>) = Some r1 \<and>
      processPowerEvent sample_cfg 7786250 1 False r1 = Some (r2, False) \<and> processActivateEvent 7790000 r2 = None)"
proof -
  have r: "isAvailable (new_rank sample_cfg 0)" "powerEvent (new_rank sample_cfg 0) = None" "pwrState (new_rank sample_cfg 0) = PWR_IDLE"
    "numBanksActive (new_rank sample_cfg 0) = 0" "activateEvent (new_rank sample_cfg 0) = None" by (simp_all add: isAvailable_def new_rank_def)
  have b: "3 < banksPerRank sample_cfg" "actAllowedAt (banks (new_rank sample_cfg 0) ! 3) \<le> 7790000" "(5 :: 32 word) \<noteq> NO_ROW"
    by (simp_all add: sample_cfg_def new_rank_def new_bank_def NO_ROW_def)
  have "tRP sample_cfg \<le> tRFC sample_cfg" "tRFC sample_cfg \<le> tREFI sample_cfg" by (simp_all add: sample_cfg_def)
  note ok = refresh_completes [OF sample_rank_inv(1) r(1,2) this]
  show ?thesis using ok [of 7786250 0] ok [of 7786250 1 3 7790000 5] r(3-5) b by blast
qed

text \<open>C12. The invariant of a rank (the counter of active banks is the number of open rows; the recorded activations are
  sorted, and every bank waits for the end of the window of the oldest) holds of a new rank and is kept by every command
  issued once its bank allows it. The commands then never fail an assertion, and the activation window panic of
  \<open>activateBank\<close> is unreachable.\<close>

theorem rank_commands_keep_invariant:
  assumes "rank_inv cfg r" "b < banksPerRank cfg" "actAllowedAt (banks r ! b) \<le> t" "row \<noteq> NO_ROW"
  shows "rank_inv cfg (new_rank cfg i) \<and>
    (if openRow (banks r ! b) = NO_ROW
     then (\<exists>r'. activateBank cfg b t row r = Some r' \<and> rank_inv cfg r' \<and> openRow (banks r' ! b) = row \<and>
             preAllowedAt (banks r' ! b) = t + tRAS cfg \<and> t + tRCD cfg \<le> colAllowedAt (banks r' ! b)) \<and>
          (\<exists>r'. apBank cfg b t row r = Some r' \<and> row_cmd_done cfg b (t + tRAS cfg + tRP cfg) r r') \<and>
          (\<exists>r'. aapBank cfg b t row1 row2 ov r = Some r' \<and>
             row_cmd_done cfg b (t + tRAS cfg + (if ov then tWLOV cfg else tWL cfg) + tRP cfg) r r')
     else (\<exists>r'. prechargeBank cfg b t r = Some r' \<and> row_cmd_done cfg b (t + tRP cfg) r r'))"
proof (cases "openRow (banks r ! b) = NO_ROW")
  case True
  then show ?thesis
    using activateBank_ok [OF assms(1,2) True assms(3,4)] apBank_ok [OF assms(1,2) True assms(3,4)]
      aapBank_ok [OF assms(1,2) True assms(3)] new_rank_inv by (simp only: if_True simp_thms) blast
next
  case False
  then show ?thesis
    using prechargeBank_ok [OF assms(1,2) False, of t] new_rank_inv by (simp only: if_False row_cmd_done_def simp_thms) blast
qed

theorem rank_commands_keep_invariant_witness:
  "rank_inv sample_cfg (new_rank sample_cfg 1) \<and>
    (\<exists>r'. apBank sample_cfg 0 1000 5 (new_rank sample_cfg 0) = Some r' \<and>
       row_cmd_done sample_cfg 0 (1000 + tRAS sample_cfg + tRP sample_cfg) (new_rank sample_cfg 0) r')"
  using rank_commands_keep_invariant [OF sample_rank_inv(1,2,4), of 5 1 0 0 True] sample_rank_inv(3) by (simp add: special_rows)

text \<open>C13. Every row operation sent to a closed bank completes: all its activate-activate-precharge and
  activate-precharge commands are issued, the rank invariant is kept, the bank is closed again, and the bank is ready no
  earlier than the sum of the latencies of the commands.\<close>

theorem row_operations_complete:
  assumes "rank_inv cfg r" "b < banksPerRank cfg" "openRow (banks r ! b) = NO_ROW" "actAllowedAt (banks r ! b) \<le> t"
  shows "\<exists>r' t'. run_row_cmds cfg b (row_op_cmds op dest src1 src2) t r = Some (r', t') \<and> rank_inv cfg r' \<and>
    openRow (banks r' ! b) = NO_ROW \<and> refreshState r' = refreshState r \<and> actAllowedAt (banks r' ! b) \<le> t' \<and>
    t + sum_list (map (row_cmd_latency cfg) (row_op_cmds op dest src1 src2)) \<le> t'"
  by (rule row_op_ok [OF assms])

theorem row_operations_complete_witness:
  "\<exists>r' t'. run_row_cmds sample_cfg 0 (row_op_cmds ROWXOR 7 5 6) 1000 (new_rank sample_cfg 0) = Some (r', t') \<and> rank_inv sample_cfg r' \<and>
    openRow (banks r' ! 0) = NO_ROW \<and> refreshState r' = refreshState (new_rank sample_cfg 0) \<and> actAllowedAt (banks r' ! 0) \<le> t' \<and>
    1000 + sum_list (map (row_cmd_latency sample_cfg) (row_op_cmds ROWXOR 7 5 6)) \<le> t'"
  by (rule row_operations_complete [OF sample_rank_inv])

section \<open>Packets and memory\<close>

text \<open>C6. A context holds at most one reservation. A load-locked access makes it; a store conditional writes, and reports
  success, exactly if the reservation of its context on its block is still there; it and every plain write drop all
  reservations of the block. A row operation rewrites a row and drops none.\<close>

theorem reservations_guard_stores:
  assumes "lock_inv m" "mem_pkt l a lbuf m pm" "cmd l = LoadLockedReq" "contextId (req l) = Some c"
    and "mem_pkt s b sbuf m pm" "cmd s = StoreCondReq" "contextId (req s) = Some e"
    and "mem_pkt w b wbuf m pm" "cmd w = WriteReq"
    and "isRowOp (req p)" "\<not> memInhibitAsserted p" "cmd p = WriteReq" "getPayload p = Some addrs" "row_access addrs m = Some (set_mem pm2 m)"
  shows "(\<exists>l' m'. access l m = Some (l', m') \<and> pmem m' = Some pm \<and> lock_inv m' \<and>
      reservations m' = {r \<in> reservations m. fst r \<noteq> c} \<union> {(c, lock_mask a)}) \<and>
    (let ok = (e, lock_mask b) \<in> reservations m in
     \<exists>s' m'. access s m = Some (s', m') \<and> getExtraData (req s') = Some (if ok then 1 else 0) \<and>
      pmem m' = Some (if ok then overwrite (store_off m b) sbuf pm else pm) \<and> lock_inv m' \<and>
      reservations m' = (if ok then {r \<in> reservations m. snd r \<noteq> lock_mask b} else reservations m)) \<and>
    (\<exists>w' m'. access w m = Some (w', m') \<and> lock_inv m' \<and> reservations m' = {r \<in> reservations m. snd r \<noteq> lock_mask b}) \<and>
    (\<exists>p' m'. access p m = Some (p', m') \<and> pmem m' = Some pm2 \<and> lock_inv m' \<and> reservations m' = reservations m)"
  using access_load_locked [OF assms(2-4,1)] access_store_conditional [OF assms(5-7,1)] access_write [OF assms(8,9)]
    access_row_op [OF assms(10-14)] drop_block_locks(1) [of m "lock_mask b"] drop_block_locks(2) [of "lock_mask b" m] assms(1)
  by (auto simp: Let_def)

theorem reservations_guard_stores_witness:
  "\<exists>l' m'. access (sample_pkt LoadLockedReq 4096 [0, 0, 0, 0]) sample_mem = Some (l', m') \<and> reservations m' = {(1, lock_mask 4096)}"
proof -
  obtain pm2 where pm2: "row_access sample_payload sample_mem = Some (set_mem pm2 sample_mem)" using sample_row_access by blast
  have "\<not> testCmdAttrib LoadLockedReq IsPrint" "\<not> testCmdAttrib StoreCondReq IsPrint" "\<not> testCmdAttrib WriteReq IsPrint"
    by (simp_all add: testCmdAttrib_def)
  note p = this [THEN sample_mem_pkt(1), of "[0, 0, 0, 0]"] this [THEN sample_mem_pkt(2), of "[0, 0, 0, 0]"] this [THEN sample_mem_pkt(3), of "[0, 0, 0, 0]"]
  show ?thesis
    using reservations_guard_stores [of sample_mem "sample_pkt LoadLockedReq 4096 [0, 0, 0, 0]" 4096 "[0, 0, 0, 0]" "replicate 65536 0" 1
      "sample_pkt StoreCondReq 4096 [0, 0, 0, 0]" 4096 "[0, 0, 0, 0]" 1 "sample_pkt WriteReq 4096 [0, 0, 0, 0]" "[0, 0, 0, 0]"
      sample_row_pkt sample_payload pm2] p pm2 sample_row_pkt_ok sample_mem_locks
    by simp blast
qed

text \<open>C14. A write access stores the data of the packet and changes no other byte of the store, and a read access of the same
  bytes then returns that data.\<close>

theorem memory_write_read:
  assumes "mem_pkt w a buf m pm" "cmd w = WriteReq" "mem_pkt r a rbuf m pm" "cmd r = ReadReq" "length rbuf = length buf"
  shows "\<exists>w' m' r'. access w m = Some (w', m') \<and> cmd w' = WriteResp \<and> pmem m' = Some (overwrite (store_off m a) buf pm) \<and>
    access r m' = Some (r', m') \<and> cmd r' = ReadResp \<and> pdata r' = Bytes buf"
proof -
  let ?m = "set_mem (overwrite (store_off m a) buf pm) (drop_block (lock_mask a) m)"
  have fits: "store_off m a + length buf \<le> length pm" using assms(1) by (simp add: mem_pkt_def)
  have "mem_pkt r a rbuf ?m (overwrite (store_off m a) buf pm)"
    using assms(3) fits by (simp add: mem_pkt_def set_mem_def drop_block_def overwrite_def store_off_def)
  moreover have "take (length rbuf) (drop (store_off ?m a) (overwrite (store_off m a) buf pm)) = buf"
    using fits assms(5) by (simp add: overwrite_def set_mem_def drop_block_def store_off_def)
  ultimately show ?thesis using access_write [OF assms(1,2)] access_read [of r a rbuf ?m] assms(4) by fastforce
qed

theorem memory_write_read_witness:
  "\<exists>w' m' r'. access (sample_pkt WriteReq 4096 [1, 2, 3, 4]) sample_mem = Some (w', m') \<and> cmd w' = WriteResp \<and>
    pmem m' = Some (overwrite (store_off sample_mem 4096) [1, 2, 3, 4] (replicate 65536 0)) \<and>
    access (sample_pkt ReadReq 4096 [0, 0, 0, 0]) m' = Some (r', m') \<and> cmd r' = ReadResp \<and> pdata r' = Bytes [1, 2, 3, 4]"
  by (rule memory_write_read [OF sample_mem_pkt(1,3) sample_mem_pkt(1,3)]) (simp_all add: testCmdAttrib_def)



text \<open>C17. \<open>checkFunctional\<close>: a read inside the value takes the bytes of the value; a write leaves in the value the bytes of
  the packet at every address they share. A read that the value overlaps from below, though, misses the last byte of the
  overlap: neither copied nor marked valid.\<close>

theorem functional_check_behaviour:
  assumes "pkt_at p a buf" "isRead p" "pkt_secure p = sec" "d \<noteq> []" "unat v + length d < 2 ^ 64" "bytesValid p = []"
    and "pkt_at w a wbuf" "\<not> isRead w" "isWrite w" "pkt_secure w = sec" "unat a < unat v + length d" "unat v < unat a + length wbuf"
  shows "(unat v \<le> unat a \<and> unat a + length buf \<le> unat v + length d \<longrightarrow>
      (\<exists>p'. checkFunctional p v sec (length d) (Some d) = Some (True, p', Some d) \<and>
         pdata p' = Bytes (take (length buf) (drop (unat a - unat v) d)))) \<and>
    (unat v < unat a \<and> unat v + length d < unat a + length buf \<longrightarrow>
      (\<exists>p' buf'. checkFunctional p v sec (length d) (Some d) = Some (False, p', Some d) \<and> pdata p' = Bytes buf' \<and>
         length buf' = length buf \<and>
         (\<forall>i<length buf. buf' ! i = (if unat a + i + 1 < unat v + length d then d ! (unat a - unat v + i) else buf ! i)) \<and>
         bytesValid p' = map (\<lambda>i. unat a + i + 1 < unat v + length d) [0..<length buf])) \<and>
    (\<exists>d'. checkFunctional w v sec (length d) (Some d) = Some (False, w, Some d') \<and> length d' = length d \<and>
      (\<forall>i<length d. d' ! i = (if unat a \<le> unat v + i \<and> unat v + i < unat a + length wbuf then wbuf ! (unat v + i - unat a) else d ! i)))"
  using checkFunctional_read_covered [OF assms(1-5)] checkFunctional_read_from_below [OF assms(1-5) _ assms(11) _ assms(6)]
    checkFunctional_write [OF assms(7-10,4,5,11,12)] by blast

theorem functional_check_behaviour_witness:
  "\<exists>p' buf'. checkFunctional (sample_pkt ReadReq 4096 [0, 0, 0, 0]) 4094 False (length [5, 6, 7, 8 :: byte8]) (Some [5, 6, 7, 8]) =
      Some (False, p', Some [5, 6, 7, 8]) \<and> pdata p' = Bytes buf' \<and> buf' ! 0 = 7 \<and> buf' ! 1 = 0 \<and> bytesValid p' = [True, False, False, False]"
  using functional_check_behaviour [OF sample_pkt_at(1) _ _ _ _ _ sample_pkt_at(2), of False "[5, 6, 7, 8]" 4094]
  by (simp add: sample_pkt_defs cmd_eval upt_rec) force

text \<open>C40. \<open>makeResponse\<close> is well typed over the whole command table: a request that needs a response becomes a response of
  the same direction, with data when it is a read, at the same address and size, and no response is itself marked as
  needing one, but for the answer to an acquire. Every other packet fails the assertions.\<close>

theorem response_commands:
  assumes "isRequest p" "needsResponse p" "\<not> (isRequest q \<and> needsResponse q)"
  shows "\<exists>p'. makeResponse p = Some p' \<and> isResponse p' \<and> \<not> isRequest p' \<and> isRead p' = isRead p \<and> isWrite p' = isWrite p \<and>
    (isRead p \<longrightarrow> hasData p') \<and> (needsResponse p' \<longleftrightarrow> cmd p = AcquireReq) \<and> getAddr p' = getAddr p \<and> getSize p' = getSize p \<and>
    makeResponse q = None"
proof -
  have "(w AND NOT (2::32 word)) AND 0x100 = w AND 0x100" "(w AND NOT (2::32 word)) AND 0x200 = w AND 0x200" for w
    by (simp_all add: word_bw_assocs)
  then show ?thesis
    using assms response_of_request [OF assms(1,2)]
    by (auto simp: makeResponse_def getAddr_def getSize_def isSet_def clearFlags_def packet_flags)
qed

theorem response_commands_witness:
  "\<exists>p'. makeResponse (sample_pkt ReadReq 4096 [0]) = Some p' \<and> isResponse p' \<and> hasData p' \<and> \<not> needsResponse p'"
  using response_commands [of "sample_pkt ReadReq 4096 [0]" "sample_pkt Writeback 4096 [0]"]
  by (auto simp: sample_pkt_defs cmd_eval)

section \<open>Composition\<close>

text \<open>C2. The two halves of the simulator agree on row operations: the timing side issues row commands, the functional side
  updates bytes, and on every bit line the commands, executed by the reference machine, leave in every row exactly the
  bits of the bytes that \<open>AbstractMemory::access\<close> stores.\<close>

theorem row_operations_refine_memory:
  assumes "pmem m = Some pm" "pl_op addrs \<noteq> ROWAP" "pl_op addrs \<noteq> ROWAAP" "data_row d" "data_row s1" "data_row s2"
    and "store_off m (pl_dest addrs) = GEM5_ROW_SIZE * unat d" "store_off m (pl_src1 addrs) = GEM5_ROW_SIZE * unat s1"
    and "store_off m (pl_src2 addrs) = GEM5_ROW_SIZE * unat s2"
    and "GEM5_ROW_SIZE * n \<le> length pm" "unat d < n" "unat s1 < n" "unat s2 < n"
    and "isRowOp (req p)" "\<not> memInhibitAsserted p" "cmd p = WriteReq" "getPayload p = Some addrs"
  shows "\<exists>p' m' pm'. access p m = Some (p', m') \<and> cmd p' = WriteResp \<and> pmem m' = Some pm' \<and>
    (\<forall>r<n. \<forall>c<8 * GEM5_ROW_SIZE. column pm' c (Data Vals r 0) =
       lane_run (map cmd_vop (row_op_cmds (pl_op addrs) d s1 s2)) (column pm c) (Data Vals r 0))"
proof -
  obtain pm' where pm': "row_access addrs m = Some (set_mem pm' m)"
    "\<forall>r<n. \<forall>c<8 * GEM5_ROW_SIZE. column pm' c (Data Vals r 0) =
       lane_run (map cmd_vop (row_op_cmds (pl_op addrs) d s1 s2)) (column pm c) (Data Vals r 0)"
    using row_commands_refine [OF assms(1-13)] by blast
  from access_row_op [OF assms(14-17) pm'(1)] pm'(2) show ?thesis by (metis set_mem_locks(3))
qed

theorem row_operations_refine_memory_witness:
  "\<exists>p' m' pm'. access sample_row_pkt sample_mem = Some (p', m') \<and> cmd p' = WriteResp \<and> pmem m' = Some pm' \<and>
    column pm' 77 (Data Vals 2 0) = lane_run (map cmd_vop (row_op_cmds ROWXOR 2 0 1)) (column (replicate 65536 0) 77) (Data Vals 2 0)"
proof -
  have "\<exists>p' m' pm'. access sample_row_pkt sample_mem = Some (p', m') \<and> cmd p' = WriteResp \<and> pmem m' = Some pm' \<and>
    (\<forall>r<8. \<forall>c<8 * GEM5_ROW_SIZE. column pm' c (Data Vals r 0) =
       lane_run (map cmd_vop (row_op_cmds (pl_op sample_payload) 2 0 1)) (column (replicate 65536 0) c) (Data Vals r 0))"
    by (rule row_operations_refine_memory [OF _ _ _ _ _ _ _ _ _ _ _ _ _ sample_row_pkt_ok])
       (simp_all add: sample_payload_def sample_mem_def store_off_def GEM5_ROW_SIZE_def make_range_def data_row_def special_rows word_less_nat_alt)
  moreover have "(2::nat) < 8" "77 < 8 * GEM5_ROW_SIZE" "pl_op sample_payload = ROWXOR"
    by (simp_all add: GEM5_ROW_SIZE_def sample_payload_def)
  ultimately show ?thesis by metis
qed

text \<open>C5. A row instruction on the timing CPU, with its operands translated in any order: only the last translation
  completes it. A fault of the destination is raised. Otherwise one write is sent, whose payload has the physical
  address of every operand that did not fault, and on which the memory performs the row operation. A fault of a source,
  though, is lost, and its virtual address is sent instead.\<close>

theorem row_operation_translation:
  assumes "tlb_ok tlb" "isPowerOf2 (cacheLineSize xc)" "32 \<le> cacheLineSize xc" "distinct qs" "set qs = row_parts op"
  shows "\<exists>st st'. writeMem now xc (Some (RowPayload (row_instruction op rdi rsi rdx))) 32 0 row_flags res = Some st \<and>
    translate_parts tlb qs st = Some st' \<and>
    (let fault = operand_fault tlb (row_req now xc); phys = operand tlb (row_req now xc) in
     if fault rdi \<noteq> None then finishTranslation st' = Some (Translation_Fault (fault rdi))
     else \<exists>p addrs. finishTranslation st' = Some (Write_Packet p) \<and> getPayload p = Some addrs \<and> pl_op addrs = op \<and> pl_dest addrs = phys rdi \<and>
       (1 \<in> row_parts op \<longrightarrow> pl_src1 addrs = (if fault rsi = None then phys rsi else rsi)) \<and>
       (2 \<in> row_parts op \<longrightarrow> pl_src2 addrs = (if fault rdx = None then phys rdx else rdx)) \<and>
       (\<forall>m m'. row_access addrs m = Some m' \<longrightarrow> (\<exists>p'. access p m = Some (p', m') \<and> cmd p' = WriteResp)))"
proof -
  let ?pl = "row_instruction op rdi rsi rdx" let ?r = "row_req now xc"
  have pl: "pl_op ?pl = op" "pl_dest ?pl = rdi" by (simp_all add: row_instruction_def)
  have tp: "pl_op (translated_payload tlb ?r ?pl) = op" "pl_dest (translated_payload tlb ?r ?pl) = operand tlb ?r rdi"
    "1 \<in> row_parts op \<longrightarrow> pl_src1 (translated_payload tlb ?r ?pl) = (if operand_fault tlb ?r rsi = None then operand tlb ?r rsi else rsi)"
    "2 \<in> row_parts op \<longrightarrow> pl_src2 (translated_payload tlb ?r ?pl) = (if operand_fault tlb ?r rdx = None then operand tlb ?r rdx else rdx)"
    by (cases op; auto simp: translated_payload_def row_instruction_def row_parts_def operand_faulty)+
  obtain st where st: "translate_parts tlb qs (row_start ?r ?pl res) = Some st"
    "if operand_fault tlb ?r rdi \<noteq> None then finishTranslation st = Some (Translation_Fault (operand_fault tlb ?r rdi))
     else \<exists>p. finishTranslation st = Some (Write_Packet p) \<and> cmd p = WriteReq \<and> isRowOp (req p) \<and> \<not> memInhibitAsserted p \<and>
       getPayload p = Some (translated_payload tlb ?r ?pl)"
    using row_action [OF assms(1,4), of ?pl now xc res] assms(5) unfolding pl by blast
  show ?thesis
  proof (cases "operand_fault tlb ?r rdi = None")
    case True
    with st(2) obtain p where "finishTranslation st = Some (Write_Packet p)" "cmd p = WriteReq" "isRowOp (req p)" "\<not> memInhibitAsserted p"
      "getPayload p = Some (translated_payload tlb ?r ?pl)" by auto
    moreover from this access_row_op [OF this(3,4,2,5)]
    have "\<forall>m m'. row_access (translated_payload tlb ?r ?pl) m = Some m' \<longrightarrow> (\<exists>p'. access p m = Some (p', m') \<and> cmd p' = WriteResp)" by blast
    ultimately show ?thesis using row_write [OF assms(2,3)] st(1) tp True unfolding Let_def by (simp only: simp_thms if_False) blast
  next
    case False
    then show ?thesis using row_write [OF assms(2,3)] st unfolding Let_def by auto
  qed
qed

theorem row_operation_translation_witness:
  "\<exists>st st' p addrs. writeMem 0 sample_cpu (Some (RowPayload (row_instruction ROWXOR 0x4000 8192 0x6000))) 32 0 row_flags None = Some st \<and>
    translate_parts sample_tlb [2, 0, 1] st = Some st' \<and> finishTranslation st' = Some (Write_Packet p) \<and> getPayload p = Some addrs \<and>
    pl_dest addrs = 0x104000 \<and> pl_src1 addrs = 8192 \<and> pl_src2 addrs = 0x106000"
proof -
  have "isPowerOf2 (cacheLineSize sample_cpu)" "32 \<le> cacheLineSize sample_cpu" by (simp_all add: sample_cpu_def isPowerOf2_def leastSigBit_def)
  moreover have "distinct [2, 0, 1 :: nat]" "set [2, 0, 1] = row_parts ROWXOR" by (auto simp: row_parts_def)
  moreover have "operand_fault sample_tlb r 0x4000 = None" "operand sample_tlb r 0x4000 = 0x104000" "operand_fault sample_tlb r 8192 = Some ''page fault''"
    "operand_fault sample_tlb r 0x6000 = None" "operand sample_tlb r 0x6000 = 0x106000" for r
    by (simp_all add: operand_fault_def operand_def sample_tlb_def setPaddr_def)
  ultimately show ?thesis
    using row_operation_translation [OF sample_tlb_ok, of sample_cpu "[2, 0, 1]" ROWXOR 0 "0x4000" 8192 "0x6000" None]
    by (simp add: Let_def row_parts_def) blast
qed

end
